(* ===== verification/Go_Prelude.thy ===== *)
theory Go_Prelude
  imports Main "HOL-Library.AList"
begin

text \<open>
  What every component shares: Go errors and the traversal of a wrapped error, time and
  durations at the width Go gives them, Go maps as association lists whose order stands for
  the iteration order of one range loop, and two locales about runs of a state machine.
\<close>

named_theorems go_defs \<open>the definitions a component's proofs unfold together\<close>
named_theorems go_inv \<open>preservation lemmas: an operation keeps a component's invariant\<close>

section \<open>Errors\<close>

text \<open>
  \<open>Sentinel\<close> is an \<open>errors.New\<close> value that the code compares by identity, \<open>Msg\<close> a formatted
  error that wraps nothing, \<open>Wrap p e s\<close> the result of a format with one \<open>%w\<close> verb: the text
  before it, the wrapped error, the text after it.
\<close>

datatype go_error = Sentinel string | Msg string | Wrap string go_error string

fun error_string :: "go_error \<Rightarrow> string" where
  "error_string (Sentinel m) = m"
| "error_string (Msg m) = m"
| "error_string (Wrap p e s) = p @ error_string e @ s"

text \<open>\<open>errors.Is\<close>: the error itself or anything it wraps.\<close>

fun errors_is :: "go_error \<Rightarrow> go_error \<Rightarrow> bool" where
  "errors_is (Wrap p e s) t = (Wrap p e s = t \<or> errors_is e t)"
| "errors_is e t = (e = t)"

lemma errors_is_refl [simp]: "errors_is e e"
  by (cases e) auto

lemma errors_is_wrap [intro]: "errors_is e t \<Longrightarrow> errors_is (Wrap p e s) t"
  by simp

section \<open>Time\<close>

text \<open>
  A \<open>time.Duration\<close> is a signed 64-bit count of nanoseconds; a \<open>time.Time\<close> is the number of
  nanoseconds since the zero time, so that \<open>IsZero\<close> is equality with 0. Multiplication of
  durations wraps around, while \<open>Time.Sub\<close> saturates.
\<close>

type_synonym duration = int
type_synonym go_time = int

abbreviation (input) min_duration :: duration where "min_duration \<equiv> - 9223372036854775808"
abbreviation (input) max_duration :: duration where "max_duration \<equiv> 9223372036854775807"

definition wrap64 :: "int \<Rightarrow> int" where
  "wrap64 x = (x + 9223372036854775808) mod 18446744073709551616 - 9223372036854775808"

definition time_sub :: "go_time \<Rightarrow> go_time \<Rightarrow> duration" where
  "time_sub t u = max min_duration (min max_duration (t - u))"

definition millisecond :: duration where "millisecond = 1000000"
definition second :: duration where "second = 1000000000"
definition minute :: duration where "minute = 60000000000"

lemmas duration_defs = millisecond_def second_def minute_def

lemma wrap64_id: "min_duration \<le> x \<Longrightarrow> x \<le> max_duration \<Longrightarrow> wrap64 x = x"
  by (simp add: wrap64_def)

lemma wrap64_range: "min_duration \<le> wrap64 x \<and> wrap64 x \<le> max_duration"
proof -
  have "0 \<le> (x + 9223372036854775808) mod 18446744073709551616"
    and "(x + 9223372036854775808) mod 18446744073709551616 < 18446744073709551616"
    by simp_all
  then show ?thesis by (simp add: wrap64_def)
qed

lemma time_sub_ge_iff:
  "min_duration < d \<Longrightarrow> d \<le> max_duration \<Longrightarrow> d \<le> time_sub t u \<longleftrightarrow> d \<le> t - u"
  by (auto simp: time_sub_def)

lemma time_sub_le_iff:
  "min_duration \<le> d \<Longrightarrow> d < max_duration \<Longrightarrow> time_sub t u \<le> d \<longleftrightarrow> t - u \<le> d"
  by (auto simp: time_sub_def)

lemma find_mem: "find P xs = Some x \<Longrightarrow> x \<in> set xs \<and> P x"
  by (auto simp: find_Some_iff)

section \<open>Go maps\<close>

text \<open>
  A Go map is an association list with distinct keys. The order of the list is the order in
  which one \<open>range\<close> loop happens to visit the entries; Go leaves it unspecified, and no
  property depends on it unless it says so.
\<close>

type_synonym ('k, 'v) gomap = "('k \<times> 'v) list"

definition gm_wf :: "('k, 'v) gomap \<Rightarrow> bool" where
  "gm_wf m \<longleftrightarrow> distinct (map fst m)"

abbreviation gm_get :: "('k, 'v) gomap \<Rightarrow> 'k \<Rightarrow> 'v option" where
  "gm_get \<equiv> map_of"

definition gm_put :: "'k \<Rightarrow> 'v \<Rightarrow> ('k, 'v) gomap \<Rightarrow> ('k, 'v) gomap" where
  "gm_put k v m = AList.update k v m"

definition gm_del :: "'k \<Rightarrow> ('k, 'v) gomap \<Rightarrow> ('k, 'v) gomap" where
  "gm_del k m = AList.delete k m"

text \<open>\<open>maps.DeleteFunc\<close>.\<close>

definition gm_delete_func :: "('k \<Rightarrow> 'v \<Rightarrow> bool) \<Rightarrow> ('k, 'v) gomap \<Rightarrow> ('k, 'v) gomap" where
  "gm_delete_func d m = filter (\<lambda>(k, v). \<not> d k v) m"

definition gm_map :: "('k \<Rightarrow> 'v \<Rightarrow> 'w) \<Rightarrow> ('k, 'v) gomap \<Rightarrow> ('k, 'w) gomap" where
  "gm_map f m = map (\<lambda>(k, v). (k, f k v)) m"

lemma gm_get_put [simp]: "gm_get (gm_put k v m) = (gm_get m)(k \<mapsto> v)"
  by (simp add: gm_put_def update_conv')

lemma gm_get_del [simp]: "gm_get (gm_del k m) = (gm_get m)(k := None)"
  by (simp add: gm_del_def delete_conv')

lemma gm_wf_empty [simp]: "gm_wf []"
  by (simp add: gm_wf_def)

lemma gm_wf_put [simp]: "gm_wf m \<Longrightarrow> gm_wf (gm_put k v m)"
  by (simp add: gm_wf_def gm_put_def distinct_update)

lemma gm_wf_del [simp]: "gm_wf m \<Longrightarrow> gm_wf (gm_del k m)"
  by (simp add: gm_wf_def gm_del_def distinct_delete)

lemma gm_wf_delete_func [simp]: "gm_wf m \<Longrightarrow> gm_wf (gm_delete_func d m)"
  by (induction m) (auto simp: gm_wf_def gm_delete_func_def image_iff)

lemma gm_keys_map [simp]: "map fst (gm_map f m) = map fst m"
  by (induction m) (auto simp: gm_map_def)

lemma gm_wf_map [simp]: "gm_wf (gm_map f m) = gm_wf m"
  by (simp add: gm_wf_def)

lemma gm_get_map [simp]: "gm_get (gm_map f m) k = map_option (f k) (gm_get m k)"
  by (induction m) (auto simp: gm_map_def)

lemma gm_get_delete_func:
  "gm_wf m \<Longrightarrow> gm_get (gm_delete_func d m) k =
    (case gm_get m k of None \<Rightarrow> None | Some v \<Rightarrow> if d k v then None else Some v)"
proof (induction m)
  case Nil
  then show ?case by (simp add: gm_delete_func_def)
next
  case (Cons x m)
  obtain k' v' where x: "x = (k', v')" by (cases x)
  from Cons.prems have "k' \<notin> fst ` set m" and "gm_wf m"
    by (auto simp: gm_wf_def x)
  then have "gm_get m k' = None" by (simp add: map_of_eq_None_iff)
  with Cons.IH [OF \<open>gm_wf m\<close>] show ?case
    by (auto simp: gm_delete_func_def x split: option.splits)
qed

lemma gm_get_mem: "gm_wf m \<Longrightarrow> gm_get m k = Some v \<longleftrightarrow> (k, v) \<in> set m"
  by (simp add: gm_wf_def)

text \<open>
  Two maps with the same entries look the same to a range loop up to the order of the visit.
\<close>

definition visits :: "('k, 'v) gomap \<Rightarrow> ('k \<times> 'v) list \<Rightarrow> bool" where
  "visits m xs \<longleftrightarrow> distinct xs \<and> set xs = set m"

lemma visits_self: "gm_wf m \<Longrightarrow> visits m m"
  by (auto simp: visits_def gm_wf_def distinct_map)

subsection \<open>The map interface\<close>

text \<open>
  What a component may rely on when it keeps its state in a Go map: reads after writes and
  deletes, and that no operation duplicates a key.
\<close>

locale go_map =
  fixes get :: "'m \<Rightarrow> 'k \<Rightarrow> 'v option"
    and put :: "'k \<Rightarrow> 'v \<Rightarrow> 'm \<Rightarrow> 'm"
    and del :: "'k \<Rightarrow> 'm \<Rightarrow> 'm"
    and wf :: "'m \<Rightarrow> bool"
  assumes get_put: "get (put k v m) = (get m)(k \<mapsto> v)"
    and get_del: "get (del k m) = (get m)(k := None)"
    and wf_put: "wf m \<Longrightarrow> wf (put k v m)"
    and wf_del: "wf m \<Longrightarrow> wf (del k m)"
begin

lemma get_put_same: "get (put k v m) k = Some v"
  by (simp add: get_put)

lemma get_put_other: "k' \<noteq> k \<Longrightarrow> get (put k v m) k' = get m k'"
  by (simp add: get_put)

lemma put_put: "get (put k v (put k u m)) = get (put k v m)"
  by (simp add: get_put)

lemma put_commute: "k \<noteq> k' \<Longrightarrow> get (put k v (put k' v' m)) = get (put k' v' (put k v m))"
  by (simp add: get_put fun_upd_twist)

lemma del_put: "get m k = None \<Longrightarrow> get (del k (put k v m)) = get m"
  by (auto simp: get_put get_del)

lemma dom_put: "dom (get (put k v m)) = insert k (dom (get m))"
  by (simp add: get_put)

lemma dom_del: "dom (get (del k m)) = dom (get m) - {k}"
  by (simp add: get_del)

lemma wf_put_fold: "wf m \<Longrightarrow> wf (fold (\<lambda>(k, v). put k v) kvs m)"
  by (induction kvs arbitrary: m) (auto simp: wf_put)

end

interpretation gm: go_map "gm_get :: ('k, 'v) gomap \<Rightarrow> 'k \<Rightarrow> 'v option" gm_put gm_del gm_wf
  by unfold_locales auto

section \<open>Runs of a state machine\<close>

text \<open>
  The contract every stateful component meets: its operations are steps, and each step keeps
  the component's invariant. What holds for one step then holds for a run of any length.
\<close>

locale machine =
  fixes step :: "'e \<Rightarrow> 's \<Rightarrow> 's"
    and ok :: "'e \<Rightarrow> bool"
    and inv :: "'s \<Rightarrow> bool"
  assumes step_inv: "inv s \<Longrightarrow> ok e \<Longrightarrow> inv (step e s)"
begin

lemma run_inv: "inv s \<Longrightarrow> list_all ok es \<Longrightarrow> inv (fold step es s)"
  by (induction es arbitrary: s) (auto intro: step_inv)

lemma run_prefix_inv: "inv s \<Longrightarrow> list_all ok es \<Longrightarrow> inv (fold step (take n es) s)"
  by (rule run_inv) (auto simp: list_all_iff dest: in_set_takeD)

end

text \<open>A part of the state that the steps of an alphabet \<open>quiet\<close> do not write.\<close>

locale machine_frame = machine +
  fixes quiet :: "'e \<Rightarrow> bool"
    and proj :: "'s \<Rightarrow> 'p"
  assumes step_proj: "inv s \<Longrightarrow> ok e \<Longrightarrow> quiet e \<Longrightarrow> proj (step e s) = proj s"
begin

lemma run_proj:
  "inv s \<Longrightarrow> list_all ok es \<Longrightarrow> list_all quiet es \<Longrightarrow> proj (fold step es s) = proj s"
proof (induction es arbitrary: s)
  case Nil
  then show ?case by simp
next
  case (Cons e es)
  then have "proj (fold step es (step e s)) = proj (step e s)"
    by (intro Cons.IH) (auto intro: step_inv)
  with Cons.prems show ?case by (simp add: step_proj)
qed

end

end
