(* ===== verification/Go_Strings.thy ===== *)
theory Go_Strings
  imports Go_Prelude
begin

text \<open>
  The functions of Go's \<open>strings\<close> package (and the number formats of \<open>fmt\<close>) that the program
  calls. A Go string is a sequence of bytes, so a \<open>char\<close> here is one byte; white space is
  what \<open>unicode.IsSpace\<close> accepts, recognised by its UTF-8 encoding.
\<close>

section \<open>Prefixes, search, cutting\<close>

fun has_prefix :: "string \<Rightarrow> string \<Rightarrow> bool" where
  "has_prefix [] s = True"
| "has_prefix (p # ps) [] = False"
| "has_prefix (p # ps) (c # s) = (p = c \<and> has_prefix ps s)"

lemma has_prefix_iff: "has_prefix p s \<longleftrightarrow> (\<exists>t. s = p @ t)"
  by (induction p s rule: has_prefix.induct) auto

lemma has_prefix_append [simp]: "has_prefix p (p @ s)"
  by (simp add: has_prefix_iff)

lemma has_prefix_drop: "has_prefix p s \<Longrightarrow> s = p @ drop (length p) s"
  by (auto simp: has_prefix_iff)

fun str_contains :: "string \<Rightarrow> string \<Rightarrow> bool" where
  "str_contains [] sub = has_prefix sub []"
| "str_contains (c # s) sub = (has_prefix sub (c # s) \<or> str_contains s sub)"

lemma str_contains_iff: "str_contains s sub \<longleftrightarrow> (\<exists>a b. s = a @ sub @ b)"
proof (induction s)
  case Nil
  then show ?case by (auto simp: has_prefix_iff)
next
  case (Cons c s)
  have "(\<exists>a b. c # s = a @ sub @ b) \<longleftrightarrow>
    (\<exists>b. c # s = sub @ b) \<or> (\<exists>a b. s = a @ sub @ b)"
    by (auto simp: Cons_eq_append_conv)
  with Cons.IH show ?case by (simp add: has_prefix_iff)
qed

text \<open>\<open>strings.CutPrefix\<close> and \<open>strings.Cut\<close>.\<close>

definition cut_prefix :: "string \<Rightarrow> string \<Rightarrow> string \<times> bool" where
  "cut_prefix s p = (if has_prefix p s then (drop (length p) s, True) else (s, False))"

lemma cut_prefix_append [simp]: "cut_prefix (p @ s) p = (s, True)"
  by (simp add: cut_prefix_def)

fun cut_found :: "string \<Rightarrow> string \<Rightarrow> (string \<times> string) option" where
  "cut_found [] sep = (if sep = [] then Some ([], []) else None)"
| "cut_found (c # s) sep =
     (if has_prefix sep (c # s) then Some ([], drop (length sep) (c # s))
      else map_option (\<lambda>(a, b). (c # a, b)) (cut_found s sep))"

definition cut :: "string \<Rightarrow> string \<Rightarrow> string \<times> string \<times> bool" where
  "cut s sep = (case cut_found s sep of Some (a, b) \<Rightarrow> (a, b, True) | None \<Rightarrow> (s, [], False))"

lemma cut_found_Some: "cut_found s sep = Some (a, b) \<Longrightarrow> s = a @ sep @ b"
  by (induction s sep arbitrary: a rule: cut_found.induct)
    (auto split: if_splits simp: has_prefix_iff)

lemma cut_found_None: "cut_found s sep = None \<longleftrightarrow> \<not> str_contains s sep"
  by (induction s sep rule: cut_found.induct) (auto simp: has_prefix_iff)

lemma cut_found_skip:
  "x \<notin> set a \<Longrightarrow>
   cut_found (a @ s) (x # sep) = map_option (\<lambda>(p, q). (a @ p, q)) (cut_found s (x # sep))"
  by (cases "cut_found s (x # sep)"; induction a) auto

text \<open>\<open>strings.LastIndexByte\<close>, with \<open>None\<close> for -1.\<close>

fun last_index_byte :: "string \<Rightarrow> char \<Rightarrow> nat option" where
  "last_index_byte [] c = None"
| "last_index_byte (x # xs) c =
     (case last_index_byte xs c of Some i \<Rightarrow> Some (Suc i)
      | None \<Rightarrow> if x = c then Some 0 else None)"

lemma last_index_byte_None: "last_index_byte s c = None \<longleftrightarrow> c \<notin> set s"
  by (induction s) (auto split: option.splits)

lemma last_index_byte_append:
  "c \<notin> set b \<Longrightarrow> last_index_byte (a @ c # b) c = Some (length a)"
  by (induction a) (auto simp: last_index_byte_None split: option.splits)

section \<open>Splitting and joining\<close>

fun split_on :: "char \<Rightarrow> string \<Rightarrow> string list" where
  "split_on c [] = [[]]"
| "split_on c (x # xs) =
     (if x = c then [] # split_on c xs
      else (case split_on c xs of [] \<Rightarrow> [[x]] | y # ys \<Rightarrow> (x # y) # ys))"

fun join_with :: "string \<Rightarrow> string list \<Rightarrow> string" where
  "join_with sep [] = []"
| "join_with sep [x] = x"
| "join_with sep (x # y # ys) = x @ sep @ join_with sep (y # ys)"

lemma split_on_nonempty [simp]: "split_on c s \<noteq> []"
  by (induction s) (auto split: list.splits)

lemma split_on_no_sep: "c \<notin> set s \<Longrightarrow> split_on c s = [s]"
  by (induction s) auto

lemma split_on_append: "c \<notin> set a \<Longrightarrow> split_on c (a @ c # b) = a # split_on c b"
  by (induction a) auto

lemma join_with_Cons:
  "xs \<noteq> [] \<Longrightarrow> join_with sep (x # xs) = x @ sep @ join_with sep xs"
  by (cases xs) auto

lemma join_split: "join_with [c] (split_on c s) = s"
proof (induction s)
  case Nil
  then show ?case by simp
next
  case (Cons x xs)
  obtain y ys where y: "split_on c xs = y # ys"
    using split_on_nonempty [of c xs] by (cases "split_on c xs") auto
  show ?case
  proof (cases "x = c")
    case True
    with Cons.IH show ?thesis by (simp add: join_with_Cons)
  next
    case False
    with Cons.IH y show ?thesis by (cases ys) auto
  qed
qed

lemma split_join:
  "xs \<noteq> [] \<Longrightarrow> \<forall>x \<in> set xs. c \<notin> set x \<Longrightarrow> split_on c (join_with [c] xs) = xs"
proof (induction xs)
  case Nil
  then show ?case by simp
next
  case (Cons x xs)
  then show ?case
    by (cases xs) (auto simp: split_on_no_sep split_on_append)
qed

lemma split_on_parts: "p \<in> set (split_on c s) \<Longrightarrow> c \<notin> set p"
proof (induction s arbitrary: p)
  case Nil
  then show ?case by simp
next
  case (Cons x xs)
  then show ?case
    by (cases "split_on c xs") (auto split: if_splits)
qed

section \<open>White space\<close>

definition ascii_space :: "char \<Rightarrow> bool" where
  "ascii_space c \<longleftrightarrow>
     c \<in> set [CHR 0x09, CHR 0x0A, CHR 0x0B, CHR 0x0C, CHR 0x0D, CHR '' '']"

text \<open>The UTF-8 encodings of the white space characters beyond ASCII.\<close>

definition unicode_spaces :: "string list" where
  "unicode_spaces =
     [[CHR 0xC2, CHR 0x85], [CHR 0xC2, CHR 0xA0], [CHR 0xE1, CHR 0x9A, CHR 0x80],
      [CHR 0xE2, CHR 0x80, CHR 0x80], [CHR 0xE2, CHR 0x80, CHR 0x81],
      [CHR 0xE2, CHR 0x80, CHR 0x82], [CHR 0xE2, CHR 0x80, CHR 0x83],
      [CHR 0xE2, CHR 0x80, CHR 0x84], [CHR 0xE2, CHR 0x80, CHR 0x85],
      [CHR 0xE2, CHR 0x80, CHR 0x86], [CHR 0xE2, CHR 0x80, CHR 0x87],
      [CHR 0xE2, CHR 0x80, CHR 0x88], [CHR 0xE2, CHR 0x80, CHR 0x89],
      [CHR 0xE2, CHR 0x80, CHR 0x8A], [CHR 0xE2, CHR 0x80, CHR 0xA8],
      [CHR 0xE2, CHR 0x80, CHR 0xA9], [CHR 0xE2, CHR 0x80, CHR 0xAF],
      [CHR 0xE2, CHR 0x81, CHR 0x9F], [CHR 0xE3, CHR 0x80, CHR 0x80]]"

text \<open>
  The number of bytes of the white space character a string starts with, 0 if it starts with
  something else. No white space encoding starts with a UTF-8 continuation byte, so a scan
  that moves one byte at a time finds the same characters as one that decodes runes.
\<close>

definition space_width_of :: "(string \<Rightarrow> string) \<Rightarrow> string \<Rightarrow> nat" where
  "space_width_of enc s =
     (case s of [] \<Rightarrow> 0
      | c # _ \<Rightarrow>
        if ascii_space c then 1
        else if (of_char c :: nat) < 128 then 0
        else (case find (\<lambda>w. has_prefix (enc w) s) unicode_spaces of
                None \<Rightarrow> 0 | Some w \<Rightarrow> length w))"

abbreviation space_width :: "string \<Rightarrow> nat" where
  "space_width \<equiv> space_width_of (\<lambda>w. w)"

lemma space_width_Nil [simp]: "space_width_of enc [] = 0"
  by (simp add: space_width_of_def)

text \<open>\<open>strings.Fields\<close>: the runs of bytes between white space.\<close>

function fields_from :: "string \<Rightarrow> string \<Rightarrow> string list" where
  "fields_from cur [] = (if cur = [] then [] else [rev cur])"
| "fields_from cur (c # s) =
     (if space_width (c # s) = 0 then fields_from (c # cur) s
      else (if cur = [] then [] else [rev cur])
             @ fields_from [] (drop (space_width (c # s)) (c # s)))"
  by pat_completeness auto
termination
  by (relation "measure (\<lambda>(cur, s). length s)") auto

definition str_fields :: "string \<Rightarrow> string list" where
  "str_fields s = fields_from [] s"

text \<open>
  \<open>strings.TrimSpace\<close>. The right end is trimmed on the reversed string, where a white space
  character shows up as its reversed encoding.
\<close>

function trim_with :: "(string \<Rightarrow> string) \<Rightarrow> string \<Rightarrow> string" where
  "trim_with enc s =
     (if space_width_of enc s = 0 then s else trim_with enc (drop (space_width_of enc s) s))"
  by pat_completeness auto
termination
proof (relation "measure (\<lambda>(enc, s). length s)", goal_cases)
  case 1
  show ?case by simp
next
  case (2 enc s)
  then show ?case by (cases s) auto
qed

declare trim_with.simps [simp del]

definition trim_space :: "string \<Rightarrow> string" where
  "trim_space s = rev (trim_with rev (rev (trim_with (\<lambda>w. w) s)))"

subsection \<open>Plain words\<close>

text \<open>
  Printable ASCII without the space: what interface names, addresses, MACs and the keywords
  of the parsed command outputs are made of.
\<close>

definition plain_char :: "char \<Rightarrow> bool" where
  "plain_char c \<longleftrightarrow> 33 \<le> (of_char c :: nat) \<and> (of_char c :: nat) < 127"

definition plain_word :: "string \<Rightarrow> bool" where
  "plain_word w \<longleftrightarrow> w \<noteq> [] \<and> list_all plain_char w"

lemma plain_char_not_space: "plain_char c \<Longrightarrow> \<not> ascii_space c"
  by (auto simp: plain_char_def ascii_space_def)

lemma space_width_plain [simp]: "plain_char c \<Longrightarrow> space_width_of enc (c # s) = 0"
  by (simp add: space_width_of_def plain_char_not_space) (simp add: plain_char_def)

lemma space_width_ascii [simp]: "ascii_space c \<Longrightarrow> space_width_of enc (c # s) = 1"
  by (simp add: space_width_of_def)

lemma fields_from_plain:
  "list_all plain_char w \<Longrightarrow> fields_from cur (w @ s) = fields_from (rev w @ cur) s"
  by (induction w arbitrary: cur) auto

lemma fields_word: "plain_word w \<Longrightarrow> str_fields w = [w]"
  using fields_from_plain [of w "[]" "[]"] by (simp add: str_fields_def plain_word_def)

lemma fields_word_space:
  "plain_word w \<Longrightarrow> ascii_space c \<Longrightarrow> str_fields (w @ c # s) = w # str_fields s"
  using fields_from_plain [of w "[]" "c # s"] by (simp add: str_fields_def plain_word_def)

lemma fields_space: "ascii_space c \<Longrightarrow> str_fields (c # s) = str_fields s"
  by (simp add: str_fields_def)

lemma ascii_space_blank [simp]: "ascii_space CHR '' ''" "ascii_space CHR 0x0A"
  by (simp_all add: ascii_space_def)

lemma fields_join:
  "list_all plain_word ws \<Longrightarrow> str_fields (join_with '' '' ws) = ws"
proof (induction ws)
  case Nil
  then show ?case by (simp add: str_fields_def)
next
  case (Cons w ws)
  then show ?case
    by (cases ws) (auto simp: fields_word fields_word_space)
qed

lemma fields_join_space:
  "list_all plain_word ws \<Longrightarrow> ws \<noteq> [] \<Longrightarrow> ascii_space c \<Longrightarrow>
   str_fields (join_with '' '' ws @ c # t) = ws @ str_fields t"
proof (induction ws)
  case Nil
  then show ?case by simp
next
  case (Cons w ws)
  then show ?case
    by (cases ws) (auto simp: fields_word_space)
qed

lemma fields_from_nonempty: "w \<in> set (fields_from cur s) \<Longrightarrow> w \<noteq> []"
  by (induction cur s rule: fields_from.induct) (auto split: if_splits)

lemma fields_nonempty: "w \<in> set (str_fields s) \<Longrightarrow> w \<noteq> []"
  by (simp add: str_fields_def fields_from_nonempty)

lemma trim_with_plain: "plain_char c \<Longrightarrow> trim_with enc (c # s) = c # s"
  by (subst trim_with.simps) simp

lemma trim_with_Nil [simp]: "trim_with enc [] = []"
  by (subst trim_with.simps) simp

lemma trim_with_ascii: "ascii_space c \<Longrightarrow> trim_with enc (c # s) = trim_with enc s"
  by (subst trim_with.simps) simp

text \<open>A string that starts and ends with a plain byte is left alone.\<close>

lemma trim_space_plain:
  "plain_char (hd s) \<Longrightarrow> plain_char (last s) \<Longrightarrow> trim_space s = s"
proof (cases s)
  case Nil
  then show ?thesis by (simp add: trim_space_def)
next
  case (Cons c t)
  assume "plain_char (hd s)" and "plain_char (last s)"
  moreover have "rev s = last s # rev (butlast s)"
    using Cons by (simp flip: rev_append add: append_butlast_last_id)
  ultimately show ?thesis
    using Cons by (metis trim_space_def trim_with_plain list.sel(1) rev_rev_ident)
qed

lemma trim_space_padded:
  "list_all ascii_space pad \<Longrightarrow> trim_space (pad @ s) = trim_space s"
  by (induction pad) (auto simp: trim_space_def trim_with_ascii)

section \<open>Numbers\<close>

text \<open>Decimal without leading zeros, as \<open>%d\<close> prints it, and two lower-case hex digits.\<close>

fun decimal :: "nat \<Rightarrow> string" where
  "decimal n = (if n < 10 then [char_of (n + 48)]
                else decimal (n div 10) @ [char_of (n mod 10 + 48)])"

declare decimal.simps [simp del]

definition hex_digit :: "nat \<Rightarrow> char" where
  "hex_digit n = char_of (if n < 10 then n + 48 else n + 87)"

definition decimal_int :: "int \<Rightarrow> string" where
  "decimal_int i = (if i < 0 then ''-'' @ decimal (nat (- i)) else decimal (nat i))"

text \<open>The value of a hex digit (either case) and of a decimal digit.\<close>

definition hex_value :: "char \<Rightarrow> nat option" where
  "hex_value c =
     (let n = of_char c :: nat in
      if 48 \<le> n \<and> n \<le> 57 then Some (n - 48)
      else if 97 \<le> n \<and> n \<le> 102 then Some (n - 87)
      else if 65 \<le> n \<and> n \<le> 70 then Some (n - 55)
      else None)"

definition dec_value :: "char \<Rightarrow> nat option" where
  "dec_value c =
     (let n = of_char c :: nat in if 48 \<le> n \<and> n \<le> 57 then Some (n - 48) else None)"

lemma hex_value_bound: "hex_value c = Some n \<Longrightarrow> n < 16"
  by (auto simp: hex_value_def Let_def split: if_splits)

lemma hex_value_digit [simp]: "n < 16 \<Longrightarrow> hex_value (hex_digit n) = Some n"
  by (auto simp: hex_value_def hex_digit_def Let_def)

lemma dec_value_char [simp]: "n < 10 \<Longrightarrow> dec_value (char_of (n + 48)) = Some n"
  by (simp add: dec_value_def Let_def)

end
