(* ===== verification/Go_Net.thy ===== *)
theory Go_Net
  imports Go_Strings "HOL-Library.Word"
begin

text \<open>
  The parts of Go's \<open>net\<close> and \<open>net/netip\<close> packages the program uses: addresses, their textual
  form and its parser, prefixes, hardware addresses. The round trips (print, then parse) are
  what the client registry relies on: it keys clients by the printed address.
\<close>

unbundle bit_operations_syntax

section \<open>Addresses\<close>

text \<open>
  \<open>netip.Addr\<close>: the zero value, an IPv4 address, an IPv6 address with its zone (empty when
  there is none).
\<close>

datatype addr = NoAddr | V4 "32 word" | V6 "128 word" string

definition v4_octets :: "32 word \<Rightarrow> nat list" where
  "v4_octets w = (let n = unat w in
     [n div 16777216, n div 65536 mod 256, n div 256 mod 256, n mod 256])"

definition v4_of_octets :: "nat list \<Rightarrow> 32 word" where
  "v4_of_octets os = of_nat (foldl (\<lambda>v d. v * 256 + d) 0 os)"

lemma v4_octets_bound: "d \<in> set (v4_octets w) \<Longrightarrow> d < 256"
proof -
  assume d: "d \<in> set (v4_octets w)"
  have "unat w < 2 ^ 32" using unsigned_less [of w] by simp
  then have "unat w div 16777216 < 256" by (simp add: less_mult_imp_div_less)
  with d show ?thesis by (auto simp: v4_octets_def Let_def)
qed

lemma v4_of_octets_octets [simp]: "v4_of_octets (v4_octets w) = w"
proof -
  have q: "n div (256 * k) * 256 + n div k mod 256 = n div k" for n k :: nat
    by (metis div_mult2_eq div_mult_mod_eq mult.commute)
  have "((unat w div 16777216 * 256 + unat w div 65536 mod 256) * 256
      + unat w div 256 mod 256) * 256 + unat w mod 256 = unat w"
    using q [of "unat w" 65536] q [of "unat w" 256] q [of "unat w" 1] by simp
  then show ?thesis
    by (simp add: v4_of_octets_def v4_octets_def Let_def)
qed

text \<open>Bytes that are the IPv4 form of an IPv6 address (\<open>::ffff:a.b.c.d\<close>).\<close>

definition is_4in6 :: "128 word \<Rightarrow> bool" where
  "is_4in6 w \<longleftrightarrow> drop_bit 32 w = 0xFFFF"

definition unmap :: "addr \<Rightarrow> addr" where
  "unmap a = (case a of V6 w z \<Rightarrow> if is_4in6 w then V4 (ucast w) else a | _ \<Rightarrow> a)"

definition is4 :: "addr \<Rightarrow> bool" where
  "is4 a = (case a of V4 _ \<Rightarrow> True | _ \<Rightarrow> False)"

lemma is4_iff: "is4 a \<longleftrightarrow> (\<exists>w. a = V4 w)"
  by (cases a) (auto simp: is4_def)

lemma is4_V4 [simp]: "is4 (V4 w)"
  by (simp add: is4_def)

subsection \<open>Printing\<close>

fun hex_nat :: "nat \<Rightarrow> string" where
  "hex_nat n = (if n < 16 then [hex_digit n] else hex_nat (n div 16) @ [hex_digit (n mod 16)])"

declare hex_nat.simps [simp del]

definition v6_groups :: "128 word \<Rightarrow> nat list" where
  "v6_groups w = map (\<lambda>i. unat (drop_bit (112 - 16 * i) w) mod 65536) [0..<8]"

definition v6_of_groups :: "nat list \<Rightarrow> 128 word" where
  "v6_of_groups gs = of_nat (foldl (\<lambda>v d. v * 65536 + d) 0 gs)"

text \<open>The leftmost longest run of at least two zero groups, as start and end.\<close>

definition best_zero_run :: "nat list \<Rightarrow> (nat \<times> nat) option" where
  "best_zero_run gs =
     foldl (\<lambda>best i.
        let l = length (takeWhile (\<lambda>g. g = 0) (drop i gs));
            cur = (case best of None \<Rightarrow> 0 | Some (s, e) \<Rightarrow> e - s)
        in if 2 \<le> l \<and> cur < l then Some (i, i + l) else best) None [0..<length gs]"

definition v6_string :: "128 word \<Rightarrow> string" where
  "v6_string w =
     (let gs = v6_groups w in
      case best_zero_run gs of
        None \<Rightarrow> join_with '':'' (map hex_nat gs)
      | Some (s, e) \<Rightarrow>
          join_with '':'' (map hex_nat (take s gs)) @ ''::''
            @ join_with '':'' (map hex_nat (drop e gs)))"

definition v4_string :: "32 word \<Rightarrow> string" where
  "v4_string w = join_with ''.'' (map decimal (v4_octets w))"

definition addr_string :: "addr \<Rightarrow> string" where
  "addr_string a =
     (case a of
        NoAddr \<Rightarrow> ''invalid IP''
      | V4 w \<Rightarrow> v4_string w
      | V6 w z \<Rightarrow>
          (if is_4in6 w then ''::ffff:'' @ v4_string (ucast w) else v6_string w)
            @ (if z = [] then [] else ''%'' @ z))"

subsection \<open>Parsing\<close>

text \<open>One IPv4 octet: decimal digits, no leading zero, at most 255.\<close>

definition parse_octet :: "string \<Rightarrow> nat option" where
  "parse_octet s =
     (let ds = map dec_value s in
      if s = [] \<or> None \<in> set ds then None
      else if 1 < length s \<and> hd s = CHR ''0'' then None
      else let v = foldl (\<lambda>v d. v * 10 + the d) 0 ds
           in if 255 < v then None else Some v)"

definition parse_v4_fields :: "string \<Rightarrow> nat list option" where
  "parse_v4_fields s =
     (let os = map parse_octet (split_on CHR ''.'' s) in
      if length os = 4 \<and> None \<notin> set os then Some (map the os) else None)"

definition parse_v4 :: "string \<Rightarrow> addr option" where
  "parse_v4 s = map_option (\<lambda>os. V4 (v4_of_octets os)) (parse_v4_fields s)"

text \<open>
  One hexadecimal field of an IPv6 address, one to four digits, and what follows it.
\<close>

definition hex_field :: "string \<Rightarrow> (nat \<times> string) option" where
  "hex_field s =
     (let ds = takeWhile (\<lambda>c. hex_value c \<noteq> None) s in
      if ds = [] \<or> 4 < length ds then None
      else Some (foldl (\<lambda>v c. v * 16 + the (hex_value c)) 0 ds, drop (length ds) s))"

lemma hex_field_shorter: "hex_field s = Some (v, r) \<Longrightarrow> length r < length s"
proof -
  assume h: "hex_field s = Some (v, r)"
  then have "takeWhile (\<lambda>c. hex_value c \<noteq> None) s \<noteq> []"
    and "r = drop (length (takeWhile (\<lambda>c. hex_value c \<noteq> None) s)) s"
    by (auto simp: hex_field_def Let_def split: if_splits)
  then show ?thesis by (cases s) auto
qed

text \<open>
  The field loop of the IPv6 parser: the groups read so far, the position of the ellipsis, the
  rest of the text. The result is what the loop ends with, \<open>None\<close> on a syntax error.
\<close>

function parse6_loop ::
  "nat list \<Rightarrow> nat option \<Rightarrow> string \<Rightarrow> (nat list \<times> nat option \<times> string) option" where
  "parse6_loop acc ell s =
     (if 8 \<le> length acc then Some (acc, ell, s)
      else case hex_field s of
        None \<Rightarrow> None
      | Some (v, r) \<Rightarrow>
         (case r of
            [] \<Rightarrow> Some (acc @ [v], ell, [])
          | c # r1 \<Rightarrow>
             if c = CHR ''.'' then
               (if ell = None \<and> length acc \<noteq> 6 then None
                else if 6 < length acc then None
                else (case parse_v4_fields s of
                        Some [a, b, e, d] \<Rightarrow> Some (acc @ [a * 256 + b, e * 256 + d], ell, [])
                      | _ \<Rightarrow> None))
             else if c \<noteq> CHR '':'' then None
             else (case r1 of
                [] \<Rightarrow> None
              | c1 # r2 \<Rightarrow>
                 if c1 = CHR '':'' then
                   (if ell \<noteq> None then None
                    else if r2 = [] then Some (acc @ [v], Some (Suc (length acc)), [])
                    else parse6_loop (acc @ [v]) (Some (Suc (length acc))) r2)
                 else parse6_loop (acc @ [v]) ell r1)))"
  by pat_completeness auto
termination
  by (relation "measure (\<lambda>(acc, ell, s). length s)") (auto dest: hex_field_shorter)

declare parse6_loop.simps [simp del]

definition parse_v6 :: "string \<Rightarrow> addr option" where
  "parse_v6 input =
     (let (s, zone, has_zone) = cut input ''%'' in
      if has_zone \<and> zone = [] then None
      else
        let (s1, ell) = (if has_prefix ''::'' s then (drop 2 s, Some 0) else (s, None)) in
        if ell \<noteq> None \<and> s1 = [] then Some (V6 0 zone)
        else case parse6_loop [] ell s1 of
          None \<Rightarrow> None
        | Some (gs, ell', r) \<Rightarrow>
            if r \<noteq> [] then None
            else if length gs < 8 then
              (case ell' of
                 None \<Rightarrow> None
               | Some e \<Rightarrow>
                   Some (V6 (v6_of_groups
                     (take e gs @ replicate (8 - length gs) 0 @ drop e gs)) zone))
            else if ell' \<noteq> None then None
            else Some (V6 (v6_of_groups gs) zone))"

text \<open>\<open>netip.ParseAddr\<close>: the first of a dot, a colon or a percent sign decides the family.\<close>

definition ParseAddr :: "string \<Rightarrow> addr option" where
  "ParseAddr s =
     (case find (\<lambda>c. c \<in> set ''.:%'') s of
        None \<Rightarrow> None
      | Some c \<Rightarrow>
          if c = CHR ''.'' then parse_v4 s
          else if c = CHR '':'' then parse_v6 s
          else None)"

text \<open>\<open>net.ParseIP\<close> gives the 16-byte form and refuses a zone; \<open>IP.To4\<close> takes it back.\<close>

definition ParseIP :: "string \<Rightarrow> 128 word option" where
  "ParseIP s =
     (case ParseAddr s of
        Some (V4 w) \<Rightarrow> Some (push_bit 32 0xFFFF OR ucast w)
      | Some (V6 w z) \<Rightarrow> if z = [] then Some w else None
      | _ \<Rightarrow> None)"

definition ip16_to4 :: "128 word \<Rightarrow> 32 word option" where
  "ip16_to4 w = (if is_4in6 w then Some (ucast w) else None)"

subsection \<open>IPv4 print and parse\<close>

lemma decimal_digits: "c \<in> set (decimal n) \<Longrightarrow> \<exists>d. dec_value c = Some d"
proof (induction n rule: decimal.induct)
  case (1 n)
  then show ?case
    by (subst (asm) (2) decimal.simps) (auto split: if_splits)
qed

lemma decimal_value: "foldl (\<lambda>v c. v * 10 + the (dec_value c)) 0 (decimal n) = n"
proof (induction n rule: decimal.induct)
  case (1 n)
  then show ?case
    by (subst decimal.simps) auto
qed

lemma decimal_hd: "0 < n \<Longrightarrow> hd (decimal n) \<noteq> CHR ''0''"
proof (induction n rule: decimal.induct)
  case (1 n)
  have ne: "decimal (n div 10) \<noteq> []" by (subst decimal.simps) simp
  have z: "char_of (n + 48) \<noteq> CHR ''0''" if "0 < n" "n < 10"
  proof
    assume "char_of (n + 48) = CHR ''0''"
    then have "(of_char (char_of (n + 48) :: char) :: nat) = of_char CHR ''0''" by (rule arg_cong)
    with that show False by simp
  qed
  from 1 ne z show ?case
    by (subst decimal.simps) (auto simp: div_greater_zero_iff hd_append)
qed

lemma decimal_nonempty [simp]: "decimal n \<noteq> []"
  by (subst decimal.simps) simp

lemma decimal_single: "1 < length (decimal n) \<Longrightarrow> 0 < n"
  by (cases n) (auto simp: decimal.simps [of 0])

lemma foldl_map_dec:
  "foldl (\<lambda>v d. v * 10 + the d) 0 (map dec_value s) =
   foldl (\<lambda>v c. v * 10 + the (dec_value c)) 0 s"
  by (simp add: foldl_map)

lemma parse_octet_decimal [simp]: "n < 256 \<Longrightarrow> parse_octet (decimal n) = Some n"
proof -
  assume "n < 256"
  moreover have "None \<notin> set (map dec_value (decimal n))"
    by (auto dest: decimal_digits)
  moreover have "\<not> (1 < length (decimal n) \<and> hd (decimal n) = CHR ''0'')"
    using decimal_hd decimal_single by blast
  ultimately show ?thesis
    by (simp add: parse_octet_def Let_def foldl_map_dec decimal_value)
qed

lemma decimal_no_dot: "CHR ''.'' \<notin> set (decimal n)"
  using decimal_digits [of "CHR ''.''" n] by (auto simp: dec_value_def)

lemma parse_v4_fields_string: "parse_v4_fields (v4_string w) = Some (v4_octets w)"
proof -
  have "split_on CHR ''.'' (v4_string w) = map decimal (v4_octets w)"
    unfolding v4_string_def
    by (rule split_join) (auto simp: decimal_no_dot v4_octets_def Let_def)
  moreover have "map parse_octet (map decimal (v4_octets w)) = map Some (v4_octets w)"
    by (simp add: v4_octets_bound)
  moreover have "length (v4_octets w) = 4" by (simp add: v4_octets_def Let_def)
  ultimately show ?thesis
    by (simp add: parse_v4_fields_def Let_def image_iff del: map_map)
      (simp add: comp_def)
qed

text \<open>An IPv4 address reads back from its printed form.\<close>

lemma v4_string_first: "find (\<lambda>c. c \<in> set ''.:%'') (v4_string w) = Some CHR ''.''"
proof -
  have "find (\<lambda>c. c \<in> set ''.:%'') (a @ CHR ''.'' # b) = Some CHR ''.''"
    if "\<forall>c \<in> set a. \<exists>d. dec_value c = Some d" for a b
    using that by (induction a) (auto simp: dec_value_def Let_def)
  moreover have "\<forall>c \<in> set (decimal n). \<exists>d. dec_value c = Some d" for n
    by (auto dest: decimal_digits)
  ultimately show ?thesis
    by (simp add: v4_string_def v4_octets_def Let_def)
qed

lemma parse_v4_string [simp]: "ParseAddr (v4_string w) = Some (V4 w)"
  unfolding ParseAddr_def v4_string_first
  by (simp add: parse_v4_def parse_v4_fields_string)

lemma v4_string_inj: "v4_string v = v4_string w \<longleftrightarrow> v = w"
  by (metis addr.inject(1) option.inject parse_v4_string)

section \<open>Prefixes\<close>

text \<open>
  \<open>netip.Prefix\<close>: an address and the number of its leading bits, \<open>None\<close> for a prefix that is
  not valid (the zero prefix, or a length out of range).
\<close>

datatype netip_prefix = Prefix (prefix_addr: addr) (prefix_bits: "nat option")

definition zero_prefix :: netip_prefix where "zero_prefix = Prefix NoAddr None"

definition without_zone :: "addr \<Rightarrow> addr" where
  "without_zone a = (case a of V6 w _ \<Rightarrow> V6 w [] | _ \<Rightarrow> a)"

definition bit_len :: "addr \<Rightarrow> nat" where
  "bit_len a = (case a of NoAddr \<Rightarrow> 0 | V4 _ \<Rightarrow> 32 | V6 _ _ \<Rightarrow> 128)"

definition PrefixFrom :: "addr \<Rightarrow> nat \<Rightarrow> netip_prefix" where
  "PrefixFrom a bits =
     Prefix (without_zone a) (if a \<noteq> NoAddr \<and> bits \<le> bit_len a then Some bits else None)"

text \<open>\<open>Prefix.Masked\<close> clears the host bits; of a prefix that is not valid it is the zero prefix.\<close>

definition Masked :: "netip_prefix \<Rightarrow> netip_prefix" where
  "Masked p =
     (case (prefix_addr p, prefix_bits p) of
        (V4 w, Some b) \<Rightarrow> Prefix (V4 (push_bit (32 - b) (drop_bit (32 - b) w))) (Some b)
      | (V6 w z, Some b) \<Rightarrow> Prefix (V6 (push_bit (128 - b) (drop_bit (128 - b) w)) []) (Some b)
      | _ \<Rightarrow> zero_prefix)"

text \<open>
  \<open>Prefix.Contains\<close>: never across families (an IPv4-mapped IPv6 address is not in an IPv4
  prefix), never an address with a zone.
\<close>

definition Contains :: "netip_prefix \<Rightarrow> addr \<Rightarrow> bool" where
  "Contains p a =
     (case (prefix_addr p, prefix_bits p, a) of
        (V4 w, Some b, V4 x) \<Rightarrow> drop_bit (32 - b) (x XOR w) = 0
      | (V6 w z, Some b, V6 x zx) \<Rightarrow> zx = [] \<and> drop_bit (128 - b) (x XOR w) = 0
      | _ \<Rightarrow> False)"

definition is_private :: "addr \<Rightarrow> bool" where
  "is_private a =
     (case unmap a of
        V4 w \<Rightarrow> drop_bit 24 w = 10 \<or> drop_bit 20 w = 0xAC1 \<or> drop_bit 16 w = 0xC0A8
      | V6 w z \<Rightarrow> drop_bit 121 w = 0x7E
      | NoAddr \<Rightarrow> False)"

definition is_loopback :: "addr \<Rightarrow> bool" where
  "is_loopback a =
     (case unmap a of V4 w \<Rightarrow> drop_bit 24 w = 127 | V6 w z \<Rightarrow> w = 1 | NoAddr \<Rightarrow> False)"

definition is_link_local_unicast :: "addr \<Rightarrow> bool" where
  "is_link_local_unicast a =
     (case unmap a of
        V4 w \<Rightarrow> drop_bit 16 w = 0xA9FE | V6 w z \<Rightarrow> drop_bit 118 w = 0x3FA | NoAddr \<Rightarrow> False)"

lemma word_xor_eq_0: "x XOR y = 0 \<longleftrightarrow> x = (y :: 'a :: len word)"
  by (auto simp: bit_eq_iff bit_simps)

lemma Contains_V4:
  "Contains (Prefix (V4 w) (Some b)) a \<longleftrightarrow>
     (\<exists>x. a = V4 x \<and> drop_bit (32 - b) x = drop_bit (32 - b) w)"
  by (cases a) (auto simp: Contains_def word_xor_eq_0)

lemma Contains_zero [simp]: "\<not> Contains zero_prefix a"
  by (simp add: Contains_def zero_prefix_def)

lemma Contains_V4_is4: "prefix_addr p = V4 w \<Longrightarrow> Contains p a \<Longrightarrow> is4 a"
  by (cases p; cases a) (auto simp: Contains_def split: option.splits)

lemma Masked_V4:
  "Masked (Prefix (V4 w) (Some b)) =
     Prefix (V4 (push_bit (32 - b) (drop_bit (32 - b) w))) (Some b)"
  by (simp add: Masked_def)

lemma drop_push_drop:
  "drop_bit k (push_bit k (drop_bit k (w :: 'a :: len word))) = drop_bit k w"
  by (rule bit_eqI) (auto simp: bit_simps dest: bit_imp_le_length)

lemma Contains_Masked: "Contains (Masked (Prefix (V4 w) (Some b))) a \<longleftrightarrow>
    Contains (Prefix (V4 w) (Some b)) a"
  by (simp add: Masked_V4 Contains_V4 drop_push_drop)

lemma Masked_idem: "Masked (Masked p) = Masked p"
  by (cases p; cases "prefix_addr p"; cases "prefix_bits p")
    (auto simp: Masked_def zero_prefix_def drop_push_drop)

section \<open>Interface addresses\<close>

text \<open>\<open>net.IPNet\<close>: the bytes of an address and of its mask.\<close>

record ipnet =
  ip_bytes :: "8 word list"
  mask_bytes :: "8 word list"

definition bytes_to_v4 :: "8 word list \<Rightarrow> 32 word" where
  "bytes_to_v4 bs = v4_of_octets (map unat bs)"

definition To4 :: "8 word list \<Rightarrow> 8 word list option" where
  "To4 bs =
     (if length bs = 4 then Some bs
      else if length bs = 16 \<and> take 12 bs = replicate 10 0 @ [0xFF, 0xFF]
      then Some (drop 12 bs) else None)"

text \<open>\<open>IPMask.Size\<close>: the length of a mask of leading ones; a mask with a gap has size (0, 0).\<close>

definition mask_bits :: "8 word list \<Rightarrow> bool list" where
  "mask_bits bs = concat (map (\<lambda>b. map (\<lambda>i. bit b (7 - i)) [0..<8]) bs)"

definition mask_size :: "8 word list \<Rightarrow> nat \<times> nat" where
  "mask_size bs =
     (let ones = length (takeWhile id (mask_bits bs)) in
      if True \<in> set (drop ones (mask_bits bs)) then (0, 0) else (ones, 8 * length bs))"

lemma To4_length: "To4 bs = Some cs \<Longrightarrow> length cs = 4"
  by (auto simp: To4_def split: if_splits)

section \<open>Hardware addresses\<close>

definition byte_string :: "8 word \<Rightarrow> string" where
  "byte_string b = [hex_digit (unat b div 16), hex_digit (unat b mod 16)]"

text \<open>\<open>HardwareAddr.String\<close>.\<close>

definition hw_string :: "8 word list \<Rightarrow> string" where
  "hw_string hw = join_with '':'' (map byte_string hw)"

text \<open>
  \<open>xtoi2\<close>: two hex digits, and when the string goes on, the separator \<open>e\<close>.
\<close>

fun xtoi2 :: "string \<Rightarrow> char \<Rightarrow> 8 word option" where
  "xtoi2 (a # b # rest) e =
     (case rest of
        c # _ \<Rightarrow> if c \<noteq> e then None else xtoi2 [a, b] e
      | [] \<Rightarrow> (case (hex_value a, hex_value b) of
               (Some h, Some l) \<Rightarrow> Some (of_nat (h * 16 + l))
             | _ \<Rightarrow> None))"
| "xtoi2 s e = None"

fun mac_pairs :: "nat \<Rightarrow> char \<Rightarrow> string \<Rightarrow> 8 word list option" where
  "mac_pairs 0 e s = Some []"
| "mac_pairs (Suc n) e s =
     (case xtoi2 s e of
        None \<Rightarrow> None
      | Some b \<Rightarrow> map_option ((#) b) (mac_pairs n e (drop 3 s)))"

fun mac_quads :: "nat \<Rightarrow> string \<Rightarrow> 8 word list option" where
  "mac_quads 0 s = Some []"
| "mac_quads (Suc n) s =
     (case (xtoi2 (take 2 s) CHR 0x00, xtoi2 (drop 2 s) CHR ''.'') of
        (Some a, Some b) \<Rightarrow> map_option (\<lambda>bs. a # b # bs) (mac_quads n (drop 5 s))
      | _ \<Rightarrow> None)"

text \<open>\<open>net.ParseMAC\<close>: 6, 8 or 20 bytes, as pairs after a colon or a dash, or dotted quads.\<close>

definition mac_lengths :: "nat list" where "mac_lengths = [6, 8, 20]"

definition ParseMAC :: "string \<Rightarrow> 8 word list option" where
  "ParseMAC s =
     (if length s < 14 then None
      else if s ! 2 = CHR '':'' \<or> s ! 2 = CHR ''-'' then
        (let n = (length s + 1) div 3 in
         if (length s + 1) mod 3 \<noteq> 0 \<or> n \<notin> set mac_lengths then None
         else mac_pairs n (s ! 2) s)
      else if s ! 4 = CHR ''.'' then
        (let n = 2 * (length s + 1) div 5 in
         if (length s + 1) mod 5 \<noteq> 0 \<or> n \<notin> set mac_lengths then None
         else mac_quads (n div 2) s)
      else None)"

subsection \<open>Hardware address print and parse\<close>

lemma unat_byte_bound: "unat (b :: 8 word) < 256"
  using unsigned_less [of b] by simp

lemma byte_string_value:
  "hex_value (hex_digit (unat (b :: 8 word) div 16)) = Some (unat b div 16)"
  "hex_value (hex_digit (unat b mod 16)) = Some (unat b mod 16)"
  using unat_byte_bound [of b] by (simp_all add: less_mult_imp_div_less)

lemma xtoi2_byte_string [simp]:
  "xtoi2 (byte_string b) e = Some b"
  "xtoi2 (byte_string b @ e # s) e = Some b"
  by (simp_all add: byte_string_def byte_string_value div_mult_mod_eq)

lemma length_byte_string [simp]: "length (byte_string b) = 2"
  by (simp add: byte_string_def)

lemma hw_string_Cons:
  "hw_string (b # bs) = byte_string b @ (if bs = [] then [] else CHR '':'' # hw_string bs)"
  by (cases bs) (simp_all add: hw_string_def)

lemma mac_pairs_hw_string: "mac_pairs (length hw) CHR '':'' (hw_string hw) = Some hw"
  by (induction hw) (simp_all add: hw_string_Cons)

lemma length_hw_string: "hw \<noteq> [] \<Longrightarrow> length (hw_string hw) + 1 = 3 * length hw"
  by (induction hw) (auto simp: hw_string_Cons)

lemma hw_string_sep: "1 < length hw \<Longrightarrow> hw_string hw ! 2 = CHR '':''"
  by (cases hw) (auto simp: hw_string_Cons byte_string_def)

lemma ParseMAC_length: "ParseMAC s = Some hw \<Longrightarrow> length hw \<in> set mac_lengths"
proof -
  have p: "mac_pairs n e t = Some hs \<Longrightarrow> length hs = n" for n e t hs
    by (induction n arbitrary: t hs) (auto split: option.splits)
  have q: "mac_quads n t = Some hs \<Longrightarrow> length hs = 2 * n" for n t hs
    by (induction n arbitrary: t hs) (auto split: option.splits)
  assume "ParseMAC s = Some hw"
  then show ?thesis
    by (auto simp: ParseMAC_def Let_def mac_lengths_def split: if_splits dest!: p q)
qed

lemma ParseMAC_hw_string:
  "length hw \<in> set mac_lengths \<Longrightarrow> ParseMAC (hw_string hw) = Some hw"
proof -
  assume h: "length hw \<in> set mac_lengths"
  then have ne: "hw \<noteq> []" and long: "6 \<le> length hw" by (auto simp: mac_lengths_def)
  from length_hw_string [OF ne] have len: "length (hw_string hw) + 1 = 3 * length hw" .
  with long have "\<not> length (hw_string hw) < 14" by linarith
  moreover from long have "hw_string hw ! 2 = CHR '':''" by (intro hw_string_sep) simp
  ultimately show ?thesis
    using h len by (simp add: ParseMAC_def mac_pairs_hw_string)
qed

text \<open>The bytes of a printed hardware address: lower-case hex digits and colons.\<close>

lemma hex_digit_plain: "n < 16 \<Longrightarrow> plain_char (hex_digit n) \<and> hex_digit n \<noteq> CHR '':''"
  by (auto simp: hex_digit_def plain_char_def char_of_eq_iff take_bit_eq_mod)

lemma byte_string_plain:
  "list_all plain_char (byte_string b)" "CHR '':'' \<notin> set (byte_string b)"
  using hex_digit_plain [of "unat b div 16"] hex_digit_plain [of "unat b mod 16"]
    unat_byte_bound [of b]
  by (auto simp: byte_string_def less_mult_imp_div_less)

lemma hw_string_plain: "hw \<noteq> [] \<Longrightarrow> plain_word (hw_string hw)"
proof (induction hw)
  case Nil
  then show ?case by simp
next
  case (Cons b hw)
  have "byte_string b \<noteq> []" by (simp add: byte_string_def)
  moreover have "plain_char CHR '':''" by (simp add: plain_char_def)
  ultimately show ?case
    using Cons by (auto simp: hw_string_Cons plain_word_def byte_string_plain)
qed

lemma split_hw_string: "hw \<noteq> [] \<Longrightarrow> split_on CHR '':'' (hw_string hw) = map byte_string hw"
  unfolding hw_string_def by (rule split_join) (auto simp: byte_string_plain)

end
