(* ===== verification/Shell.thy ===== *)
theory Shell
  imports Go_Net
begin

text \<open>
  The package \<open>internal/utils/shell\<close> and the boundary to the operating system. What the
  program asks of the outside world (run a command, read the clock, list the network
  interfaces, test a context) is a record of functions over an abstract world state; every
  operation that uses it takes the record and threads the world, in the order of the calls.
\<close>

section \<open>The outside world\<close>

text \<open>
  A context is the one handed down by the caller or derived from it. The derivation matters
  for the commands that must end in bounded time or outlive a cancellation.
\<close>

datatype go_ctx = Ctx | WithCancel go_ctx | WithTimeout go_ctx duration | WithoutCancel go_ctx

text \<open>An interface address is an \<open>*net.IPNet\<close> or something else, which the code skips.\<close>

datatype if_addr = IPNetAddr ipnet | OtherIfAddr

record net_iface =
  if_name :: string
  if_flags :: "32 word"

text \<open>
  A command run to the end of its output: the pipe or the start can fail; otherwise it writes
  to stdout and, in chunks, to stderr, and \<open>Wait\<close> reports its exit.
\<close>

datatype process = PipeFailed go_error | StartFailed go_error
  | Process (proc_stdout: string) (proc_stderr: "string list") (proc_wait: "go_error option")

record 'w os =
  os_exec :: "go_ctx \<Rightarrow> string \<Rightarrow> string list \<Rightarrow> string \<Rightarrow> 'w \<Rightarrow> (string \<times> go_error option) \<times> 'w"
  os_spawn :: "go_ctx \<Rightarrow> string \<Rightarrow> string list \<Rightarrow> 'w \<Rightarrow> process \<times> 'w"
  os_now :: "'w \<Rightarrow> go_time \<times> 'w"
  os_sleep :: "go_ctx \<Rightarrow> duration \<Rightarrow> 'w \<Rightarrow> bool \<times> 'w"
  os_ctx_err :: "go_ctx \<Rightarrow> 'w \<Rightarrow> bool"
  os_interfaces :: "'w \<Rightarrow> go_error + net_iface list"
  os_interface_by_name :: "string \<Rightarrow> 'w \<Rightarrow> go_error + net_iface"
  os_addrs :: "net_iface \<Rightarrow> 'w \<Rightarrow> go_error + if_addr list"

section \<open>Run\<close>

text \<open>The combined output comes back even on failure; stdin is empty.\<close>

definition Run ::
  "'w os \<Rightarrow> go_ctx \<Rightarrow> string \<Rightarrow> string list \<Rightarrow> 'w \<Rightarrow> (string \<times> go_error option) \<times> 'w" where
  "Run os ctx name args w =
     (case os_exec os ctx name args [] w of
        ((out, Some err), w') \<Rightarrow>
          ((out, Some (Wrap (name @ '' '' @ join_with '' '' args @ '': '') err [])), w')
      | ((out, None), w') \<Rightarrow> ((out, None), w'))"

lemma Run_output: "fst (fst (Run os ctx name args w)) = fst (fst (os_exec os ctx name args [] w))"
  by (auto simp: Run_def split: prod.splits option.splits)

lemma Run_world: "snd (Run os ctx name args w) = snd (os_exec os ctx name args [] w)"
  by (auto simp: Run_def split: prod.splits option.splits)

lemma Run_error:
  "snd (fst (Run os ctx name args w)) = None \<longleftrightarrow>
   snd (fst (os_exec os ctx name args [] w)) = None"
  by (auto simp: Run_def split: prod.splits option.splits)

section \<open>The stderr tail\<close>

definition tailSize :: nat where "tailSize = 1024"

record tailBuffer =
  buf :: string

definition empty_tail :: tailBuffer where "empty_tail = \<lparr>buf = []\<rparr>"

definition tail_Write :: "string \<Rightarrow> tailBuffer \<Rightarrow> (nat \<times> go_error option) \<times> tailBuffer" where
  "tail_Write p t =
     (let t1 = t\<lparr>buf := buf t @ p\<rparr>;
          over = int (length (buf t1)) - int tailSize;
          t2 = (if over > 0 then t1\<lparr>buf := drop (nat over) (buf t1)\<rparr> else t1)
      in ((length p, None), t2))"

definition tail_String :: "tailBuffer \<Rightarrow> string" where
  "tail_String t = buf t"

definition tail_writes :: "string list \<Rightarrow> tailBuffer \<Rightarrow> tailBuffer" where
  "tail_writes ps = fold (\<lambda>p t. snd (tail_Write p t)) ps"

text \<open>The last \<open>n\<close> bytes of a byte sequence: what the buffer is meant to hold.\<close>

definition last_bytes :: "nat \<Rightarrow> string \<Rightarrow> string" where
  "last_bytes n s = drop (length s - n) s"

lemma last_bytes_append: "last_bytes n (last_bytes n a @ b) = last_bytes n (a @ b)"
  by (cases "length a \<le> n") (simp_all add: last_bytes_def add.commute)

lemma length_last_bytes: "length (last_bytes n s) \<le> n"
  by (simp add: last_bytes_def)

lemma buf_tail_Write: "buf (snd (tail_Write p t)) = last_bytes tailSize (buf t @ p)"
  by (auto simp: tail_Write_def Let_def last_bytes_def nat_diff_distrib nat_int_add)

lemma buf_tail_writes:
  "buf t = last_bytes tailSize x \<Longrightarrow>
   buf (tail_writes ps t) = last_bytes tailSize (x @ concat ps)"
proof (induction ps arbitrary: t x)
  case Nil
  then show ?case by (simp add: tail_writes_def)
next
  case (Cons p ps)
  have "buf (snd (tail_Write p t)) = last_bytes tailSize (x @ p)"
    by (simp add: buf_tail_Write Cons.prems last_bytes_append)
  from Cons.IH [OF this] show ?case by (simp add: tail_writes_def)
qed

section \<open>Stream\<close>

text \<open>
  \<open>bufio.Scanner\<close> with its default split function: lines without the newline and without one
  trailing carriage return, no token for an empty last line. A line of 64 KiB or more stops
  the scanner; the rest of the output is drained and never seen. The callback may change the
  caller's state and the world.
\<close>

definition max_scan_token :: nat where "max_scan_token = 65536"

definition drop_cr :: "string \<Rightarrow> string" where
  "drop_cr s = (if s \<noteq> [] \<and> last s = CHR 0x0D then butlast s else s)"

definition scan_lines :: "string \<Rightarrow> string list" where
  "scan_lines out =
     (let ls = split_on CHR 0x0A out;
          toks = (if last ls = [] then butlast ls else ls)
      in map drop_cr (takeWhile (\<lambda>l. length l < max_scan_token) toks))"

definition Stream ::
  "'w os \<Rightarrow> go_ctx \<Rightarrow> (string \<Rightarrow> 's \<times> 'w \<Rightarrow> 's \<times> 'w) \<Rightarrow> string \<Rightarrow> string list
     \<Rightarrow> 's \<times> 'w \<Rightarrow> go_error option \<times> 's \<times> 'w" where
  "Stream os ctx onLine name args sw =
     (case sw of (s, w) \<Rightarrow>
      case os_spawn os ctx name args w of
        (PipeFailed err, w') \<Rightarrow> (Some (Wrap (name @ '': '') err []), s, w')
      | (StartFailed err, w') \<Rightarrow>
          (Some (Wrap (name @ '' '' @ join_with '' '' args @ '': '') err []), s, w')
      | (Process out errs wait, w') \<Rightarrow>
          (let sw' = fold onLine (scan_lines out) (s, w');
               stderr = tail_writes errs empty_tail
           in case wait of
                Some err \<Rightarrow>
                  (Some (Wrap (name @ '' '' @ join_with '' '' args @ '': '') err
                     ('': '' @ trim_space (tail_String stderr))), sw')
              | None \<Rightarrow> (None, sw')))"

text \<open>The lines a run of a command yields; a command that does not start yields none.\<close>

definition stream_lines :: "process \<Rightarrow> string list" where
  "stream_lines p = (case p of Process out errs wait \<Rightarrow> scan_lines out | _ \<Rightarrow> [])"

lemma Stream_reads:
  "snd (Stream os ctx onLine name args (s, w)) =
     (case os_spawn os ctx name args w of (p, w1) \<Rightarrow> fold onLine (stream_lines p) (s, w1))"
  by (auto simp: Stream_def stream_lines_def Let_def split: prod.split process.split option.split)

lemma Stream_state:
  assumes "\<And>l t. K t \<Longrightarrow> K (onLine l t)" and "\<And>w'. K (s, w')"
  shows "K (snd (Stream os ctx onLine name args (s, w)))"
proof -
  have "K t \<Longrightarrow> K (fold onLine ls t)" for ls t
    using assms(1) by (induction ls arbitrary: t) auto
  then show ?thesis
    using assms(2)
    by (auto simp: Stream_def Let_def split: prod.splits process.splits option.splits)
qed

text \<open>Short lines all arrive, in order, carriage returns stripped.\<close>

lemma scan_lines_complete:
  assumes "\<forall>l \<in> set ls. CHR 0x0A \<notin> set l \<and> length l < max_scan_token"
  shows "scan_lines (concat (map (\<lambda>l. l @ [CHR 0x0A]) ls)) = map drop_cr ls"
proof -
  have "split_on CHR 0x0A (concat (map (\<lambda>l. l @ [CHR 0x0A]) ls)) = ls @ [[]]"
    using assms by (induction ls) (auto simp: split_on_append)
  moreover have "takeWhile (\<lambda>l. length l < max_scan_token) ls = ls"
    using assms by (auto simp: takeWhile_eq_all_conv)
  ultimately show ?thesis by (simp add: scan_lines_def del: takeWhile_eq_all_conv)
qed

lemma scan_lines_newline: "l \<in> set (scan_lines out) \<Longrightarrow> CHR 0x0A \<notin> set l"
proof -
  assume "l \<in> set (scan_lines out)"
  then obtain l' where "l = drop_cr l'" and "l' \<in> set (split_on CHR 0x0A out)"
    by (auto simp: scan_lines_def Let_def dest!: set_takeWhileD split: if_splits
        dest: in_set_butlastD)
  then show ?thesis
    using split_on_parts [of l' "CHR 0x0A" out]
    by (auto simp: drop_cr_def dest: in_set_butlastD split: if_splits)
qed

section \<open>Properties\<close>

text \<open>
  Whatever chunks a command writes to stderr, the tail buffer holds exactly the last 1024
  bytes of all of them together.
\<close>

theorem tail_buffer_keeps_tail:
  "tail_String (tail_writes ps empty_tail) = last_bytes tailSize (concat ps)
   \<and> length (tail_String (tail_writes ps empty_tail)) \<le> tailSize"
  using buf_tail_writes [of empty_tail "[]" ps]
  by (simp add: tail_String_def empty_tail_def last_bytes_def [of _ "[]"] length_last_bytes)

end
