(* ===== verification/Mac_World.thy ===== *)
theory Mac_World
  imports Shell
begin

text \<open>
  A concrete outside world: a small macOS machine with a VPN agent, a packet filter, an ARP
  table, host routes, network interfaces and a clock. It gives the abstract operations of
  \<open>os\<close> a meaning on which the components' properties can be evaluated, and it fixes the text
  format of the commands the program parses. Nothing here models code of the repository.
\<close>

section \<open>Text formats\<close>

text \<open>The line \<open>arp -n\<close> prints for an entry, the MAC in any spelling, followed by flags.\<close>

definition arp_words :: "string \<Rightarrow> string \<Rightarrow> string \<Rightarrow> string list \<Rightarrow> string list" where
  "arp_words ip mac iface flags =
     [''?'', ''('' @ ip @ '')'', ''at'', mac, ''on'', iface] @ flags"

definition arp_line :: "string \<Rightarrow> string \<Rightarrow> string \<Rightarrow> string list \<Rightarrow> string" where
  "arp_line ip mac iface flags = join_with '' '' (arp_words ip mac iface flags) @ [CHR 0x0A]"

section \<open>The machine\<close>

record mac_world =
  vpn_state :: string
  vpn_accepts :: bool
  pf_enabled :: bool
  arp_table :: "(string, string \<times> string) gomap"
  host_routes :: "(string, string) gomap"
  netstat_text :: string
  nics :: "(net_iface \<times> if_addr list) list"
  wall_clock :: go_time
  cancelled :: bool
  commands :: "(string \<times> string list) list"

definition exit_status_1 :: go_error where "exit_status_1 = Msg ''exit status 1''"

definition vpn_path :: string where "vpn_path = ''/opt/cisco/secureclient/bin/vpn''"

definition vpn_exec :: "string list \<Rightarrow> mac_world \<Rightarrow> (string \<times> go_error option) \<times> mac_world" where
  "vpn_exec args w =
     (if args = [''-s'', ''state''] then ((''  >> state: '' @ vpn_state w @ [CHR 0x0A], None), w)
      else if args = [''-s'', ''disconnect''] then (([], None), w\<lparr>vpn_state := ''Disconnected''\<rparr>)
      else if vpn_accepts w then (([], None), w\<lparr>vpn_state := ''Connected'', pf_enabled := True\<rparr>)
      else ((''  >> error: login failed'', Some exit_status_1), w))"

definition arp_exec :: "string list \<Rightarrow> mac_world \<Rightarrow> (string \<times> go_error option) \<times> mac_world" where
  "arp_exec args w =
     (case args of
        [flag, ip] \<Rightarrow>
          (case gm_get (arp_table w) ip of
             Some (mac, iface) \<Rightarrow> ((arp_line ip mac iface [''[ethernet]''], None), w)
           | None \<Rightarrow> ((ip @ '' ('' @ ip @ '') -- no entry'', Some exit_status_1), w))
      | [flag, ip, mac, kind] \<Rightarrow>
          (([], None), w\<lparr>arp_table := gm_put ip (mac,
              (case gm_get (host_routes w) ip of Some i \<Rightarrow> i | None \<Rightarrow> ''en0'')) (arp_table w)\<rparr>)
      | _ \<Rightarrow> (([], Some exit_status_1), w))"

definition mac_exec ::
  "go_ctx \<Rightarrow> string \<Rightarrow> string list \<Rightarrow> string \<Rightarrow> mac_world \<Rightarrow> (string \<times> go_error option) \<times> mac_world" where
  "mac_exec ctx name args stdin w =
     (let w1 = w\<lparr>commands := commands w @ [(name, args)]\<rparr> in
      if name = vpn_path then vpn_exec args w1
      else if name = ''arp'' then arp_exec args w1
      else if name = ''netstat'' then ((netstat_text w1, None), w1)
      else if name = ''pfctl'' then
        (if pf_enabled w1 then (([], None), w1\<lparr>pf_enabled := False\<rparr>)
         else ((''pfctl: pf not enabled'', Some exit_status_1), w1))
      else if name = ''route'' then
        (case args of
           [sub, ip, flag, iface] \<Rightarrow>
             (([], None), w1\<lparr>host_routes := gm_put ip iface (host_routes w1)\<rparr>)
         | _ \<Rightarrow> (([], Some exit_status_1), w1))
      else (([], Some (Msg ''executable file not found'')), w1))"

definition mac_os :: "mac_world os" where
  "mac_os =
     \<lparr>os_exec = mac_exec,
      os_spawn = (\<lambda>ctx name args w. (Process [] [] None, w)),
      os_now = (\<lambda>w. (wall_clock w, w)),
      os_sleep = (\<lambda>ctx d w. (\<not> cancelled w, w\<lparr>wall_clock := wall_clock w + d\<rparr>)),
      os_ctx_err = (\<lambda>ctx w. cancelled w),
      os_interfaces = (\<lambda>w. Inr (map fst (nics w))),
      os_interface_by_name =
        (\<lambda>name w. case find (\<lambda>(i, _). if_name i = name) (nics w) of
             Some (i, _) \<Rightarrow> Inr i | None \<Rightarrow> Inl (Msg ''no such network interface'')),
      os_addrs =
        (\<lambda>ifi w. case find (\<lambda>(i, _). i = ifi) (nics w) of
             Some (_, as) \<Rightarrow> Inr as | None \<Rightarrow> Inl (Msg ''no such network interface''))\<rparr>"

text \<open>One equation per command.\<close>

definition logged :: "string \<Rightarrow> string list \<Rightarrow> mac_world \<Rightarrow> mac_world" where
  "logged name args w = w\<lparr>commands := commands w @ [(name, args)]\<rparr>"

lemma mac_exec_simps:
  "mac_exec ctx ''/opt/cisco/secureclient/bin/vpn'' args i w
     = vpn_exec args (logged ''/opt/cisco/secureclient/bin/vpn'' args w)"
  "mac_exec ctx ''arp'' args i w = arp_exec args (logged ''arp'' args w)"
  "mac_exec ctx ''netstat'' args i w = ((netstat_text w, None), logged ''netstat'' args w)"
  "mac_exec ctx ''pfctl'' args i w =
     (if pf_enabled w then (([], None), (logged ''pfctl'' args w)\<lparr>pf_enabled := False\<rparr>)
      else ((''pfctl: pf not enabled'', Some exit_status_1), logged ''pfctl'' args w))"
  "mac_exec ctx ''route'' [sub, ip, flag, iface] i w =
     (([], None), (logged ''route'' [sub, ip, flag, iface] w)
        \<lparr>host_routes := gm_put ip iface (host_routes w)\<rparr>)"
  by (simp_all add: mac_exec_def vpn_path_def logged_def Let_def)

lemma mac_os_simps:
  "os_exec mac_os = mac_exec"
  "os_now mac_os w = (wall_clock w, w)"
  "os_sleep mac_os ctx d w = (\<not> cancelled w, w\<lparr>wall_clock := wall_clock w + d\<rparr>)"
  "os_ctx_err mac_os ctx w = cancelled w"
  by (simp_all add: mac_os_def)

lemmas mac_simps = mac_exec_simps mac_os_simps

section \<open>A sample machine\<close>

definition sample_nics :: "(net_iface \<times> if_addr list) list" where
  "sample_nics =
     [(\<lparr>if_name = ''lo0'', if_flags = 5\<rparr>,
         [IPNetAddr \<lparr>ip_bytes = [127, 0, 0, 1], mask_bytes = [255, 0, 0, 0]\<rparr>]),
      (\<lparr>if_name = ''en0'', if_flags = 1\<rparr>,
         [OtherIfAddr,
          IPNetAddr \<lparr>ip_bytes = [192, 168, 0, 105], mask_bytes = [255, 255, 255, 0]\<rparr>]),
      (\<lparr>if_name = ''en7'', if_flags = 1\<rparr>,
         [IPNetAddr \<lparr>ip_bytes = [10, 1, 2, 3], mask_bytes = [255, 255, 0, 0]\<rparr>]),
      (\<lparr>if_name = ''utun4'', if_flags = 9\<rparr>,
         [IPNetAddr \<lparr>ip_bytes = [10, 9, 9, 9], mask_bytes = [255, 255, 255, 255]\<rparr>])]"

definition sample_netstat :: string where
  "sample_netstat =
     ''default            link#22            UCSIg               utun4'' @ [CHR 0x0A]
     @ ''default            192.168.0.1        UGScg                 en0'' @ [CHR 0x0A]"

definition sample_world :: mac_world where
  "sample_world =
     \<lparr>vpn_state = ''Disconnected'', vpn_accepts = True, pf_enabled = True,
      arp_table = [], host_routes = [], netstat_text = sample_netstat, nics = sample_nics,
      wall_clock = 1000000000000, cancelled = False, commands = []\<rparr>"

end
