(* ===== verification/Route.thy ===== *)
theory Route
  imports Mac_World
begin

text \<open>
  The package \<open>internal/utils/route\<close>, file \<open>route.go\<close>: finding the physical LAN interface,
  MAC addresses in canonical form, reading and pinning ARP entries, and the decision whether a
  client's entry is right, is to be adopted, or is to be pinned again.
\<close>

section \<open>Canonical MAC addresses\<close>

definition pad_octet :: "string \<Rightarrow> string" where
  "pad_octet p = (if length p = 1 then ''0'' @ p else p)"

definition CanonicalMAC :: "string \<Rightarrow> string \<times> bool" where
  "CanonicalMAC mac =
     (let parts = map pad_octet (split_on CHR '':'' mac) in
      case ParseMAC (join_with '':'' parts) of
        None \<Rightarrow> ([], False)
      | Some hw \<Rightarrow> (hw_string hw, True))"

definition sameMAC :: "string \<Rightarrow> string \<Rightarrow> bool" where
  "sameMAC a b =
     (let (ca, okA) = CanonicalMAC a; (cb, okB) = CanonicalMAC b
      in okA \<and> okB \<and> ca = cb)"

text \<open>A MAC in the form \<open>CanonicalMAC\<close> produces.\<close>

definition canonical :: "string \<Rightarrow> bool" where
  "canonical m \<longleftrightarrow> CanonicalMAC m = (m, True)"

lemma CanonicalMAC_hw_string:
  "length hw \<in> set mac_lengths \<Longrightarrow> CanonicalMAC (hw_string hw) = (hw_string hw, True)"
proof -
  assume h: "length hw \<in> set mac_lengths"
  then have ne: "hw \<noteq> []" by (auto simp: mac_lengths_def)
  have "map pad_octet (split_on CHR '':'' (hw_string hw)) = map byte_string hw"
    by (simp add: split_hw_string [OF ne] pad_octet_def)
  then have "join_with '':'' (map pad_octet (split_on CHR '':'' (hw_string hw))) = hw_string hw"
    by (simp add: hw_string_def)
  then show ?thesis by (simp add: CanonicalMAC_def ParseMAC_hw_string [OF h])
qed

lemma CanonicalMAC_Some:
  "CanonicalMAC m = (c, True) \<Longrightarrow> \<exists>hw. length hw \<in> set mac_lengths \<and> c = hw_string hw"
  by (auto simp: CanonicalMAC_def Let_def dest: ParseMAC_length split: option.splits)

lemma CanonicalMAC_canonical: "CanonicalMAC m = (c, True) \<Longrightarrow> canonical c"
  using CanonicalMAC_Some CanonicalMAC_hw_string by (fastforce simp: canonical_def)

lemma CanonicalMAC_False: "CanonicalMAC m = (c, False) \<Longrightarrow> c = []"
  by (auto simp: CanonicalMAC_def Let_def split: option.splits)

lemma canonical_plain: "canonical m \<Longrightarrow> plain_word m"
proof -
  assume "canonical m"
  then obtain hw where "length hw \<in> set mac_lengths" and "m = hw_string hw"
    using CanonicalMAC_Some by (auto simp: canonical_def)
  moreover from this have "hw \<noteq> []" by (auto simp: mac_lengths_def)
  ultimately show ?thesis by (simp add: hw_string_plain)
qed

lemma not_canonical_Nil [simp]: "\<not> canonical []"
  using canonical_plain [of "[]"] by (auto simp: plain_word_def)

lemma sameMAC_canonical: "canonical a \<Longrightarrow> canonical b \<Longrightarrow> sameMAC a b \<longleftrightarrow> a = b"
  by (simp add: sameMAC_def canonical_def)

lemma sameMAC_refl: "canonical a \<Longrightarrow> sameMAC a a"
  by (simp add: sameMAC_canonical)

lemma sameMAC_sym: "sameMAC a b \<longleftrightarrow> sameMAC b a"
  by (auto simp: sameMAC_def split: prod.splits)

lemma sameMAC_trans: "sameMAC a b \<Longrightarrow> sameMAC b c \<Longrightarrow> sameMAC a c"
  by (auto simp: sameMAC_def split: prod.splits)

lemma CanonicalMAC_Nil [simp]: "CanonicalMAC [] = ([], False)"
  by (simp add: CanonicalMAC_def pad_octet_def ParseMAC_def)

lemma sameMAC_Nil [simp]: "\<not> sameMAC a []"
  by (simp add: sameMAC_def split: prod.splits)

section \<open>ARP entries\<close>

record ArpEntry =
  arp_mac :: string
  arp_iface :: string

definition zero_entry :: ArpEntry where
  "zero_entry = \<lparr>arp_mac = [], arp_iface = []\<rparr>"

text \<open>The loop over the fields and their successors: the last \<open>at\<close> and the last \<open>on\<close> win.\<close>

fun arp_scan :: "string list \<Rightarrow> ArpEntry \<Rightarrow> ArpEntry" where
  "arp_scan (k # v # rest) e =
     arp_scan (v # rest)
       (if k = ''at'' then e\<lparr>arp_mac := v\<rparr>
        else if k = ''on'' then e\<lparr>arp_iface := v\<rparr> else e)"
| "arp_scan _ e = e"

definition parseArpEntry :: "string \<Rightarrow> ArpEntry \<times> bool" where
  "parseArpEntry out =
     (let e = arp_scan (str_fields out) zero_entry;
          (mac, ok) = CanonicalMAC (arp_mac e)
      in if \<not> ok \<or> arp_iface e = [] then (zero_entry, False)
         else (e\<lparr>arp_mac := mac\<rparr>, True))"

definition LookupARP ::
  "'w os \<Rightarrow> go_ctx \<Rightarrow> string \<Rightarrow> 'w \<Rightarrow> (ArpEntry \<times> bool) \<times> 'w" where
  "LookupARP os ctx ip w =
     (case Run os ctx ''arp'' [''-n'', ip] w of
        ((out, Some err), w') \<Rightarrow> ((zero_entry, False), w')
      | ((out, None), w') \<Rightarrow> (parseArpEntry out, w'))"

text \<open>The failure of \<open>route change\<close> is ignored; \<open>arp -S\<close> decides.\<close>

definition Pin ::
  "'w os \<Rightarrow> go_ctx \<Rightarrow> string \<Rightarrow> string \<Rightarrow> string \<Rightarrow> 'w \<Rightarrow> go_error option \<times> 'w" where
  "Pin os ctx ip mac iface w =
     (let w1 = snd (Run os ctx ''route'' [''change'', ip, ''-interface'', iface] w) in
      case Run os ctx ''arp'' [''-S'', ip, mac, ''temp''] w1 of
        ((out, Some err), w2) \<Rightarrow> (Some (Wrap [] err ('': '' @ trim_space out)), w2)
      | ((out, None), w2) \<Rightarrow> (None, w2))"

lemma parseArpEntry_sound:
  "parseArpEntry out = (e, True) \<Longrightarrow> canonical (arp_mac e) \<and> arp_iface e \<noteq> []"
  by (auto simp: parseArpEntry_def Let_def dest: CanonicalMAC_canonical
      split: prod.splits if_splits)

lemma parseArpEntry_False: "parseArpEntry out = (e, False) \<Longrightarrow> e = zero_entry"
  by (auto simp: parseArpEntry_def Let_def split: prod.splits if_splits)

lemma LookupARP_sound:
  "LookupARP os ctx ip w = ((e, True), w') \<Longrightarrow> canonical (arp_mac e) \<and> arp_iface e \<noteq> []"
  by (auto simp: LookupARP_def dest: parseArpEntry_sound split: prod.splits option.splits)

subsection \<open>The decision\<close>

datatype PinAction = PinNone | PinAdopt | PinRepin

definition DecidePin :: "ArpEntry \<Rightarrow> bool \<Rightarrow> string \<Rightarrow> string \<Rightarrow> PinAction" where
  "DecidePin entry found wantMAC iface =
     (if found \<and> arp_iface entry = iface \<and> sameMAC (arp_mac entry) wantMAC then PinNone
      else if found \<and> arp_iface entry = iface then PinAdopt
      else if wantMAC = [] then PinNone
      else PinRepin)"

lemma DecidePin_repin: "DecidePin e found want iface = PinRepin \<longleftrightarrow>
    \<not> (found \<and> arp_iface e = iface) \<and> want \<noteq> []"
  by (auto simp: DecidePin_def)

lemma DecidePin_adopt: "DecidePin e found want iface = PinAdopt \<longleftrightarrow>
    found \<and> arp_iface e = iface \<and> \<not> sameMAC (arp_mac e) want"
  by (auto simp: DecidePin_def)

lemma DecidePin_none: "DecidePin e found want iface = PinNone \<longleftrightarrow>
    (if found \<and> arp_iface e = iface then sameMAC (arp_mac e) want else want = [])"
  by (auto simp: DecidePin_def)

subsection \<open>The interface to the ARP table\<close>

text \<open>
  What the pinner and the discovery hooks may rely on when they look an address up: an entry
  that is found has a canonical MAC and an interface.
\<close>

locale arp_source =
  fixes lookup :: "string \<Rightarrow> 'w \<Rightarrow> (ArpEntry \<times> bool) \<times> 'w"
  assumes lookup_sound:
    "lookup ip w = ((e, True), w') \<Longrightarrow> canonical (arp_mac e) \<and> arp_iface e \<noteq> []"
begin

text \<open>An adopted MAC ends the disagreement, whatever the caller wanted before.\<close>

lemma adopt_settles:
  assumes "lookup ip w = ((e, found), w')" and "DecidePin e found want iface = PinAdopt"
  shows "canonical (arp_mac e)" and "DecidePin e found (arp_mac e) iface = PinNone"
proof -
  from assms(2) have f: found "arp_iface e = iface" by (auto simp: DecidePin_adopt)
  with assms(1) show c: "canonical (arp_mac e)" using lookup_sound by auto
  show "DecidePin e found (arp_mac e) iface = PinNone"
    using f c by (simp add: DecidePin_none sameMAC_refl)
qed

lemma adopt_new_mac:
  assumes "lookup ip w = ((e, found), w')" and "DecidePin e found want iface = PinAdopt"
  shows "arp_mac e \<noteq> want"
  using adopt_settles [OF assms] assms(2) by (auto simp: DecidePin_adopt sameMAC_refl)

end

interpretation kernel_arp: arp_source "LookupARP os ctx" for os ctx
  by unfold_locales (rule LookupARP_sound)

section \<open>Finding the LAN interface\<close>

definition ErrNoLANInterface :: go_error where
  "ErrNoLANInterface = Sentinel ''no non-tunnel LAN interface found''"

definition errNoIPv4 :: go_error where "errNoIPv4 = Sentinel ''no IPv4 address''"

text \<open>The loop over the lines of \<open>netstat -rn\<close>, stopped by the first line that qualifies.\<close>

definition default_netif :: "string \<Rightarrow> string option" where
  "default_netif line =
     (let fs = str_fields line in
      if length fs < 4 then None
      else if hd fs \<noteq> ''default'' then None
      else let netif = last fs in
        if has_prefix ''utun'' netif \<or> has_prefix ''lo'' netif \<or> netif = [] then None
        else Some netif)"

fun first_netif :: "string list \<Rightarrow> string" where
  "first_netif [] = []"
| "first_netif (line # rest) =
     (case default_netif line of Some netif \<Rightarrow> netif | None \<Rightarrow> first_netif rest)"

definition parseDefaultNonTunnel :: "string \<Rightarrow> string" where
  "parseDefaultNonTunnel netstatOutput = first_netif (split_on CHR 0x0A netstatOutput)"

text \<open>The zero prefix and \<open>False\<close> for an address that is not IPv4 or a mask out of range.\<close>

definition ipv4Prefix :: "ipnet \<Rightarrow> netip_prefix \<times> bool" where
  "ipv4Prefix n =
     (case To4 (ip_bytes n) of
        None \<Rightarrow> (zero_prefix, False)
      | Some bs \<Rightarrow>
          (let (ones, bits) = mask_size (mask_bytes n);
               ones' = (if bits = 128 then int ones - 96 else int ones)
           in if ones' < 0 \<or> ones' > 32 then (zero_prefix, False)
              else (PrefixFrom (V4 (bytes_to_v4 bs)) (nat ones'), True)))"

text \<open>The loop over an interface's addresses, with the test an address must pass.\<close>

fun first_ipv4 :: "(addr \<Rightarrow> bool) \<Rightarrow> if_addr list \<Rightarrow> netip_prefix option" where
  "first_ipv4 good [] = None"
| "first_ipv4 good (OtherIfAddr # as) = first_ipv4 good as"
| "first_ipv4 good (IPNetAddr n # as) =
     (case ipv4Prefix n of (p, ok) \<Rightarrow>
        if \<not> ok \<or> \<not> good (prefix_addr p) then first_ipv4 good as else Some p)"

definition connectedPrefix :: "'w os \<Rightarrow> string \<Rightarrow> 'w \<Rightarrow> go_error + netip_prefix" where
  "connectedPrefix os iface w =
     (case os_interface_by_name os iface w of
        Inl err \<Rightarrow> Inl (Wrap (''interface '' @ iface @ '': '') err [])
      | Inr ifi \<Rightarrow>
          (case os_addrs os ifi w of
             Inl err \<Rightarrow> Inl (Wrap (''addrs '' @ iface @ '': '') err [])
           | Inr addrs \<Rightarrow>
               (case first_ipv4 (\<lambda>a. \<not> is_loopback a \<and> \<not> is_link_local_unicast a) addrs of
                  Some p \<Rightarrow> Inr p
                | None \<Rightarrow> Inl (Wrap [] errNoIPv4 ('' on '' @ iface)))))"

record lanCandidate =
  ifaddr :: netip_prefix
  cand_iface :: string

definition FlagUp :: "32 word" where "FlagUp = 1"
definition FlagLoopback :: "32 word" where "FlagLoopback = 4"
definition FlagPointToPoint :: "32 word" where "FlagPointToPoint = 8"

definition candidate_of :: "'w os \<Rightarrow> 'w \<Rightarrow> net_iface \<Rightarrow> lanCandidate option" where
  "candidate_of os w ifi =
     (if if_flags ifi AND FlagUp = 0 then None
      else if if_flags ifi AND FlagLoopback \<noteq> 0 \<or> if_flags ifi AND FlagPointToPoint \<noteq> 0
      then None
      else if has_prefix ''utun'' (if_name ifi) then None
      else (case os_addrs os ifi w of
              Inl err \<Rightarrow> None
            | Inr addrs \<Rightarrow>
                map_option (\<lambda>p. \<lparr>ifaddr = p, cand_iface = if_name ifi\<rparr>)
                  (first_ipv4 is_private addrs)))"

fun candidates_of :: "'w os \<Rightarrow> 'w \<Rightarrow> net_iface list \<Rightarrow> lanCandidate list" where
  "candidates_of os w [] = []"
| "candidates_of os w (ifi # ifaces) =
     (case candidate_of os w ifi of
        None \<Rightarrow> candidates_of os w ifaces
      | Some c \<Rightarrow> c # candidates_of os w ifaces)"

definition rfc1918Candidates :: "'w os \<Rightarrow> 'w \<Rightarrow> go_error + lanCandidate list" where
  "rfc1918Candidates os w =
     (case os_interfaces os w of
        Inl err \<Rightarrow> Inl (Wrap ''list interfaces: '' err [])
      | Inr ifaces \<Rightarrow> Inr (candidates_of os w ifaces))"

definition pickCandidate :: "lanCandidate list \<Rightarrow> string \<Rightarrow> lanCandidate option" where
  "pickCandidate cands prefer =
     (case cands of
        [] \<Rightarrow> None
      | c0 # _ \<Rightarrow>
          (case find (\<lambda>c. prefer \<noteq> [] \<and> cand_iface c = prefer) cands of
             Some c \<Rightarrow> Some c
           | None \<Rightarrow> Some c0))"

definition DetectLAN ::
  "'w os \<Rightarrow> go_ctx \<Rightarrow> string \<Rightarrow> 'w \<Rightarrow> (go_error + netip_prefix \<times> string) \<times> 'w" where
  "DetectLAN os ctx prefer w =
     (case Run os ctx ''netstat'' [''-rn'', ''-f'', ''inet''] w of
        ((out, err), w1) \<Rightarrow>
          let name = (if err = None then parseDefaultNonTunnel out else []);
              primary = (if name = [] then None
                         else case connectedPrefix os name w1 of
                           Inl _ \<Rightarrow> None | Inr p \<Rightarrow> Some (p, name))
          in (case primary of
                Some found \<Rightarrow> (Inr found, w1)
              | None \<Rightarrow>
                  (case rfc1918Candidates os w1 of
                     Inl e \<Rightarrow> (Inl e, w1)
                   | Inr cands \<Rightarrow>
                       (case pickCandidate cands prefer of
                          None \<Rightarrow> (Inl ErrNoLANInterface, w1)
                        | Some c \<Rightarrow> (Inr (ifaddr c, cand_iface c), w1)))))"

subsection \<open>Lemmas\<close>

lemma default_netif_Some:
  "default_netif line = Some netif \<Longrightarrow>
     netif \<noteq> [] \<and> \<not> has_prefix ''utun'' netif \<and> \<not> has_prefix ''lo'' netif"
  by (auto simp: default_netif_def Let_def split: if_splits)

lemma first_netif_good:
  "first_netif ls \<noteq> [] \<Longrightarrow>
     \<not> has_prefix ''utun'' (first_netif ls) \<and> \<not> has_prefix ''lo'' (first_netif ls)"
  by (induction ls) (auto split: option.splits dest: default_netif_Some)

text \<open>An IPv4 address with a length a prefix of it can have.\<close>

definition v4_prefix :: "netip_prefix \<Rightarrow> bool" where
  "v4_prefix p \<longleftrightarrow> (\<exists>a b. p = Prefix (V4 a) (Some b) \<and> b \<le> 32)"

lemma ipv4Prefix_sound: "ipv4Prefix n = (p, True) \<Longrightarrow> v4_prefix p"
  by (auto simp: ipv4Prefix_def v4_prefix_def PrefixFrom_def without_zone_def bit_len_def Let_def
      split: option.splits prod.splits if_splits)

lemma first_ipv4_Some:
  "first_ipv4 good as = Some p \<Longrightarrow> v4_prefix p \<and> good (prefix_addr p)"
  by (induction good as rule: first_ipv4.induct)
    (auto dest: ipv4Prefix_sound split: prod.splits if_splits)

lemma connectedPrefix_sound:
  "connectedPrefix os iface w = Inr p \<Longrightarrow>
     v4_prefix p \<and> \<not> is_loopback (prefix_addr p) \<and> \<not> is_link_local_unicast (prefix_addr p)"
  by (auto simp: connectedPrefix_def dest!: first_ipv4_Some split: sum.splits option.splits)

lemma candidate_of_sound:
  "candidate_of os w ifi = Some c \<Longrightarrow>
     v4_prefix (ifaddr c) \<and> is_private (prefix_addr (ifaddr c))
     \<and> cand_iface c = if_name ifi \<and> \<not> has_prefix ''utun'' (cand_iface c)"
  by (auto simp: candidate_of_def dest: first_ipv4_Some split: if_splits sum.splits)

lemma candidates_of_mem:
  "c \<in> set (candidates_of os w ifaces) \<Longrightarrow> \<exists>ifi \<in> set ifaces. candidate_of os w ifi = Some c"
  by (induction ifaces) (auto split: option.splits)

lemma rfc1918Candidates_sound:
  "rfc1918Candidates os w = Inr cands \<Longrightarrow> c \<in> set cands \<Longrightarrow>
     v4_prefix (ifaddr c) \<and> is_private (prefix_addr (ifaddr c))
     \<and> \<not> has_prefix ''utun'' (cand_iface c)"
  by (auto simp: rfc1918Candidates_def dest!: candidates_of_mem dest: candidate_of_sound
      split: sum.splits)

lemma pickCandidate_mem: "pickCandidate cands prefer = Some c \<Longrightarrow> c \<in> set cands"
  by (auto simp: pickCandidate_def dest!: find_mem split: list.splits option.splits if_splits)

lemma pickCandidate_None: "pickCandidate cands prefer = None \<longleftrightarrow> cands = []"
  by (auto simp: pickCandidate_def split: list.splits option.splits)

lemma pickCandidate_prefer:
  "prefer \<noteq> [] \<Longrightarrow> \<exists>c \<in> set cands. cand_iface c = prefer \<Longrightarrow>
   \<exists>c. pickCandidate cands prefer = Some c \<and> cand_iface c = prefer"
  by (cases "find (\<lambda>c. prefer \<noteq> [] \<and> cand_iface c = prefer) cands")
    (auto simp: pickCandidate_def find_None_iff simp del: find.simps dest: find_mem
      split: list.splits)

lemma pickCandidate_iface:
  assumes "pickCandidate cands prefer = Some c"
  shows "cand_iface c = (if prefer \<noteq> [] \<and> prefer \<in> cand_iface ` set cands
           then prefer else cand_iface (hd cands))"
proof (cases "find (\<lambda>c. prefer \<noteq> [] \<and> cand_iface c = prefer) cands")
  case None
  then have no: "\<not> (prefer \<noteq> [] \<and> prefer \<in> cand_iface ` set cands)"
    by (auto simp: find_None_iff)
  have "c = hd cands"
    using assms unfolding pickCandidate_def None by (auto split: list.splits)
  with no show ?thesis by auto
next
  case (Some d)
  then have d: "prefer \<noteq> []" "d \<in> set cands" "cand_iface d = prefer"
    by (auto dest: find_mem)
  have "c = d"
    using assms Some unfolding pickCandidate_def by (auto split: list.splits)
  with d show ?thesis by auto
qed

text \<open>The two origins of a result: a line of the routing table, or an interface that qualifies.\<close>

definition default_via :: "string \<Rightarrow> string \<Rightarrow> bool" where
  "default_via line iface \<longleftrightarrow>
     (let fs = str_fields line in 4 \<le> length fs \<and> hd fs = ''default'' \<and> last fs = iface)"

definition qualifies :: "'w os \<Rightarrow> 'w \<Rightarrow> netip_prefix \<Rightarrow> string \<Rightarrow> net_iface \<Rightarrow> bool" where
  "qualifies os w p iface ifi \<longleftrightarrow> if_name ifi = iface \<and> if_flags ifi AND FlagUp \<noteq> 0
     \<and> if_flags ifi AND FlagLoopback = 0 \<and> if_flags ifi AND FlagPointToPoint = 0
     \<and> (\<exists>addrs n. os_addrs os ifi w = Inr addrs \<and> IPNetAddr n \<in> set addrs \<and> ipv4Prefix n = (p, True))"

lemma first_netif_line: "first_netif ls \<noteq> [] \<Longrightarrow> \<exists>l \<in> set ls. default_via l (first_netif ls)"
  by (induction ls) (auto simp: default_netif_def default_via_def Let_def split: option.splits if_splits)

lemma first_ipv4_mem: "first_ipv4 good as = Some p \<Longrightarrow> \<exists>n. IPNetAddr n \<in> set as \<and> ipv4Prefix n = (p, True)"
  by (induction good as rule: first_ipv4.induct) (auto split: prod.splits if_splits)

lemma candidate_qualifies:
  assumes "candidate_of os w ifi = Some c"
  shows "qualifies os w (ifaddr c) (cand_iface c) ifi"
proof -
  from assms obtain addrs where
    a: "os_addrs os ifi w = Inr addrs" "first_ipv4 is_private addrs = Some (ifaddr c)" "cand_iface c = if_name ifi"
    and flags: "if_flags ifi AND FlagUp \<noteq> 0" "if_flags ifi AND FlagLoopback = 0" "if_flags ifi AND FlagPointToPoint = 0"
    by (auto simp: candidate_of_def split: if_splits sum.splits)
  from first_ipv4_mem [OF a(2)] a(1,3) flags show ?thesis by (auto simp: qualifies_def)
qed

text \<open>Where a result comes from: the first default route, or a candidate of the fallback.\<close>

lemma DetectLAN_origin:
  assumes "Run os ctx ''netstat'' [''-rn'', ''-f'', ''inet''] w = ((out, err), w1)"
    and "DetectLAN os ctx prefer w = (Inr (p, iface), w')"
  shows "w' = w1 \<and> ((err = None \<and> (\<exists>l \<in> set (split_on CHR 0x0A out). default_via l iface)
        \<and> connectedPrefix os iface w1 = Inr p)
     \<or> (\<exists>ifaces ifi. os_interfaces os w1 = Inr ifaces \<and> ifi \<in> set ifaces \<and> qualifies os w1 p iface ifi
        \<and> is_private (prefix_addr p)))"
proof -
  let ?name = "if err = None then parseDefaultNonTunnel out else []"
  consider (route) q where "?name \<noteq> []" "connectedPrefix os ?name w1 = Inr q"
    | (none) "?name = [] \<or> (\<exists>e. connectedPrefix os ?name w1 = Inl e)"
    by (cases "connectedPrefix os ?name w1") auto
  then show ?thesis
  proof cases
    case route
    then have "err = None" "iface = parseDefaultNonTunnel out" "p = q" "w' = w1"
      using assms by (auto simp: DetectLAN_def Let_def split: if_splits)
    with route first_netif_line [of "split_on CHR 0x0A out"] show ?thesis
      by (auto simp: parseDefaultNonTunnel_def)
  next
    case none
    then have "(case rfc1918Candidates os w1 of Inl e \<Rightarrow> (Inl e, w1)
        | Inr cands \<Rightarrow> (case pickCandidate cands prefer of
            None \<Rightarrow> (Inl ErrNoLANInterface, w1) | Some c \<Rightarrow> (Inr (ifaddr c, cand_iface c), w1))) = (Inr (p, iface), w')"
      using assms by (auto simp: DetectLAN_def Let_def split: if_splits sum.splits)
    then obtain cands c where c: "rfc1918Candidates os w1 = Inr cands" "pickCandidate cands prefer = Some c"
      "p = ifaddr c" "iface = cand_iface c" "w' = w1" by (auto split: sum.splits option.splits)
    then obtain ifaces ifi where i: "os_interfaces os w1 = Inr ifaces" "ifi \<in> set ifaces" "candidate_of os w1 ifi = Some c"
      using pickCandidate_mem [OF c(2)] by (auto simp: rfc1918Candidates_def dest!: candidates_of_mem split: sum.splits)
    have "qualifies os w1 p iface ifi" "is_private (prefix_addr p)"
      using candidate_qualifies [OF i(3)] candidate_of_sound [OF i(3)] by (simp_all add: c(3,4))
    with c(5) i(1,2) show ?thesis by blast
  qed
qed

lemma DetectLAN_sound:
  assumes "DetectLAN os ctx prefer w = (Inr (p, iface), w')"
  shows "v4_prefix p" "\<not> has_prefix ''utun'' iface"
    "is_private (prefix_addr p) \<or>
       (\<not> is_loopback (prefix_addr p) \<and> \<not> is_link_local_unicast (prefix_addr p))"
  using assms
  by (auto simp: DetectLAN_def parseDefaultNonTunnel_def Let_def
      dest!: connectedPrefix_sound rfc1918Candidates_sound [OF _ pickCandidate_mem]
      dest: first_netif_good
      split: prod.splits option.splits sum.splits if_splits)

section \<open>Properties\<close>

text \<open>
  \<open>CanonicalMAC\<close> yields a normal form: what it accepts it maps to a non-empty printable
  word without spaces that it maps to itself, so two spellings of one address compare equal
  by text; what it refuses becomes the empty string.
\<close>

theorem CanonicalMAC_normal_form:
  "case CanonicalMAC mac of (c, ok) \<Rightarrow>
     if ok then CanonicalMAC c = (c, True) \<and> plain_word c else c = []"
  using CanonicalMAC_canonical [of mac] CanonicalMAC_False [of mac] canonical_plain
  by (auto simp: canonical_def split: prod.splits)

definition keyword :: "string \<Rightarrow> bool" where
  "keyword w \<longleftrightarrow> w = ''at'' \<or> w = ''on''"

lemma arp_scan_flags:
  "list_all (\<lambda>w. \<not> keyword w) ws \<Longrightarrow> arp_scan ws e = e"
  by (induction ws e rule: arp_scan.induct) (auto simp: keyword_def)

lemma canonical_not_keyword: "CanonicalMAC mac = (c, True) \<Longrightarrow> \<not> keyword mac"
  by (auto simp: keyword_def CanonicalMAC_def pad_octet_def ParseMAC_def)

lemma fields_arp_line:
  "plain_word ip \<Longrightarrow> plain_word mac \<Longrightarrow> plain_word iface \<Longrightarrow> list_all plain_word flags \<Longrightarrow>
   str_fields (arp_line ip mac iface flags) = arp_words ip mac iface flags"
  unfolding arp_line_def
  by (subst fields_join_space)
    (auto simp: arp_words_def str_fields_def plain_word_def plain_char_def list_all_iff)

lemma arp_scan_line:
  assumes "plain_word ip" "plain_word mac" "plain_word iface" "list_all plain_word flags"
    and "list_all (\<lambda>w. \<not> keyword w) (iface # flags)" and "\<not> keyword mac"
  shows "arp_scan (str_fields (arp_line ip mac iface flags)) zero_entry
           = \<lparr>arp_mac = mac, arp_iface = iface\<rparr>"
proof -
  have "arp_scan (arp_words ip mac iface flags) zero_entry
      = arp_scan (iface # flags) \<lparr>arp_mac = mac, arp_iface = iface\<rparr>"
    using assms(6) by (simp add: arp_words_def zero_entry_def keyword_def)
  also have "\<dots> = \<lparr>arp_mac = mac, arp_iface = iface\<rparr>"
    using assms(5) by (rule arp_scan_flags)
  finally show ?thesis by (simp add: fields_arp_line assms(1-4))
qed

text \<open>
  C29: an ARP entry reads back from the line the kernel prints for it: the interface as it is,
  the MAC in canonical form whether or not leading zeros were dropped.
\<close>

theorem parseArpEntry_roundtrip:
  assumes "plain_word ip" "plain_word mac" "plain_word iface" "list_all plain_word flags"
    and "list_all (\<lambda>w. \<not> keyword w) (iface # flags)"
    and mac: "CanonicalMAC mac = (c, True)"
  shows "parseArpEntry (arp_line ip mac iface flags)
           = (\<lparr>arp_mac = c, arp_iface = iface\<rparr>, True)"
  using arp_scan_line [OF assms(1-5) canonical_not_keyword [OF mac]] mac assms(3)
  by (auto simp: parseArpEntry_def plain_word_def)

theorem parseArpEntry_roundtrip_witness:
  "parseArpEntry (arp_line ''192.168.0.42'' ''72:ce:39:12:45:f'' ''en0'' [''[ethernet]''])
     = (\<lparr>arp_mac = ''72:ce:39:12:45:0f'', arp_iface = ''en0''\<rparr>, True)"
proof -
  have "CanonicalMAC ''72:ce:39:12:45:f'' = (''72:ce:39:12:45:0f'', True)"
    by code_simp
  then show ?thesis
    by (intro parseArpEntry_roundtrip)
      (simp_all add: plain_word_def plain_char_def keyword_def)
qed

text \<open>
  C31: LAN detection never settles on a tunnel: an interface it returns is not a \<open>utun\<close>
  device, and the address is IPv4 with a valid prefix length. It is the interface of a default route
  with its first address that is neither loopback nor link-local; or else it is an interface of the
  machine that is up, neither loopback nor point-to-point, and the address is one of its own and
  private.
\<close>

theorem DetectLAN_physical:
  "case Run os ctx ''netstat'' [''-rn'', ''-f'', ''inet''] w of ((out, err), w1) \<Rightarrow>
   case DetectLAN os ctx prefer w of
     (Inl _, _) \<Rightarrow> True
   | (Inr (p, iface), _) \<Rightarrow>
       (\<exists>a b. p = Prefix (V4 a) (Some b) \<and> b \<le> 32) \<and> \<not> has_prefix ''utun'' iface \<and>
       (if err = None \<and> (\<exists>l \<in> set (split_on CHR 0x0A out). default_via l iface)
           \<and> connectedPrefix os iface w1 = Inr p
        then \<not> is_loopback (prefix_addr p) \<and> \<not> is_link_local_unicast (prefix_addr p)
        else is_private (prefix_addr p)
          \<and> (\<exists>ifaces ifi. os_interfaces os w1 = Inr ifaces \<and> ifi \<in> set ifaces \<and> qualifies os w1 p iface ifi))"
proof -
  obtain out err w1 where run: "Run os ctx ''netstat'' [''-rn'', ''-f'', ''inet''] w = ((out, err), w1)"
    by (metis surj_pair)
  obtain res w2 where d: "DetectLAN os ctx prefer w = (res, w2)" by (metis surj_pair)
  show ?thesis
  proof (cases res)
    case (Inl e)
    then show ?thesis by (simp add: run d)
  next
    case (Inr pi)
    then obtain p iface where res: "res = Inr (p, iface)" by (cases pi) simp
    have v: "\<exists>a b. p = Prefix (V4 a) (Some b) \<and> b \<le> 32" and u: "\<not> has_prefix ''utun'' iface"
      using DetectLAN_sound(1,2) [OF d [unfolded res]] by (auto simp: v4_prefix_def)
    show ?thesis
      using DetectLAN_origin [OF run d [unfolded res]] connectedPrefix_sound [of os iface w1 p]
      unfolding run d res prod.case sum.case by (intro conjI v u) (auto split: if_splits)
  qed
qed

text \<open>
  Without a usable default route the interface in use is kept while it still qualifies,
  so a transient loss of the route does not move the LAN to another interface; otherwise the
  first candidate is taken.
\<close>

theorem DetectLAN_sticky:
  assumes run: "Run os ctx ''netstat'' [''-rn'', ''-f'', ''inet''] w = ((out, err), w1)"
    and no_route: "err \<noteq> None \<or> parseDefaultNonTunnel out = []
       \<or> (\<exists>e. connectedPrefix os (parseDefaultNonTunnel out) w1 = Inl e)"
    and cands: "rfc1918Candidates os w1 = Inr cands" "cands \<noteq> []"
  shows "\<exists>c \<in> set cands. DetectLAN os ctx prefer w = (Inr (ifaddr c, cand_iface c), w1)
           \<and> cand_iface c = (if prefer \<noteq> [] \<and> prefer \<in> cand_iface ` set cands
                              then prefer else cand_iface (hd cands))"
proof -
  from cands(2) obtain c where c: "pickCandidate cands prefer = Some c"
    using pickCandidate_None by blast
  have "cand_iface c = (if prefer \<noteq> [] \<and> prefer \<in> cand_iface ` set cands
      then prefer else cand_iface (hd cands))"
    by (rule pickCandidate_iface [OF c])
  moreover have "DetectLAN os ctx prefer w = (Inr (ifaddr c, cand_iface c), w1)"
    using run no_route cands(1) c by (auto simp: DetectLAN_def Let_def split: sum.splits)
  ultimately show ?thesis using pickCandidate_mem [OF c] by blast
qed

lemma sample_prefixes:
  "ipv4Prefix \<lparr>ip_bytes = [192, 168, 0, 105], mask_bytes = [255, 255, 255, 0]\<rparr>
     = (Prefix (V4 0xC0A80069) (Some 24), True)"
  "ipv4Prefix \<lparr>ip_bytes = [10, 1, 2, 3], mask_bytes = [255, 255, 0, 0]\<rparr>
     = (Prefix (V4 0x0A010203) (Some 16), True)"
  by (simp_all add: ipv4Prefix_def To4_def mask_size_def mask_bits_def upt_rec bytes_to_v4_def
      v4_of_octets_def PrefixFrom_def without_zone_def bit_len_def)

lemma sample_candidates:
  assumes "nics w = sample_nics"
  shows "\<exists>cs. rfc1918Candidates mac_os w = Inr cs \<and> map cand_iface cs = [''en0'', ''en7'']"
  using assms
  by (simp add: rfc1918Candidates_def candidate_of_def mac_os_def sample_nics_def
      FlagUp_def FlagLoopback_def FlagPointToPoint_def sample_prefixes is_private_def unmap_def)

text \<open>The sample machine on a LAN without a default route, two interfaces that qualify.\<close>

theorem DetectLAN_sticky_witness:
  "\<exists>(c :: lanCandidate) w1. DetectLAN mac_os Ctx ''en7'' (sample_world\<lparr>netstat_text := []\<rparr>)
     = (Inr (ifaddr c, ''en7''), w1) \<and> cand_iface c = ''en7''"
proof -
  let ?w = "sample_world\<lparr>netstat_text := []\<rparr>"
  obtain w1 where run: "Run mac_os Ctx ''netstat'' [''-rn'', ''-f'', ''inet''] ?w = (([], None), w1)"
      and nics: "nics w1 = sample_nics"
    by (simp add: Run_def mac_simps logged_def sample_world_def)
  have none: "parseDefaultNonTunnel [] = []"
    by (simp add: parseDefaultNonTunnel_def default_netif_def str_fields_def)
  from sample_candidates [OF nics] obtain cs where
      cs: "rfc1918Candidates mac_os w1 = Inr cs" "map cand_iface cs = [''en0'', ''en7'']"
    by (elim exE conjE)
  have ne: "cs \<noteq> []" using cs(2) by force
  have "''en7'' \<in> set (map cand_iface cs)" by (simp only: cs(2)) simp
  then have mem: "''en7'' \<in> cand_iface ` set cs" by (simp only: set_map)
  have "\<exists>c \<in> set cs. DetectLAN mac_os Ctx ''en7'' ?w = (Inr (ifaddr c, cand_iface c), w1)
      \<and> cand_iface c = (if ''en7'' \<noteq> [] \<and> ''en7'' \<in> cand_iface ` set cs
                         then ''en7'' else cand_iface (hd cs))"
    by (rule DetectLAN_sticky [OF run _ cs(1) ne]) (simp only: none simp_thms)
  then obtain c :: lanCandidate where c: "DetectLAN mac_os Ctx ''en7'' ?w = (Inr (ifaddr c, cand_iface c), w1)"
      and i: "cand_iface c = (if ''en7'' \<noteq> [] \<and> ''en7'' \<in> cand_iface ` set cs
                         then ''en7'' else cand_iface (hd cs))"
    by (elim bexE conjE) (rule that)
  have "cand_iface c = ''en7''"
    unfolding i using mem by (intro if_P conjI) (rule list.distinct)
  moreover from c this have "DetectLAN mac_os Ctx ''en7'' ?w = (Inr (ifaddr c, ''en7''), w1)"
    by (simp only:)
  ultimately show ?thesis by (intro exI conjI)
qed

end
