(* ===== verification/Clients.thy ===== *)
theory Clients
  imports Route
begin

text \<open>
  The client registry of \<open>internal/service/clients.go\<close>: the LAN clients the pinner keeps
  reachable, static ones from the configuration and ones discovered on the network, keyed by
  the printed IP address. Every operation runs under the registry's mutex, so it is one step.
\<close>

section \<open>State\<close>

record LANClient =
  lc_ip :: string
  lc_mac :: string

record clientEntry =
  lastSeen :: go_time
  entry_mac :: string
  static :: bool

type_synonym clientRegistry = "(string, clientEntry) gomap"

definition discoveredClientTTL :: duration where "discoveredClientTTL = 30 * minute"
definition clientRefreshInterval :: duration where "clientRefreshInterval = minute"

definition zero_clientEntry :: clientEntry where
  "zero_clientEntry = \<lparr>lastSeen = 0, entry_mac = [], static = False\<rparr>"

section \<open>Operations\<close>

definition static_entry :: "LANClient \<Rightarrow> clientEntry" where
  "static_entry lc =
     (let (mac, ok) = CanonicalMAC (lc_mac lc) in
      zero_clientEntry\<lparr>entry_mac := (if \<not> ok then [] else mac), static := True\<rparr>)"

definition newClientRegistry :: "LANClient list \<Rightarrow> clientRegistry" where
  "newClientRegistry statics = fold (\<lambda>lc r. gm_put (lc_ip lc) (static_entry lc) r) statics []"

definition seen :: "string \<Rightarrow> string \<Rightarrow> go_time \<Rightarrow> clientRegistry \<Rightarrow> bool \<times> clientRegistry" where
  "seen ip mac now r =
     (let old = gm_get r ip;
          e = (case old of Some e \<Rightarrow> e | None \<Rightarrow> zero_clientEntry);
          e1 = (if mac \<noteq> [] then e\<lparr>entry_mac := mac\<rparr> else e)
      in (old = None, gm_put ip (e1\<lparr>lastSeen := now\<rparr>) r))"

definition lookup :: "string \<Rightarrow> clientRegistry \<Rightarrow> string \<times> go_time \<times> bool" where
  "lookup ip r =
     (case gm_get r ip of None \<Rightarrow> ([], 0, False) | Some e \<Rightarrow> (entry_mac e, lastSeen e, True))"

definition setMAC :: "string \<Rightarrow> string \<Rightarrow> clientRegistry \<Rightarrow> clientRegistry" where
  "setMAC ip mac r =
     (case gm_get r ip of Some e \<Rightarrow> gm_put ip (e\<lparr>entry_mac := mac\<rparr>) r | None \<Rightarrow> r)"

definition snapshot :: "clientRegistry \<Rightarrow> (string, string) gomap" where
  "snapshot r = gm_map (\<lambda>_ e. entry_mac e) r"

text \<open>\<open>live\<close> is a Go map to booleans: an address it does not hold reads as false.\<close>

definition stale :: "go_time \<Rightarrow> duration \<Rightarrow> (string, bool) gomap \<Rightarrow> string \<Rightarrow> clientEntry \<Rightarrow> bool" where
  "stale now ttl live ip e =
     (\<not> (static e \<or> gm_get live ip = Some True \<or> time_sub now (lastSeen e) < ttl))"

definition expire ::
  "go_time \<Rightarrow> duration \<Rightarrow> (string, bool) gomap \<Rightarrow> clientRegistry \<Rightarrow> string list \<times> clientRegistry" where
  "expire now ttl live r =
     (map fst (filter (\<lambda>(ip, e). stale now ttl live ip e) r),
      gm_delete_func (stale now ttl live) r)"

definition resetNetwork :: "clientRegistry \<Rightarrow> clientRegistry" where
  "resetNetwork r =
     gm_map (\<lambda>_ e. e\<lparr>entry_mac := []\<rparr>) (gm_delete_func (\<lambda>_ e. \<not> static e) r)"

text \<open>The throttle of the discovery hook.\<close>

definition needsRefresh :: "bool \<Rightarrow> string \<Rightarrow> go_time \<Rightarrow> go_time \<Rightarrow> bool" where
  "needsRefresh known mac last_seen now =
     (\<not> known \<or> mac = [] \<or> time_sub now last_seen \<ge> clientRefreshInterval)"

lemmas registry_defs = seen_def setMAC_def expire_def resetNetwork_def lookup_def snapshot_def

section \<open>The invariant\<close>

text \<open>One entry per address, and every MAC is unknown or in canonical form.\<close>

definition known_mac :: "string \<Rightarrow> bool" where
  "known_mac m \<longleftrightarrow> m = [] \<or> canonical m"

definition reg_wf :: "clientRegistry \<Rightarrow> bool" where
  "reg_wf r \<longleftrightarrow> gm_wf r \<and> (\<forall>ip e. gm_get r ip = Some e \<longrightarrow> known_mac (entry_mac e))"

lemma known_mac_Nil [simp]: "known_mac []"
  by (simp add: known_mac_def)

lemma known_mac_canonical [simp]: "canonical m \<Longrightarrow> known_mac m"
  by (simp add: known_mac_def)

lemma reg_wf_gm [simp]: "reg_wf r \<Longrightarrow> gm_wf r"
  by (simp add: reg_wf_def)

lemma reg_wf_get: "reg_wf r \<Longrightarrow> gm_get r ip = Some e \<Longrightarrow> known_mac (entry_mac e)"
  by (simp add: reg_wf_def)

lemma reg_wf_put: "reg_wf r \<Longrightarrow> known_mac (entry_mac e) \<Longrightarrow> reg_wf (gm_put ip e r)"
  by (auto simp: reg_wf_def)

lemma reg_wf_seen [go_inv]: "reg_wf r \<Longrightarrow> known_mac mac \<Longrightarrow> reg_wf (snd (seen ip mac now r))"
  by (auto simp: seen_def Let_def zero_clientEntry_def intro!: reg_wf_put
      split: option.splits dest: reg_wf_get)

lemma reg_wf_setMAC [go_inv]: "reg_wf r \<Longrightarrow> known_mac mac \<Longrightarrow> reg_wf (setMAC ip mac r)"
  by (auto simp: setMAC_def intro!: reg_wf_put split: option.splits)

lemma reg_wf_expire [go_inv]: "reg_wf r \<Longrightarrow> reg_wf (snd (expire now ttl live r))"
  by (auto simp: reg_wf_def expire_def gm_get_delete_func split: option.splits if_splits)

lemma reg_wf_reset [go_inv]: "reg_wf r \<Longrightarrow> reg_wf (resetNetwork r)"
  by (auto simp: reg_wf_def resetNetwork_def gm_get_delete_func split: option.splits if_splits)

lemma known_mac_static_entry [simp]: "known_mac (entry_mac (static_entry lc))"
  by (auto simp: static_entry_def zero_clientEntry_def known_mac_def
      dest: CanonicalMAC_canonical split: prod.splits)

lemma static_static_entry [simp]: "static (static_entry lc)"
  by (simp add: static_entry_def zero_clientEntry_def split: prod.splits)

lemma reg_wf_new [go_inv]: "reg_wf (newClientRegistry statics)"
proof -
  have "reg_wf r \<Longrightarrow> reg_wf (fold (\<lambda>lc r. gm_put (lc_ip lc) (static_entry lc) r) statics r)" for r
    by (induction statics arbitrary: r) (simp_all add: reg_wf_put)
  moreover have "reg_wf []" by (simp add: reg_wf_def)
  ultimately show ?thesis by (simp only: newClientRegistry_def)
qed

section \<open>Reads after writes\<close>

lemma seen_new: "fst (seen ip mac now r) \<longleftrightarrow> gm_get r ip = None"
  by (simp add: seen_def Let_def)

lemma get_seen_same:
  "\<exists>e. gm_get (snd (seen ip mac now r)) ip = Some e \<and> lastSeen e = now
     \<and> entry_mac e = (if mac \<noteq> [] then mac else case gm_get r ip of Some e0 \<Rightarrow> entry_mac e0 | None \<Rightarrow> [])
     \<and> static e = (case gm_get r ip of Some e0 \<Rightarrow> static e0 | None \<Rightarrow> False)"
  by (auto simp: seen_def Let_def zero_clientEntry_def split: option.splits)

lemma get_seen_other: "ip' \<noteq> ip \<Longrightarrow> gm_get (snd (seen ip mac now r)) ip' = gm_get r ip'"
  by (simp add: seen_def Let_def)

lemma get_setMAC:
  "gm_get (setMAC ip mac r) k =
     (if k = ip then map_option (\<lambda>e. e\<lparr>entry_mac := mac\<rparr>) (gm_get r ip) else gm_get r k)"
  by (auto simp: setMAC_def split: option.splits)

lemma get_expire:
  "gm_wf r \<Longrightarrow> gm_get (snd (expire now ttl live r)) k =
     (case gm_get r k of None \<Rightarrow> None | Some e \<Rightarrow> if stale now ttl live k e then None else Some e)"
  by (simp add: expire_def gm_get_delete_func)

lemma get_reset:
  "gm_wf r \<Longrightarrow> gm_get (resetNetwork r) k =
     (case gm_get r k of None \<Rightarrow> None
      | Some e \<Rightarrow> if static e then Some (e\<lparr>entry_mac := []\<rparr>) else None)"
  by (simp add: resetNetwork_def gm_get_delete_func split: option.splits)

lemma get_snapshot: "gm_get (snapshot r) k = map_option entry_mac (gm_get r k)"
  by (simp add: snapshot_def)

lemma gm_wf_snapshot [simp]: "gm_wf (snapshot r) = gm_wf r"
  by (simp add: snapshot_def)

lemma keys_new: "dom (gm_get (newClientRegistry statics)) = lc_ip ` set statics"
proof -
  have "dom (gm_get (fold (\<lambda>lc r. gm_put (lc_ip lc) (static_entry lc) r) statics r))
      = lc_ip ` set statics \<union> dom (gm_get r)" for r
    by (induction statics arbitrary: r) auto
  then show ?thesis by (simp add: newClientRegistry_def)
qed

section \<open>Runs of registry operations\<close>

text \<open>The calls the other components make, in any order and from any goroutine.\<close>

datatype reg_op = Seen string string go_time | SetMAC string string
  | Expire go_time duration "(string, bool) gomap" | ResetNetwork

fun reg_step :: "reg_op \<Rightarrow> clientRegistry \<Rightarrow> clientRegistry" where
  "reg_step (Seen ip mac now) r = snd (seen ip mac now r)"
| "reg_step (SetMAC ip mac) r = setMAC ip mac r"
| "reg_step (Expire now ttl live) r = snd (expire now ttl live r)"
| "reg_step ResetNetwork r = resetNetwork r"

fun reg_op_ok :: "reg_op \<Rightarrow> bool" where
  "reg_op_ok (Seen ip mac now) = known_mac mac"
| "reg_op_ok (SetMAC ip mac) = known_mac mac"
| "reg_op_ok _ = True"

definition static_ips :: "clientRegistry \<Rightarrow> string set" where
  "static_ips r = {ip. \<exists>e. gm_get r ip = Some e \<and> static e}"

lemma static_ips_new: "static_ips (newClientRegistry statics) = lc_ip ` set statics"
proof -
  have put: "static_ips (gm_put ip e r) = insert ip (static_ips r)" if "static e" for ip e r
    using that by (auto simp: static_ips_def)
  have "static_ips (fold (\<lambda>lc r. gm_put (lc_ip lc) (static_entry lc) r) statics r)
      = lc_ip ` set statics \<union> static_ips r" for r
    by (induction statics arbitrary: r) (auto simp: put)
  then show ?thesis
    by (simp add: newClientRegistry_def static_ips_def)
qed

lemma reg_step_wf: "reg_wf r \<Longrightarrow> reg_op_ok opn \<Longrightarrow> reg_wf (reg_step opn r)"
  by (cases opn) (auto intro: go_inv)

lemma reg_step_static: "gm_wf r \<Longrightarrow> static_ips (reg_step opn r) = static_ips r"
proof (cases opn)
  case (Seen ip mac now)
  then show ?thesis
    by (auto simp: static_ips_def seen_def Let_def zero_clientEntry_def split: option.splits)
qed (auto simp: static_ips_def get_setMAC get_expire get_reset stale_def split: option.splits if_splits)

interpretation registry: machine_frame reg_step reg_op_ok reg_wf "\<lambda>_. True" static_ips
  by unfold_locales (auto simp: reg_step_static intro: reg_step_wf)

section \<open>Properties\<close>

text \<open>
  Whatever sequence of registry operations runs, in whatever order the goroutines make
  them, the addresses of the configured clients stay exactly the registry's static entries:
  none expires or is dropped by a network change, and no discovered client becomes one.
\<close>

theorem static_clients_stay:
  assumes "list_all reg_op_ok ops"
  shows "static_ips (fold reg_step ops (newClientRegistry statics)) = lc_ip ` set statics"
proof -
  show ?thesis
    using registry.run_proj [OF reg_wf_new assms] static_ips_new by (simp add: list_all_iff)
qed

theorem static_clients_stay_witness:
  "static_ips (fold reg_step
     [Seen ''192.168.0.214'' ''12:49:61:d3:72:48'' 5, ResetNetwork, Expire 9 1 []]
     (newClientRegistry [\<lparr>lc_ip = ''192.168.0.42'', lc_mac = []\<rparr>])) = {''192.168.0.42''}"
proof -
  have "canonical ''12:49:61:d3:72:48''"
    unfolding canonical_def by code_simp
  then show ?thesis by (subst static_clients_stay) simp_all
qed

text \<open>
  A MAC in the registry is unknown or canonical after any sequence of operations that
  bring in such MACs, whatever spelling the configuration used.
\<close>

theorem registry_macs_canonical:
  assumes "list_all reg_op_ok ops"
    and "gm_get (fold reg_step ops (newClientRegistry statics)) ip = Some e"
  shows "entry_mac e = [] \<or> CanonicalMAC (entry_mac e) = (entry_mac e, True)"
  using reg_wf_get [OF registry.run_inv [OF reg_wf_new assms(1)] assms(2)]
  by (simp add: known_mac_def canonical_def)

theorem registry_macs_canonical_witness:
  "entry_mac (static_entry \<lparr>lc_ip = ''192.168.0.42'', lc_mac = ''72-CE-39-12-45-0F''\<rparr>) = []
   \<or> CanonicalMAC (entry_mac (static_entry \<lparr>lc_ip = ''192.168.0.42'', lc_mac = ''72-CE-39-12-45-0F''\<rparr>))
      = (entry_mac (static_entry \<lparr>lc_ip = ''192.168.0.42'', lc_mac = ''72-CE-39-12-45-0F''\<rparr>), True)"
  by (rule registry_macs_canonical
        [of "[]" "[\<lparr>lc_ip = ''192.168.0.42'', lc_mac = ''72-CE-39-12-45-0F''\<rparr>]" "''192.168.0.42''"])
    (simp_all add: newClientRegistry_def)

text \<open>
  C21: expiry removes exactly the discovered clients that have no open connection and were not
  seen for the time to live, reports each of them once, and leaves every other entry as it is.
\<close>

theorem expire_exact:
  assumes "reg_wf r"
  shows "distinct (fst (expire now ttl live r))
     \<and> (\<forall>ip. gm_get (snd (expire now ttl live r)) ip =
          (if ip \<in> set (fst (expire now ttl live r)) then None else gm_get r ip))
     \<and> (\<forall>ip. ip \<in> set (fst (expire now ttl live r)) \<longleftrightarrow>
          (\<exists>e. gm_get r ip = Some e \<and> \<not> static e \<and> gm_get live ip \<noteq> Some True
               \<and> ttl \<le> time_sub now (lastSeen e)))"
proof -
  have wf: "gm_wf r" using assms by simp
  have d: "distinct (fst (expire now ttl live r))"
    using wf by (simp add: expire_def gm_wf_def distinct_map_filter)
  have m: "ip \<in> set (fst (expire now ttl live r)) \<longleftrightarrow>
      (\<exists>e. gm_get r ip = Some e \<and> stale now ttl live ip e)" for ip
    using gm_get_mem [OF wf] by (force simp: expire_def)
  show ?thesis
    using d by (auto simp: m get_expire [OF wf] stale_def not_less split: option.splits)
qed

theorem expire_exact_witness:
  "fst (expire (1000 + discoveredClientTTL) discoveredClientTTL [(''192.168.0.7'', True)]
     (snd (seen ''192.168.0.7'' [] 1000 (snd (seen ''192.168.0.214'' [] 1000 []))))) = [''192.168.0.214'']
   \<and> distinct (fst (expire (1000 + discoveredClientTTL) discoveredClientTTL [(''192.168.0.7'', True)]
     (snd (seen ''192.168.0.7'' [] 1000 (snd (seen ''192.168.0.214'' [] 1000 []))))))"
proof -
  have wf: "reg_wf (snd (seen ''192.168.0.7'' [] 1000 (snd (seen ''192.168.0.214'' [] 1000 []))))"
    by (intro go_inv) (simp_all add: reg_wf_def)
  show ?thesis
    using expire_exact [OF wf, of "1000 + discoveredClientTTL" discoveredClientTTL "[(''192.168.0.7'', True)]"]
    by (simp add: expire_def seen_def zero_clientEntry_def gm_put_def stale_def time_sub_def
        discoveredClientTTL_def minute_def)
qed

text \<open>
  After a network change the registry holds exactly the configured clients, none with a
  MAC, so a MAC learned or configured for the old network is never pinned in the new one.
\<close>

theorem resetNetwork_forgets:
  assumes "reg_wf r"
  shows "gm_get (snapshot (resetNetwork r)) ip = (if ip \<in> static_ips r then Some [] else None)"
  using assms by (auto simp: get_snapshot get_reset static_ips_def split: option.splits)

theorem resetNetwork_forgets_witness:
  "gm_get (snapshot (resetNetwork (newClientRegistry
     [\<lparr>lc_ip = ''192.168.0.42'', lc_mac = ''72:ce:39:12:45:0f''\<rparr>]))) ''192.168.0.42'' = Some []"
  using resetNetwork_forgets [OF reg_wf_new, of "[\<lparr>lc_ip = ''192.168.0.42'', lc_mac = ''72:ce:39:12:45:0f''\<rparr>]"]
  by (simp add: static_ips_def newClientRegistry_def)

text \<open>
  Recording a sighting never loses a MAC: an empty one keeps what is known, a new one
  replaces it, the sighting time and the static mark behave as documented, and no other entry
  changes. The client counts as new exactly when it was not registered.
\<close>

theorem seen_records:
  "fst (seen ip mac now r) = (\<not> snd (snd (lookup ip r)))
   \<and> (\<forall>k. lookup k (snd (seen ip mac now r)) =
        (if k = ip then ((if mac \<noteq> [] then mac else fst (lookup ip r)), now, True)
         else lookup k r))
   \<and> static_ips (snd (seen ip mac now r)) = static_ips r"
  by (auto simp: seen_def lookup_def Let_def zero_clientEntry_def static_ips_def
      split: option.splits)

end
