(* ===== verification/Conns.thy ===== *)
theory Conns
  imports Shell
begin

text \<open>
  The connection tracker of \<open>internal/service/proxy.go\<close>: the live client connections, each
  with the listener that accepted it. Closing a connection is an effect outside the tracker,
  so the operations that close return the connections they closed.
\<close>

section \<open>State\<close>

text \<open>
  A connection is identified by its handle; its peer is a TCP address (as the socket reports
  it, possibly IPv4 in IPv6 form) or something the code cannot read an address from.
\<close>

datatype remote_addr = TCPAddr addr nat | OtherRemote

record conn =
  conn_id :: nat
  RemoteAddr :: remote_addr

type_synonym connTracker = "(conn, bool) gomap"

section \<open>Operations\<close>

definition newConnTracker :: connTracker where "newConnTracker = []"

definition conns_add :: "conn \<Rightarrow> bool \<Rightarrow> connTracker \<Rightarrow> connTracker" where
  "conns_add c lan ct = gm_put c lan ct"

definition conns_remove :: "conn \<Rightarrow> connTracker \<Rightarrow> connTracker" where
  "conns_remove c ct = gm_del c ct"

text \<open>The count, the closed connections, and the tracker after it.\<close>

definition closeAll :: "connTracker \<Rightarrow> nat \<times> conn list \<times> connTracker" where
  "closeAll ct = (length ct, map fst ct, [])"

text \<open>The loop deletes while it ranges over the map, which Go allows for visited keys.\<close>

fun closeLAN_loop :: "(conn \<times> bool) list \<Rightarrow> nat \<times> conn list \<times> connTracker \<Rightarrow> nat \<times> conn list \<times> connTracker" where
  "closeLAN_loop [] (n, closed, ct) = (n, closed, ct)"
| "closeLAN_loop ((c, lan) # rest) (n, closed, ct) =
     (if \<not> lan then closeLAN_loop rest (n, closed, ct)
      else closeLAN_loop rest (Suc n, closed @ [c], gm_del c ct))"

definition closeLAN :: "connTracker \<Rightarrow> nat \<times> conn list \<times> connTracker" where
  "closeLAN ct = closeLAN_loop ct (0, [], ct)"

definition remoteAddrPort :: "conn \<Rightarrow> (addr \<times> nat) option" where
  "remoteAddrPort c =
     (case RemoteAddr c of
        TCPAddr a port \<Rightarrow> Some (unmap a, port)
      | OtherRemote \<Rightarrow> None)"

definition remoteIPs :: "connTracker \<Rightarrow> (string, bool) gomap" where
  "remoteIPs ct =
     fold (\<lambda>(c, _) ips. case remoteAddrPort c of
             Some (a, _) \<Rightarrow> gm_put (addr_string a) True ips | None \<Rightarrow> ips) ct []"

section \<open>Lemmas\<close>

lemma conns_wf [go_inv]:
  "gm_wf ct \<Longrightarrow> gm_wf (conns_add c lan ct)" "gm_wf ct \<Longrightarrow> gm_wf (conns_remove c ct)"
  by (simp_all add: conns_add_def conns_remove_def)

lemma closeLAN_loop_result:
  "closeLAN_loop xs (n, closed, ct) =
     (n + length (filter snd xs), closed @ map fst (filter snd xs),
      fold (\<lambda>(c, lan). if lan then gm_del c else id) xs ct)"
  by (induction xs "(n, closed, ct)" arbitrary: n closed ct rule: closeLAN_loop.induct) auto

lemma gm_get_fold_del:
  "gm_get (fold (\<lambda>(c, lan). if lan then gm_del c else id) xs ct) k =
     (if (k, True) \<in> set xs then None else gm_get ct k)"
  by (induction xs arbitrary: ct) (auto split: if_splits)

lemma gm_wf_fold_del:
  "gm_wf ct \<Longrightarrow> gm_wf (fold (\<lambda>(c, lan). if lan then gm_del c else id) xs ct)"
  by (induction xs arbitrary: ct) auto

lemma closeLAN_wf [go_inv]: "gm_wf ct \<Longrightarrow> gm_wf (snd (snd (closeLAN ct)))"
  by (simp add: closeLAN_def closeLAN_loop_result gm_wf_fold_del)

lemma get_closeLAN:
  "gm_wf ct \<Longrightarrow> gm_get (snd (snd (closeLAN ct))) c =
     (if gm_get ct c = Some True then None else gm_get ct c)"
  by (simp add: closeLAN_def closeLAN_loop_result gm_get_fold_del gm_get_mem)

lemma get_remoteIPs:
  "gm_get (remoteIPs ct) ip = Some True \<longleftrightarrow>
     (\<exists>c \<in> fst ` set ct. \<exists>a p. remoteAddrPort c = Some (a, p) \<and> ip = addr_string a)"
proof -
  have "gm_get (fold (\<lambda>(c, _) ips. case remoteAddrPort c of
             Some (a, _) \<Rightarrow> gm_put (addr_string a) True ips | None \<Rightarrow> ips) ct m) ip = Some True \<longleftrightarrow>
     gm_get m ip = Some True \<or>
     (\<exists>c \<in> fst ` set ct. \<exists>a p. remoteAddrPort c = Some (a, p) \<and> ip = addr_string a)" for m
    by (induction ct arbitrary: m) (auto split: option.splits if_splits)
  then show ?thesis by (simp add: remoteIPs_def)
qed

text \<open>The tracker as a state machine.\<close>

datatype conn_op = ConnAdd conn bool | ConnRemove conn | CloseAll | CloseLAN

fun conn_step :: "conn_op \<Rightarrow> connTracker \<Rightarrow> connTracker" where
  "conn_step (ConnAdd c lan) ct = conns_add c lan ct"
| "conn_step (ConnRemove c) ct = conns_remove c ct"
| "conn_step CloseAll ct = snd (snd (closeAll ct))"
| "conn_step CloseLAN ct = snd (snd (closeLAN ct))"

interpretation tracker: machine conn_step "\<lambda>_. True" gm_wf
proof (unfold_locales, goal_cases)
  case (1 ct opn)
  then show ?case by (cases opn) (auto simp: closeAll_def intro: go_inv)
qed

section \<open>Properties\<close>

text \<open>
  C20: After a network change exactly the connections of the LAN listener are closed, each of
  them once; the loopback connections stay tracked as they are, and the count is right. This
  holds for every state of the tracker that its operations can produce.
\<close>

theorem closeLAN_exact:
  assumes "ct = fold conn_step ops newConnTracker"
  shows "case closeLAN ct of (n, closed, ct') \<Rightarrow>
     distinct closed \<and> n = length closed
     \<and> (\<forall>c. c \<in> set closed \<longleftrightarrow> gm_get ct c = Some True)
     \<and> (\<forall>c. gm_get ct' c = (if c \<in> set closed then None else gm_get ct c))"
proof -
  have wf: "gm_wf ct"
    unfolding assms newConnTracker_def by (rule tracker.run_inv) (simp_all add: list_all_iff)
  have mem: "c \<in> fst ` set (filter snd ct) \<longleftrightarrow> gm_get ct c = Some True" for c
    by (force simp: gm_get_mem [OF wf])
  have "distinct (map fst (filter snd ct))"
    using wf by (simp add: gm_wf_def distinct_map_filter)
  then show ?thesis
    using get_closeLAN [OF wf] mem
    by (auto simp: closeLAN_def closeLAN_loop_result split: prod.splits)
qed

theorem closeLAN_exact_witness:
  "case closeLAN (fold conn_step
      [ConnAdd \<lparr>conn_id = 1, RemoteAddr = TCPAddr (V4 0xC0A8002A) 50000\<rparr> True,
       ConnAdd \<lparr>conn_id = 2, RemoteAddr = TCPAddr (V4 0x7F000001) 50001\<rparr> False] newConnTracker) of
     (n, closed, ct') \<Rightarrow> n = length closed \<and> distinct closed"
  using closeLAN_exact [OF refl, of "[ConnAdd \<lparr>conn_id = 1, RemoteAddr = TCPAddr (V4 0xC0A8002A) 50000\<rparr> True,
       ConnAdd \<lparr>conn_id = 2, RemoteAddr = TCPAddr (V4 0x7F000001) 50001\<rparr> False]"]
  by (auto split: prod.splits)

end
