(* ===== verification/Cisco.thy ===== *)
theory Cisco
  imports Shell
begin

text \<open>
  The package \<open>internal/utils/cisco\<close>: the \<open>vpn\<close> command line client and \<open>pfctl\<close>. The two
  parsers read free text; the operations combine an exit status with what the text says.
\<close>

section \<open>States and errors\<close>

definition ciscoPath :: string where "ciscoPath = ''/opt/cisco/secureclient/bin/vpn''"

definition StateConnected :: string where "StateConnected = ''Connected''"
definition StateDisconnected :: string where "StateDisconnected = ''Disconnected''"
definition StateReconnecting :: string where "StateReconnecting = ''Reconnecting''"
definition StateUnknown :: string where "StateUnknown = ''Unknown''"

lemmas state_defs =
  StateConnected_def StateDisconnected_def StateReconnecting_def StateUnknown_def

definition ErrNotConnected :: go_error where
  "ErrNotConnected = Sentinel ''vpn connection not established''"

definition ErrAcquired :: go_error where
  "ErrAcquired = Sentinel
     ''connect capability is unavailable, another Cisco application acquired it''"

text \<open>The Russian client's words for connected and disconnected, in UTF-8.\<close>

definition connected_ru :: string where
  "connected_ru =
     [CHR 0xD0, CHR 0x9F, CHR 0xD0, CHR 0xBE, CHR 0xD0, CHR 0xB4, CHR 0xD0, CHR 0xBA,
      CHR 0xD0, CHR 0xBB, CHR 0xD1, CHR 0x8E, CHR 0xD1, CHR 0x87, CHR 0xD0, CHR 0xB5,
      CHR 0xD0, CHR 0xBD, CHR 0xD0, CHR 0xBE]"

definition disconnected_ru :: string where
  "disconnected_ru =
     [CHR 0xD0, CHR 0x9E, CHR 0xD1, CHR 0x82, CHR 0xD0, CHR 0xBA, CHR 0xD0, CHR 0xBB,
      CHR 0xD1, CHR 0x8E, CHR 0xD1, CHR 0x87, CHR 0xD0, CHR 0xB5, CHR 0xD0, CHR 0xBD,
      CHR 0xD0, CHR 0xBE]"

section \<open>Parsing the output\<close>

definition state_prefix :: string where "state_prefix = ''>> state: ''"

definition state_line :: "string \<Rightarrow> string option" where
  "state_line line =
     (case cut_prefix (trim_space line) state_prefix of
        (state, True) \<Rightarrow> Some (fst (cut state '' ''))
      | (_, False) \<Rightarrow> None)"

definition classify_state :: "string \<Rightarrow> string" where
  "classify_state word =
     (if word = connected_ru \<or> word = ''Connected'' then StateConnected
      else if word = disconnected_ru \<or> word = ''Disconnected'' then StateDisconnected
      else if word = ''Reconnecting'' then StateReconnecting
      else StateUnknown)"

definition parseState :: "string \<Rightarrow> string" where
  "parseState output =
     classify_state
       (foldl (\<lambda>last line. case state_line line of Some st \<Rightarrow> st | None \<Rightarrow> last) []
         (split_on CHR 0x0A output))"

definition hasAcquiredError :: "string \<Rightarrow> bool" where
  "hasAcquiredError output =
     list_ex (\<lambda>line. has_prefix ''>> error:'' (trim_space line)
                \<and> str_contains (trim_space line) ''Connect capability is unavailable'')
       (split_on CHR 0x0A output)"

section \<open>The operations\<close>

definition Status :: "'w os \<Rightarrow> go_ctx \<Rightarrow> 'w \<Rightarrow> (string \<times> go_error option) \<times> 'w" where
  "Status os ctx w =
     (case Run os ctx ciscoPath [''-s'', ''state''] w of
        ((out, Some err), w') \<Rightarrow>
          ((StateUnknown, Some (Wrap ''vpn state check error: '' err [])), w')
      | ((out, None), w') \<Rightarrow> ((parseState out, None), w'))"

text \<open>
  \<open>Connect\<close> writes the credentials to stdin, looks for the conflict message before the exit
  status, and after a clean exit asks the agent for its state.
\<close>

definition Connect ::
  "'w os \<Rightarrow> go_ctx \<Rightarrow> string \<Rightarrow> string \<Rightarrow> string \<Rightarrow> 'w \<Rightarrow> go_error option \<times> 'w" where
  "Connect os ctx profile user password w =
     (case os_exec os ctx ciscoPath [''-s'', ''connect'', profile]
             (user @ [CHR 0x0A] @ password @ [CHR 0x0A] @ ''y'' @ [CHR 0x0A]) w of
        ((output, err), w1) \<Rightarrow>
          if hasAcquiredError output then (Some ErrAcquired, w1)
          else (case err of
            Some e \<Rightarrow>
              (Some (Wrap ''vpn connection error: '' e ('': '' @ trim_space output)), w1)
          | None \<Rightarrow>
              (case Status os ctx w1 of
                 ((state, Some e), w2) \<Rightarrow> (Some e, w2)
               | ((state, None), w2) \<Rightarrow>
                   if state \<noteq> StateConnected
                   then (Some (Wrap [] ErrNotConnected
                                ('' (state '' @ state @ ''): '' @ trim_space output)), w2)
                   else (None, w2))))"

definition Disconnect :: "'w os \<Rightarrow> go_ctx \<Rightarrow> 'w \<Rightarrow> go_error option \<times> 'w" where
  "Disconnect os ctx w =
     (case Run os ctx ciscoPath [''-s'', ''disconnect''] w of
        ((out, Some err), w') \<Rightarrow> (Some (Wrap ''vpn disconnection error: '' err []), w')
      | ((out, None), w') \<Rightarrow> (None, w'))"

definition DisablePF :: "'w os \<Rightarrow> go_ctx \<Rightarrow> 'w \<Rightarrow> go_error option \<times> 'w" where
  "DisablePF os ctx w =
     (case Run os ctx ''pfctl'' [''-d''] w of
        ((out, err), w') \<Rightarrow>
          (if err \<noteq> None \<and> str_contains out ''pf not enabled'' then None else err, w'))"

section \<open>Lemmas\<close>

text \<open>
  The specification of the state parser: the last state line counts, and every other line is
  ignored.
\<close>

lemma foldl_state_irrelevant:
  "\<forall>l \<in> set ls. state_line l = None \<Longrightarrow>
   foldl (\<lambda>last line. case state_line line of Some st \<Rightarrow> st | None \<Rightarrow> last) s ls = s"
  by (induction ls) auto

lemma parseState_lines:
  "ls \<noteq> [] \<Longrightarrow> \<forall>l \<in> set ls. CHR 0x0A \<notin> set l \<Longrightarrow>
   parseState (join_with [CHR 0x0A] ls) = classify_state
     (foldl (\<lambda>last line. case state_line line of Some st \<Rightarrow> st | None \<Rightarrow> last) [] ls)"
  by (simp add: parseState_def split_join)

lemma classify_state_range:
  "classify_state s \<in> {StateConnected, StateDisconnected, StateReconnecting, StateUnknown}"
  by (simp add: classify_state_def)

lemma states_distinct:
  "distinct [StateConnected, StateDisconnected, StateReconnecting, StateUnknown]"
  by (simp add: state_defs)

lemma classify_connected: "classify_state s = StateConnected \<longleftrightarrow>
    s = connected_ru \<or> s = ''Connected''"
  by (simp add: classify_state_def state_defs)

lemma Status_Some: "Status os ctx w = ((st, Some e), w') \<Longrightarrow> st = StateUnknown"
  by (auto simp: Status_def split: prod.splits option.splits)

lemma Status_range:
  "fst (fst (Status os ctx w)) \<in>
     {StateConnected, StateDisconnected, StateReconnecting, StateUnknown}"
  using classify_state_range by (auto simp: Status_def parseState_def split: prod.splits option.splits)

text \<open>An indented state line with a one-word state and anything after a space.\<close>

definition state_text :: "string \<Rightarrow> string \<Rightarrow> string \<Rightarrow> string" where
  "state_text pad w rest = pad @ state_prefix @ w @ rest"

definition detail_text :: "string \<Rightarrow> bool" where
  "detail_text rest \<longleftrightarrow> rest = [] \<or> (hd rest = CHR '' '' \<and> plain_char (last rest))"

lemma cut_found_word:
  assumes "list_all plain_char w" and "detail_text rest"
  shows "cut_found (w @ rest) '' '' = (if rest = [] then None else Some (w, tl rest))"
  using assms(1)
proof (induction w)
  case Nil
  with assms(2) show ?case by (cases rest) (auto simp: detail_text_def)
next
  case (Cons c w)
  then have "c \<noteq> CHR '' ''" by (auto simp: plain_char_def)
  with Cons show ?case by auto
qed

lemma state_line_word:
  assumes "plain_word w" and "detail_text rest" and "list_all ascii_space pad"
  shows "state_line (state_text pad w rest) = Some w"
proof -
  have w: "w \<noteq> []" "list_all plain_char w" using assms(1) by (auto simp: plain_word_def)
  have "plain_char (last (w @ rest))"
    using assms(2) w by (auto simp: last_append list_all_iff detail_text_def)
  then have l: "plain_char (last (state_prefix @ w @ rest))"
    using w by (simp add: state_prefix_def)
  have h: "plain_char (hd (state_prefix @ w @ rest))"
    by (simp add: state_prefix_def plain_char_def)
  have "fst (cut (w @ rest) '' '') = w"
    using cut_found_word [OF w(2) assms(2)] by (auto simp: cut_def)
  then show ?thesis
    using trim_space_plain [OF h l] trim_space_padded [OF assms(3)]
    by (simp add: state_line_def state_text_def)
qed

lemma Disconnect_world:
  "snd (Disconnect os ctx w) = snd (os_exec os ctx ciscoPath [''-s'', ''disconnect''] [] w)"
  by (auto simp: Disconnect_def Run_def split: prod.splits option.splits)

lemma Connect_acquired:
  "os_exec os ctx ciscoPath [''-s'', ''connect'', profile]
     (user @ [CHR 0x0A] @ password @ [CHR 0x0A] @ ''y'' @ [CHR 0x0A]) w = ((output, err), w1) \<Longrightarrow>
   hasAcquiredError output \<Longrightarrow> Connect os ctx profile user password w = (Some ErrAcquired, w1)"
  by (simp add: Connect_def)

section \<open>Properties\<close>

text \<open>
  C32: the state the client prints last is the one reported: whatever lines come before the
  last state line, and whatever other lines follow it, its first word decides.
\<close>

theorem parseState_last_wins:
  assumes lines: "\<forall>l \<in> set (before @ state_text pad w rest # after). CHR 0x0A \<notin> set l"
    and word: "plain_word w" "detail_text rest" "list_all ascii_space pad"
    and after: "\<forall>l \<in> set after. state_line l = None"
  shows "parseState (join_with [CHR 0x0A] (before @ state_text pad w rest # after))
           = classify_state w"
proof -
  have "foldl (\<lambda>last line. case state_line line of Some st \<Rightarrow> st | None \<Rightarrow> last) s
      (state_text pad w rest # after) = w" for s
    using state_line_word [OF word] foldl_state_irrelevant [OF after] by simp
  then show ?thesis
    by (subst parseState_lines) (use lines in simp_all)
qed

theorem parseState_last_wins_witness:
  "parseState (join_with [CHR 0x0A]
     ([''  >> state: Disconnected'', ''>> notice: hello'']
      @ state_text ''  '' ''Connected'' '' (some detail)'' # [''VPN>'', []])) = StateConnected"
proof -
  have "classify_state ''Connected'' = StateConnected"
    by (simp add: classify_state_def)
  moreover have "state_line ''VPN>'' = None" and "state_line [] = None"
    by code_simp+
  ultimately show ?thesis
    using parseState_last_wins [of "[''  >> state: Disconnected'', ''>> notice: hello'']"
        "''  ''" "''Connected''" "'' (some detail)''" "[''VPN>'', []]"]
    by (simp add: state_text_def state_prefix_def plain_word_def plain_char_def detail_text_def
        ascii_space_def)
qed

text \<open>
  \<open>Connect\<close> reports success exactly when the client printed no conflict message, exited
  cleanly, and a state query right after it answered Connected. The tail of the connect
  output itself is never trusted.
\<close>

theorem Connect_succeeds_iff:
  "fst (Connect os ctx profile user password w) = None \<longleftrightarrow>
     (let ((output, err), w1) =
            os_exec os ctx ciscoPath [''-s'', ''connect'', profile]
              (user @ [CHR 0x0A] @ password @ [CHR 0x0A] @ ''y'' @ [CHR 0x0A]) w
      in \<not> hasAcquiredError output \<and> err = None
         \<and> fst (Status os ctx w1) = (StateConnected, None))"
  by (auto simp: Connect_def Let_def split: prod.splits option.splits)

text \<open>
  Turning the packet filter off succeeds when \<open>pfctl -d\<close> does, and also when it fails only
  because the filter is already off.
\<close>

theorem DisablePF_succeeds_iff:
  "fst (DisablePF os ctx w) = None \<longleftrightarrow>
     (let ((out, err), w') = os_exec os ctx ''pfctl'' [''-d''] [] w
      in err = None \<or> str_contains out ''pf not enabled'')"
  by (auto simp: DisablePF_def Run_def Let_def split: prod.splits option.splits)

end
