(* ===== verification/Service.thy ===== *)
theory Service
  imports Clients Conns Cisco
begin

text \<open>
  The shared state of \<open>internal/service\<close> (\<open>service.go\<close> and the snapshots of \<open>lan.go\<close>): the
  options, the status every goroutine reads, the client registry, the connection tracker and
  the two channels. A function passed to \<open>setStatus\<close> runs under the mutex, so an update of the
  status is one step.
\<close>

section \<open>Options and status\<close>

record Options =
  CiscoUser :: string
  CiscoPassword :: string
  CiscoProfile :: string
  SocksUser :: string
  SocksPassword :: string
  DNSServers :: "string list"
  LANClients :: "LANClient list"
  LANDiscovery :: bool

record State =
  LANSubnet :: netip_prefix
  LANAddr :: addr
  LANInterface :: string
  CiscoConnected :: bool
  PFDisabled :: bool
  ProxyStarted :: bool
  DNSStarted :: bool

definition zero_State :: State where
  "zero_State = \<lparr>LANSubnet = zero_prefix, LANAddr = NoAddr, LANInterface = [],
     CiscoConnected = False, PFDisabled = False, ProxyStarted = False, DNSStarted = False\<rparr>"

text \<open>
  \<open>ciscoReady\<close> is the channel that is closed once, \<open>lanCheck\<close> the channel with room for one
  pending check; both are booleans here: closed, and pending.
\<close>

record service =
  clients :: clientRegistry
  conns :: connTracker
  ciscoReady :: bool
  lanCheck :: bool
  status :: State
  opts :: Options

definition New :: "Options \<Rightarrow> service" where
  "New o1 = \<lparr>clients = newClientRegistry (LANClients o1), conns = newConnTracker,
     ciscoReady = False, lanCheck = False, status = zero_State, opts = o1\<rparr>"

definition GetState :: "service \<Rightarrow> State" where "GetState s = status s"

definition setStatus :: "(State \<Rightarrow> State) \<Rightarrow> service \<Rightarrow> service" where
  "setStatus fn s = s\<lparr>status := fn (status s)\<rparr>"

text \<open>Closing a channel that is closed already panics.\<close>

definition close_ciscoReady :: "service \<Rightarrow> service option" where
  "close_ciscoReady s = (if ciscoReady s then None else Some (s\<lparr>ciscoReady := True\<rparr>))"

section \<open>The LAN in the status\<close>

record lanSnapshot =
  snap_subnet :: netip_prefix
  snap_iface :: string

definition zero_snapshot :: lanSnapshot where
  "zero_snapshot = \<lparr>snap_subnet = zero_prefix, snap_iface = []\<rparr>"

definition prefix_string :: "netip_prefix \<Rightarrow> string" where
  "prefix_string p =
     (case p of Prefix a (Some b) \<Rightarrow> addr_string a @ ''/'' @ decimal b | Prefix a None \<Rightarrow> ''invalid Prefix'')"

definition lanSnapshot_String :: "lanSnapshot \<Rightarrow> string" where
  "lanSnapshot_String l =
     (if snap_iface l = [] then ''none'' else snap_iface l @ ''/'' @ prefix_string (snap_subnet l))"

definition lan_snapshot :: "service \<Rightarrow> lanSnapshot" where
  "lan_snapshot s = \<lparr>snap_subnet = LANSubnet (GetState s), snap_iface = LANInterface (GetState s)\<rparr>"

definition lanChanged :: "lanSnapshot \<Rightarrow> lanSnapshot \<Rightarrow> bool" where
  "lanChanged cur next = (snap_iface next \<noteq> [] \<and> next \<noteq> cur)"

text \<open>A send that does not block: it leaves at most one check pending.\<close>

definition notifyLANCheck :: "service \<Rightarrow> service" where
  "notifyLANCheck s = s\<lparr>lanCheck := True\<rparr>"

definition warnSelfClients :: "addr \<Rightarrow> service \<Rightarrow> string list" where
  "warnSelfClients self s =
     map lc_ip (filter (\<lambda>lc. lc_ip lc = addr_string self) (LANClients (opts s)))"

definition discoveryEnabled :: "service \<Rightarrow> bool" where
  "discoveryEnabled s = (SocksUser (opts s) \<noteq> [] \<or> LANDiscovery (opts s))"

text \<open>\<open>sleepCtx\<close> waits for the timer or the context, whichever the select picks.\<close>

definition sleepCtx :: "'w os \<Rightarrow> go_ctx \<Rightarrow> duration \<Rightarrow> 'w \<Rightarrow> bool \<times> 'w" where
  "sleepCtx os ctx d w = os_sleep os ctx d w"

section \<open>The ARP operations\<close>

text \<open>The two shell operations of the pinner and the discovery hooks, replaceable in tests.\<close>

record 'w pinOps =
  op_lookup :: "string \<Rightarrow> 'w \<Rightarrow> (ArpEntry \<times> bool) \<times> 'w"
  op_pin :: "string \<Rightarrow> string \<Rightarrow> string \<Rightarrow> 'w \<Rightarrow> go_error option \<times> 'w"

definition route_ops :: "'w os \<Rightarrow> go_ctx \<Rightarrow> 'w pinOps" where
  "route_ops os ctx = \<lparr>op_lookup = LookupARP os ctx, op_pin = Pin os ctx\<rparr>"

text \<open>
  The same operations with a record of the calls to \<open>pin\<close>: address, MAC, interface. The
  properties of the pinner and of the SYN hook are about these calls.
\<close>

type_synonym pin_log = "(string \<times> string \<times> string) list"

definition log_pins :: "'w pinOps \<Rightarrow> ('w \<times> pin_log) pinOps" where
  "log_pins ops =
     \<lparr>op_lookup = (\<lambda>ip (w, l). case op_lookup ops ip w of (r, w') \<Rightarrow> (r, (w', l))),
      op_pin = (\<lambda>ip mac iface (w, l).
        case op_pin ops ip mac iface w of (r, w') \<Rightarrow> (r, (w', l @ [(ip, mac, iface)])))\<rparr>"

text \<open>The clock beside the record.\<close>

definition log_now :: "('w \<Rightarrow> go_time \<times> 'w) \<Rightarrow> 'w \<times> pin_log \<Rightarrow> go_time \<times> ('w \<times> pin_log)" where
  "log_now now = (\<lambda>(w, l). case now w of (t, w') \<Rightarrow> (t, (w', l)))"

abbreviation arp_sound :: "'w pinOps \<Rightarrow> bool" where
  "arp_sound ops \<equiv> arp_source (op_lookup ops)"

lemma arp_sound_route: "arp_sound (route_ops os ctx)"
  by (simp add: route_ops_def kernel_arp.arp_source_axioms)

lemma arp_sound_log: "arp_sound ops \<Longrightarrow> arp_sound (log_pins ops)"
  unfolding arp_source_def log_pins_def by (fastforce split: prod.splits)

section \<open>Lemmas\<close>

lemma setStatus_simps [simp]:
  "clients (setStatus f s) = clients s" "conns (setStatus f s) = conns s"
  "ciscoReady (setStatus f s) = ciscoReady s" "lanCheck (setStatus f s) = lanCheck s"
  "opts (setStatus f s) = opts s" "status (setStatus f s) = f (status s)"
  by (simp_all add: setStatus_def)

lemma notifyLANCheck_simps [simp]:
  "clients (notifyLANCheck s) = clients s" "conns (notifyLANCheck s) = conns s"
  "ciscoReady (notifyLANCheck s) = ciscoReady s" "lanCheck (notifyLANCheck s) = True"
  "opts (notifyLANCheck s) = opts s" "status (notifyLANCheck s) = status s"
  by (simp_all add: notifyLANCheck_def)

lemma lan_snapshot_zero_iff: "snap_iface (lan_snapshot s) = LANInterface (status s)"
  by (simp add: lan_snapshot_def GetState_def)

lemma warnSelfClients_self: "ip \<in> set (warnSelfClients self s) \<Longrightarrow> ip = addr_string self"
  by (auto simp: warnSelfClients_def)

section \<open>A sample configuration\<close>

definition sample_opts :: Options where
  "sample_opts = \<lparr>CiscoUser = ''u'', CiscoPassword = ''p'', CiscoProfile = ''vpn'',
     SocksUser = ''proxy'', SocksPassword = ''secret'', DNSServers = [''10.0.0.1''],
     LANClients = [\<lparr>lc_ip = ''192.168.0.42'', lc_mac = ''72:ce:39:12:45:0f''\<rparr>],
     LANDiscovery = False\<rparr>"

definition sample_lan_state :: State where
  "sample_lan_state = zero_State\<lparr>LANSubnet := Prefix (V4 0xC0A80000) (Some 24),
     LANAddr := V4 0xC0A80069, LANInterface := ''en0'', CiscoConnected := True\<rparr>"

definition sample_service :: service where
  "sample_service = (New sample_opts)\<lparr>status := sample_lan_state, ciscoReady := True\<rparr>"

lemma sample_service_wf: "reg_wf (clients sample_service)"
  by (simp add: sample_service_def New_def reg_wf_new)

end
