(* ===== verification/Supervisor.thy ===== *)
theory Supervisor
  imports Service
begin

text \<open>
  The VPN supervisor of \<open>internal/service/cisco.go\<close>: it polls the agent, connects with an
  exponential backoff, kicks an agent that is stuck in reconnecting, keeps the packet filter
  off while the VPN is up, tracks the LAN interface and closes \<open>ciscoReady\<close> once. A tick is a
  function from the supervisor, the service and the world; \<open>None\<close> is a panic.
\<close>

section \<open>State\<close>

definition ciscoPollInterval :: duration where "ciscoPollInterval = 5 * second"
definition ciscoMaxConnectDelay :: duration where "ciscoMaxConnectDelay = minute"
definition ciscoReconnectGrace :: duration where "ciscoReconnectGrace = 2 * minute"
definition ciscoDisconnectTimeout :: duration where "ciscoDisconnectTimeout = 30 * second"

record ciscoSupervisor =
  reconnectingSince :: go_time
  pendingLAN :: lanSnapshot
  connectDelay :: duration
  readyNotified :: bool
  connectedByUs :: bool

definition new_supervisor :: ciscoSupervisor where
  "new_supervisor = \<lparr>reconnectingSince = 0, pendingLAN = zero_snapshot,
     connectDelay = ciscoPollInterval, readyNotified = False, connectedByUs = False\<rparr>"

section \<open>The LAN\<close>

definition confirmLAN ::
  "lanSnapshot \<Rightarrow> lanSnapshot \<Rightarrow> ciscoSupervisor \<Rightarrow> bool \<times> ciscoSupervisor" where
  "confirmLAN cur next sv =
     (if \<not> lanChanged cur next then (False, sv\<lparr>pendingLAN := zero_snapshot\<rparr>)
      else if snap_iface cur \<noteq> [] \<and> pendingLAN sv \<noteq> next then (False, sv\<lparr>pendingLAN := next\<rparr>)
      else (True, sv\<lparr>pendingLAN := zero_snapshot\<rparr>))"

definition detectLAN ::
  "'w os \<Rightarrow> go_ctx \<Rightarrow> ciscoSupervisor \<times> service \<times> 'w \<Rightarrow> ciscoSupervisor \<times> service \<times> 'w" where
  "detectLAN os ctx st =
     (case st of (sv, s, w) \<Rightarrow>
      let cur = lan_snapshot s in
      case DetectLAN os ctx (snap_iface cur) w of
        (Inl err, w1) \<Rightarrow> (sv\<lparr>pendingLAN := zero_snapshot\<rparr>, s, w1)
      | (Inr (nic_addr, iface), w1) \<Rightarrow>
          (let subnet = Masked nic_addr; a = prefix_addr nic_addr;
               next = \<lparr>snap_subnet = subnet, snap_iface = iface\<rparr>;
               (confirmed, sv1) = confirmLAN cur next sv
           in if \<not> confirmed then
                (sv1, (if next = cur then setStatus (\<lambda>st. st\<lparr>LANAddr := a\<rparr>) s else s), w1)
              else
                let s1 = (if snap_iface cur = [] then s
                          else s\<lparr>clients := resetNetwork (clients s)\<rparr>);
                    s2 = setStatus (\<lambda>st. st\<lparr>LANSubnet := subnet, LANAddr := a, LANInterface := iface\<rparr>) s1
                in (sv1, notifyLANCheck s2, w1)))"

section \<open>The VPN\<close>

definition setConnected :: "bool \<Rightarrow> service \<Rightarrow> service" where
  "setConnected connected s =
     setStatus (\<lambda>st. let st1 = st\<lparr>CiscoConnected := connected\<rparr>
                     in if \<not> connected then st1\<lparr>PFDisabled := False\<rparr> else st1) s"

definition awaitReconnect ::
  "'w os \<Rightarrow> go_ctx \<Rightarrow> ciscoSupervisor \<times> 'w \<Rightarrow> ciscoSupervisor \<times> 'w" where
  "awaitReconnect os ctx st =
     (case st of (sv, w) \<Rightarrow>
      let (sv1, w1) = (if reconnectingSince sv = 0
                       then (case os_now os w of (t, w1) \<Rightarrow> (sv\<lparr>reconnectingSince := t\<rparr>, w1))
                       else (sv, w));
          (now, w2) = os_now os w1;
          elapsed = time_sub now (reconnectingSince sv1)
      in if elapsed \<le> ciscoReconnectGrace then (sv1, w2)
         else (case Disconnect os (WithTimeout ctx ciscoDisconnectTimeout) w2 of
           (Some err, w3) \<Rightarrow> (sv1, w3)
         | (None, w3) \<Rightarrow> (sv1\<lparr>reconnectingSince := 0\<rparr>, w3)))"

text \<open>The doubling is a multiplication of 64-bit durations.\<close>

definition connect ::
  "'w os \<Rightarrow> go_ctx \<Rightarrow> ciscoSupervisor \<times> service \<times> 'w
     \<Rightarrow> duration \<times> ciscoSupervisor \<times> service \<times> 'w" where
  "connect os ctx st =
     (case st of (sv, s, w) \<Rightarrow>
      case Connect os ctx (CiscoProfile (opts s)) (CiscoUser (opts s)) (CiscoPassword (opts s)) w of
        (Some err, w1) \<Rightarrow>
          if errors_is err ErrAcquired then (ciscoPollInterval, sv, s, w1)
          else if os_ctx_err os ctx w1 then (ciscoPollInterval, sv, s, w1)
          else (connectDelay sv,
                sv\<lparr>connectDelay := min (wrap64 (connectDelay sv * 2)) ciscoMaxConnectDelay\<rparr>, s, w1)
      | (None, w1) \<Rightarrow>
          (ciscoPollInterval, sv\<lparr>connectDelay := ciscoPollInterval, connectedByUs := True\<rparr>,
           setConnected True s, w1))"

definition disablePF :: "'w os \<Rightarrow> go_ctx \<Rightarrow> service \<times> 'w \<Rightarrow> service \<times> 'w" where
  "disablePF os ctx sw =
     (case sw of (s, w) \<Rightarrow>
      if PFDisabled (GetState s) then (s, w)
      else (case DisablePF os ctx w of
        (Some err, w1) \<Rightarrow> (s, w1)
      | (None, w1) \<Rightarrow> (setStatus (\<lambda>st. st\<lparr>PFDisabled := True\<rparr>) s, w1)))"

section \<open>A tick, the loop, the shutdown\<close>

definition react ::
  "'w os \<Rightarrow> go_ctx \<Rightarrow> string \<times> go_error option \<Rightarrow> ciscoSupervisor \<times> service \<times> 'w
     \<Rightarrow> duration \<times> ciscoSupervisor \<times> service \<times> 'w" where
  "react os ctx result st =
     (case result of (state, err) \<Rightarrow> case st of (sv, s, w) \<Rightarrow>
      if err \<noteq> None then (ciscoPollInterval, sv, s, w)
      else if state = StateConnected then
        (ciscoPollInterval, sv\<lparr>connectDelay := ciscoPollInterval, reconnectingSince := 0\<rparr>,
         setConnected True s, w)
      else if state = StateReconnecting then
        (case awaitReconnect os ctx (sv, w) of
           (sv1, w1) \<Rightarrow> (ciscoPollInterval, sv1, setConnected False s, w1))
      else connect os ctx (sv\<lparr>reconnectingSince := 0\<rparr>, setConnected False s, w))"

definition after_react ::
  "'w os \<Rightarrow> go_ctx \<Rightarrow> ciscoSupervisor \<times> service \<times> 'w
     \<Rightarrow> (ciscoSupervisor \<times> service \<times> 'w) option" where
  "after_react os ctx st =
     (case st of (sv, s, w) \<Rightarrow>
      if CiscoConnected (GetState s) then
        (case disablePF os ctx (s, w) of
           (s1, w1) \<Rightarrow>
             if \<not> readyNotified sv then
               (case close_ciscoReady s1 of
                  None \<Rightarrow> None
                | Some s2 \<Rightarrow> Some (sv\<lparr>readyNotified := True\<rparr>, s2, w1))
             else Some (sv, s1, w1))
      else Some (sv, s, w))"

definition tick ::
  "'w os \<Rightarrow> go_ctx \<Rightarrow> ciscoSupervisor \<times> service \<times> 'w
     \<Rightarrow> (duration \<times> ciscoSupervisor \<times> service \<times> 'w) option" where
  "tick os ctx st =
     (case detectLAN os ctx st of (sv1, s1, w1) \<Rightarrow>
      case Status os ctx w1 of (result, w2) \<Rightarrow>
      case react os ctx result (sv1, s1, w2) of (delay, st3) \<Rightarrow>
      map_option (\<lambda>st4. (delay, st4)) (after_react os ctx st3))"

definition shutdown ::
  "'w os \<Rightarrow> go_ctx \<Rightarrow> ciscoSupervisor \<times> service \<times> 'w \<Rightarrow> service \<times> 'w" where
  "shutdown os ctx st =
     (case st of (sv, s, w) \<Rightarrow>
      let s1 = setConnected False s in
      if \<not> connectedByUs sv then (s1, w)
      else (s1, snd (Disconnect os (WithTimeout (WithoutCancel ctx) ciscoDisconnectTimeout) w)))"

text \<open>What a goroutine has come to after a bounded number of rounds.\<close>

datatype 'a run = Running 'a | Panicked | Returned 'a

fun supervisor_loop ::
  "nat \<Rightarrow> 'w os \<Rightarrow> go_ctx \<Rightarrow> duration \<Rightarrow> ciscoSupervisor \<times> service \<times> 'w
     \<Rightarrow> (ciscoSupervisor \<times> service \<times> 'w) run" where
  "supervisor_loop 0 os ctx delay st = Running st"
| "supervisor_loop (Suc n) os ctx delay (sv, s, w) =
     (case sleepCtx os ctx delay w of
        (False, w1) \<Rightarrow> (case shutdown os ctx (sv, s, w1) of (s2, w2) \<Rightarrow> Returned (sv, s2, w2))
      | (True, w1) \<Rightarrow>
          (case tick os ctx (sv, s, w1) of
             None \<Rightarrow> Panicked
           | Some (delay', st') \<Rightarrow> supervisor_loop n os ctx delay' st'))"

definition startCisco ::
  "nat \<Rightarrow> 'w os \<Rightarrow> go_ctx \<Rightarrow> service \<times> 'w \<Rightarrow> (ciscoSupervisor \<times> service \<times> 'w) run" where
  "startCisco n os ctx sw = supervisor_loop n os ctx 0 (new_supervisor, sw)"

section \<open>The invariant\<close>

text \<open>
  The LAN in the status is none at all, or a masked IPv4 subnet that holds our own address, on
  an interface that is not a tunnel; the packet filter counts as off only while the VPN is up.
\<close>

definition lan_ok :: "State \<Rightarrow> bool" where
  "lan_ok st \<longleftrightarrow>
     (if LANInterface st = [] then LANSubnet st = zero_prefix \<and> LANAddr st = NoAddr
      else v4_prefix (LANSubnet st) \<and> Masked (LANSubnet st) = LANSubnet st
           \<and> Contains (LANSubnet st) (LANAddr st) \<and> \<not> has_prefix ''utun'' (LANInterface st))"

definition status_ok :: "State \<Rightarrow> bool" where
  "status_ok st \<longleftrightarrow> lan_ok st \<and> (PFDisabled st \<longrightarrow> CiscoConnected st)"

text \<open>The delay after the \<open>k\<close>-th failure in a row: doubled each time, at most a minute.\<close>

definition backoff :: "nat \<Rightarrow> duration" where
  "backoff k = min (ciscoPollInterval * 2 ^ k) ciscoMaxConnectDelay"

definition sup_inv :: "ciscoSupervisor \<Rightarrow> service \<Rightarrow> bool" where
  "sup_inv sv s \<longleftrightarrow>
     (readyNotified sv \<longleftrightarrow> ciscoReady s) \<and> (\<exists>k. connectDelay sv = backoff k)
     \<and> status_ok (status s) \<and> reg_wf (clients s)"

lemma backoff_0 [simp]: "backoff 0 = ciscoPollInterval"
  by (simp add: backoff_def ciscoPollInterval_def ciscoMaxConnectDelay_def duration_defs)

lemma backoff_range: "ciscoPollInterval \<le> backoff k \<and> backoff k \<le> ciscoMaxConnectDelay"
proof -
  have "(1::int) \<le> 2 ^ k" by simp
  then show ?thesis
    by (simp add: backoff_def ciscoPollInterval_def ciscoMaxConnectDelay_def duration_defs)
qed

text \<open>The multiplication cannot overflow: the delay it doubles is at most a minute.\<close>

lemma backoff_Suc: "min (wrap64 (backoff k * 2)) ciscoMaxConnectDelay = backoff (Suc k)"
proof -
  have "wrap64 (backoff k * 2) = backoff k * 2"
    using backoff_range [of k]
    by (intro wrap64_id) (simp_all add: ciscoPollInterval_def ciscoMaxConnectDelay_def duration_defs)
  then show ?thesis
    by (auto simp: backoff_def ciscoPollInterval_def ciscoMaxConnectDelay_def duration_defs min_def)
qed

lemma Masked_v4_prefix: "v4_prefix p \<Longrightarrow> v4_prefix (Masked p)"
  by (auto simp: v4_prefix_def Masked_V4)

lemma Contains_Masked_self: "v4_prefix p \<Longrightarrow> Contains (Masked p) (prefix_addr p)"
  by (auto simp: v4_prefix_def Contains_Masked Contains_V4)

lemma v4_prefix_not_zero: "v4_prefix p \<Longrightarrow> p \<noteq> zero_prefix"
  by (auto simp: v4_prefix_def zero_prefix_def)

lemma lan_ok_none: "lan_ok zero_State"
  by (simp add: lan_ok_def zero_State_def)

lemma status_ok_none: "status_ok zero_State"
  by (simp add: status_ok_def lan_ok_none) (simp add: zero_State_def)

lemma sup_inv_start: "reg_wf (clients s) \<Longrightarrow> status_ok (status s) \<Longrightarrow> \<not> ciscoReady s \<Longrightarrow>
    sup_inv new_supervisor s"
  by (auto simp: sup_inv_def new_supervisor_def intro: exI [of _ 0])

section \<open>LAN detection\<close>

lemma confirmLAN_sv: "\<exists>p. snd (confirmLAN cur next sv) = sv\<lparr>pendingLAN := p\<rparr>"
  by (auto simp: confirmLAN_def)

lemma confirmLAN_True:
  "confirmLAN cur next sv = (True, sv') \<longleftrightarrow>
     lanChanged cur next \<and> (snap_iface cur = [] \<or> pendingLAN sv = next)
     \<and> sv' = sv\<lparr>pendingLAN := zero_snapshot\<rparr>"
  by (auto simp: confirmLAN_def)

text \<open>An update of the LAN, whatever the values.\<close>

definition with_lan :: "netip_prefix \<Rightarrow> addr \<Rightarrow> string \<Rightarrow> State \<Rightarrow> State" where
  "with_lan p a i st = st\<lparr>LANSubnet := p, LANAddr := a, LANInterface := i\<rparr>"

lemma with_lan_self: "with_lan (LANSubnet st) (LANAddr st) (LANInterface st) st = st"
  by (simp add: with_lan_def)

lemma with_lan_addr: "with_lan (LANSubnet st) a (LANInterface st) st = st\<lparr>LANAddr := a\<rparr>"
  by (simp add: with_lan_def)

lemma with_lan_simps [simp]:
  "CiscoConnected (with_lan p a i st) = CiscoConnected st"
  "PFDisabled (with_lan p a i st) = PFDisabled st"
  "ProxyStarted (with_lan p a i st) = ProxyStarted st"
  "DNSStarted (with_lan p a i st) = DNSStarted st"
  "LANInterface (with_lan p a i st) = i"
  "LANSubnet (with_lan p a i st) = p"
  "LANAddr (with_lan p a i st) = a"
  by (simp_all add: with_lan_def)

lemma with_lan_exists:
  "\<exists>p a i. st = with_lan p a i st"
  "\<exists>p a i. st\<lparr>LANAddr := a0\<rparr> = with_lan p a i st"
  "\<exists>p a i. st\<lparr>LANSubnet := p0, LANAddr := a0, LANInterface := i0\<rparr> = with_lan p a i st"
  by (metis with_lan_self, metis with_lan_addr, auto simp: with_lan_def)

lemma detectLAN_frame:
  assumes "detectLAN os ctx (sv, s, w) = (sv', s', w')"
  shows "\<exists>q r p a i lc. sv' = sv\<lparr>pendingLAN := q\<rparr>
     \<and> s' = s\<lparr>clients := r, status := with_lan p a i (status s), lanCheck := lc\<rparr>
     \<and> (r = clients s \<or> r = resetNetwork (clients s))"
proof -
  obtain res w1 where d: "DetectLAN os ctx (snap_iface (lan_snapshot s)) w = (res, w1)"
    by (metis surj_pair)
  show ?thesis
  proof (cases res)
    case (Inl e)
    have "s' = s\<lparr>clients := clients s, status := with_lan (LANSubnet (status s)) (LANAddr (status s))
        (LANInterface (status s)) (status s), lanCheck := lanCheck s\<rparr>
      \<and> sv' = sv\<lparr>pendingLAN := zero_snapshot\<rparr>"
      using assms d Inl by (simp add: detectLAN_def Let_def with_lan_self)
    then show ?thesis by blast
  next
    case (Inr pi)
    then obtain nic_addr iface where pi: "res = Inr (nic_addr, iface)" by (cases pi) auto
    obtain c sv1 where c: "confirmLAN (lan_snapshot s)
        \<lparr>snap_subnet = Masked nic_addr, snap_iface = iface\<rparr> sv = (c, sv1)" by (metis surj_pair)
    obtain q where q: "sv1 = sv\<lparr>pendingLAN := q\<rparr>"
      using confirmLAN_sv [of "lan_snapshot s"
        "\<lparr>snap_subnet = Masked nic_addr, snap_iface = iface\<rparr>" sv] c by auto
    have "sv' = sv\<lparr>pendingLAN := q\<rparr> \<and> s' = s\<lparr>clients := clients s', status := status s', lanCheck := lanCheck s'\<rparr>
        \<and> (clients s' = clients s \<or> clients s' = resetNetwork (clients s))
        \<and> (\<exists>p a i. status s' = with_lan p a i (status s))"
      using assms d pi c q with_lan_exists
      by (auto simp: detectLAN_def Let_def setStatus_def notifyLANCheck_def split: if_splits)
    then show ?thesis by metis
  qed
qed

lemma detectLAN_lan_ok:
  assumes "lan_ok (status s)"
  shows "lan_ok (status (fst (snd (detectLAN os ctx (sv, s, w)))))"
proof -
  obtain res w1 where d: "DetectLAN os ctx (snap_iface (lan_snapshot s)) w = (res, w1)"
    by (metis surj_pair)
  show ?thesis
  proof (cases res)
    case (Inl e)
    with assms d show ?thesis by (simp add: detectLAN_def Let_def)
  next
    case (Inr pi)
    then obtain nic_addr iface where pi: "res = Inr (nic_addr, iface)" by (cases pi) auto
    let ?next = "\<lparr>snap_subnet = Masked nic_addr, snap_iface = iface\<rparr>"
    have v: "v4_prefix nic_addr" and i: "\<not> has_prefix ''utun'' iface"
      using DetectLAN_sound [of os ctx _ w] d pi by blast+
    note v' = Masked_v4_prefix [OF v] Contains_Masked_self [OF v] v4_prefix_not_zero [OF Masked_v4_prefix [OF v]]
    obtain c sv1 where c: "confirmLAN (lan_snapshot s) ?next sv = (c, sv1)" by (metis surj_pair)
    show ?thesis
    proof (cases c)
      case True
      then have "iface \<noteq> []" using c by (auto simp: confirmLAN_True lanChanged_def)
      with True d pi c v' i show ?thesis
        by (simp add: detectLAN_def Let_def lan_ok_def Masked_idem)
    next
      case False
      with d pi c v' i assms show ?thesis
        by (auto simp: detectLAN_def Let_def lan_ok_def lan_snapshot_def GetState_def)
    qed
  qed
qed

lemma detectLAN_inv:
  assumes "sup_inv sv s" and "detectLAN os ctx (sv, s, w) = (sv', s', w')"
  shows "sup_inv sv' s'"
proof -
  have l: "lan_ok (status s')"
    using detectLAN_lan_ok [of s os ctx sv w] assms by (simp add: sup_inv_def status_ok_def)
  from detectLAN_frame [OF assms(2)] obtain q r p a i lc where
    f: "sv' = sv\<lparr>pendingLAN := q\<rparr>"
      "s' = s\<lparr>clients := r, status := with_lan p a i (status s), lanCheck := lc\<rparr>"
      "r = clients s \<or> r = resetNetwork (clients s)" by (elim exE conjE)
  with assms(1) l show ?thesis
    by (auto simp: sup_inv_def status_ok_def intro: go_inv)
qed

section \<open>Reacting to the agent\<close>

lemma setConnected_simps [simp]:
  "clients (setConnected b s) = clients s" "conns (setConnected b s) = conns s"
  "ciscoReady (setConnected b s) = ciscoReady s" "lanCheck (setConnected b s) = lanCheck s"
  "opts (setConnected b s) = opts s"
  "status (setConnected b s) =
     (status s)\<lparr>CiscoConnected := b, PFDisabled := PFDisabled (status s) \<and> b\<rparr>"
  by (simp_all add: setConnected_def Let_def)

lemma lan_ok_conn [simp]: "lan_ok (st\<lparr>CiscoConnected := b, PFDisabled := c\<rparr>) = lan_ok st"
  "lan_ok (st\<lparr>PFDisabled := c\<rparr>) = lan_ok st"
  "lan_ok (st\<lparr>CiscoConnected := b\<rparr>) = lan_ok st"
  by (simp_all add: lan_ok_def)

lemma sup_inv_setConnected: "sup_inv sv s \<Longrightarrow> sup_inv sv (setConnected b s)"
  by (auto simp: sup_inv_def status_ok_def)

lemma backoff_poll: "\<exists>k. ciscoPollInterval = backoff k" "\<exists>k. backoff n = backoff k"
  by (rule exI [of _ 0], simp) (rule exI [of _ n], simp)

lemma connect_inv:
  assumes "sup_inv sv s" and "connect os ctx (sv, s, w) = (d, sv', s', w')"
  shows "sup_inv sv' s' \<and> (\<exists>k. d = backoff k)"
proof -
  obtain k where "connectDelay sv = backoff k" using assms(1) by (auto simp: sup_inv_def)
  then show ?thesis
    using assms backoff_poll backoff_Suc [of k]
    by (auto simp: connect_def sup_inv_def status_ok_def intro: exI [of _ k]
        split: prod.splits option.splits if_splits)
qed

lemma awaitReconnect_sv:
  "\<exists>t. fst (awaitReconnect os ctx (sv, w)) = sv\<lparr>reconnectingSince := t\<rparr>"
  by (auto simp: awaitReconnect_def Let_def intro: exI [of _ "reconnectingSince sv"]
      split: prod.splits option.splits if_splits)

lemma react_inv:
  assumes "sup_inv sv s" and "react os ctx res (sv, s, w) = (d, sv', s', w')"
  shows "sup_inv sv' s' \<and> (\<exists>k. d = backoff k)"
proof -
  obtain state err where res: "res = (state, err)" by (cases res)
  have c: "sup_inv sv2 (setConnected b s)"
    if "readyNotified sv2 = readyNotified sv" "connectDelay sv2 = connectDelay sv
      \<or> connectDelay sv2 = ciscoPollInterval" for b sv2
    using assms(1) that backoff_poll by (auto simp: sup_inv_def status_ok_def)
  consider "err \<noteq> None" | "err = None" "state = StateConnected"
    | "err = None" "state \<noteq> StateConnected" "state = StateReconnecting"
    | "err = None" "state \<noteq> StateConnected" "state \<noteq> StateReconnecting" by blast
  then show ?thesis
  proof cases
    case 1
    with assms backoff_poll show ?thesis by (auto simp: react_def res)
  next
    case 2
    with assms(2) backoff_poll c show ?thesis by (auto simp: react_def res)
  next
    case 3
    from awaitReconnect_sv [of os ctx sv w]
    obtain t where "fst (awaitReconnect os ctx (sv, w)) = sv\<lparr>reconnectingSince := t\<rparr>" ..
    with 3 assms(2) backoff_poll c show ?thesis by (auto simp: react_def res split: prod.splits)
  next
    case 4
    with assms(2) have con: "connect os ctx (sv\<lparr>reconnectingSince := 0\<rparr>, setConnected False s, w)
        = (d, sv', s', w')" by (simp add: react_def res)
    show ?thesis by (rule connect_inv [OF c, OF _ _ con]) simp_all
  qed
qed

lemma connect_frame:
  "connect os ctx (sv, s, w) = (d, sv', s', w') \<Longrightarrow>
     s' = s \<or> s' = setConnected True s"
  by (auto simp: connect_def split: prod.splits option.splits if_splits)

lemma react_frame:
  assumes "react os ctx res (sv, s, w) = (d, sv', s', w')"
  shows "\<exists>b c. s' = s\<lparr>status := (status s)\<lparr>CiscoConnected := b, PFDisabled := c\<rparr>\<rparr>"
proof -
  have keep: "\<exists>b c. s = s\<lparr>status := (status s)\<lparr>CiscoConnected := b, PFDisabled := c\<rparr>\<rparr>" for s :: service
    by (rule exI [of _ "CiscoConnected (status s)"], rule exI [of _ "PFDisabled (status s)"]) simp
  have set: "\<exists>b' c. setConnected b s = s\<lparr>status := (status s)\<lparr>CiscoConnected := b', PFDisabled := c\<rparr>\<rparr>"
    for b and s :: service
    by (rule exI [of _ b], rule exI [of _ "PFDisabled (status s) \<and> b"])
      (simp add: setConnected_def setStatus_def Let_def)
  have twice: "setConnected True (setConnected False s) =
      s\<lparr>status := (status s)\<lparr>CiscoConnected := True, PFDisabled := False\<rparr>\<rparr>"
    by (simp add: setConnected_def setStatus_def Let_def)
  have "s' = s \<or> s' = setConnected True s \<or> s' = setConnected False s
      \<or> s' = setConnected True (setConnected False s)"
    using assms by (auto simp: react_def dest: connect_frame split: prod.splits if_splits)
  then show ?thesis
  proof (elim disjE)
    assume "s' = setConnected True (setConnected False s)"
    then show ?thesis unfolding twice by blast
  qed (simp_all only: keep set)
qed

lemma disablePF_frame:
  "\<exists>b. fst (disablePF os ctx (s, w)) = s\<lparr>status := (status s)\<lparr>PFDisabled := b\<rparr>\<rparr>"
proof -
  have "\<exists>b. s = s\<lparr>status := (status s)\<lparr>PFDisabled := b\<rparr>\<rparr>"
    by (rule exI [of _ "PFDisabled (status s)"]) simp
  then show ?thesis
    by (auto simp: disablePF_def setStatus_def split: prod.splits option.splits)
qed

lemma after_react_some:
  assumes "sup_inv sv s"
  obtains sv' s' w' where "after_react os ctx (sv, s, w) = Some (sv', s', w')" and "sup_inv sv' s'"
    and "CiscoConnected (status s') \<Longrightarrow> ciscoReady s'"
    and "\<exists>r b. s' = s\<lparr>ciscoReady := r, status := (status s)\<lparr>PFDisabled := b\<rparr>\<rparr> \<and> (ciscoReady s \<longrightarrow> r)
       \<and> (r \<longrightarrow> ciscoReady s \<or> CiscoConnected (status s)) \<and> sv' = sv\<lparr>readyNotified := r\<rparr>"
proof -
  have keep: "\<exists>r b. s = s\<lparr>ciscoReady := r, status := (status s)\<lparr>PFDisabled := b\<rparr>\<rparr> \<and> (ciscoReady s \<longrightarrow> r)
       \<and> (r \<longrightarrow> ciscoReady s \<or> CiscoConnected (status s)) \<and> sv = sv\<lparr>readyNotified := r\<rparr>"
    using assms by (intro exI [of _ "ciscoReady s"] exI [of _ "PFDisabled (status s)"])
      (simp add: sup_inv_def)
  show thesis
  proof (cases "CiscoConnected (status s)")
    case False
    then have "after_react os ctx (sv, s, w) = Some (sv, s, w)"
      by (simp add: after_react_def GetState_def)
    then show thesis by (rule that) (use False assms keep in auto)
  next
    case True
    obtain s1 w1 where pf: "disablePF os ctx (s, w) = (s1, w1)" by (metis surj_pair)
    with disablePF_frame [of os ctx s w] obtain b
      where b: "s1 = s\<lparr>status := (status s)\<lparr>PFDisabled := b\<rparr>\<rparr>" by auto
    have "after_react os ctx (sv, s, w) =
        Some (sv\<lparr>readyNotified := True\<rparr>, s1\<lparr>ciscoReady := True\<rparr>, w1)"
    proof (cases "readyNotified sv")
      case True
      then have "sv\<lparr>readyNotified := True\<rparr> = sv" and "s1\<lparr>ciscoReady := True\<rparr> = s1"
        using assms by (simp_all add: sup_inv_def b)
      with True \<open>CiscoConnected (status s)\<close> pf show ?thesis
        by (simp add: after_react_def GetState_def)
    next
      case False
      with \<open>CiscoConnected (status s)\<close> pf assms show ?thesis
        by (simp add: after_react_def GetState_def close_ciscoReady_def sup_inv_def b)
    qed
    then show thesis
    proof (rule that)
      show "sup_inv (sv\<lparr>readyNotified := True\<rparr>) (s1\<lparr>ciscoReady := True\<rparr>)"
        using assms True by (auto simp: sup_inv_def status_ok_def b)
      show "\<exists>r b. s1\<lparr>ciscoReady := True\<rparr> = s\<lparr>ciscoReady := r, status := (status s)\<lparr>PFDisabled := b\<rparr>\<rparr>
         \<and> (ciscoReady s \<longrightarrow> r) \<and> (r \<longrightarrow> ciscoReady s \<or> CiscoConnected (status s))
         \<and> sv\<lparr>readyNotified := True\<rparr> = sv\<lparr>readyNotified := r\<rparr>"
        using True by (intro exI [of _ True] exI [of _ b]) (simp add: b)
    qed simp
  qed
qed

section \<open>A tick as a step\<close>

lemma tick_some:
  assumes "sup_inv sv s"
  obtains d sv' s' w' where "tick os ctx (sv, s, w) = Some (d, sv', s', w')"
    and "sup_inv sv' s'" and "\<exists>k. d = backoff k" and "CiscoConnected (status s') \<longrightarrow> ciscoReady s'"
proof -
  obtain sv1 s1 w1 where d: "detectLAN os ctx (sv, s, w) = (sv1, s1, w1)" by (metis surj_pair)
  obtain res w2 where st: "Status os ctx w1 = (res, w2)" by (metis surj_pair)
  obtain d sv3 s3 w3 where r: "react os ctx res (sv1, s1, w2) = (d, sv3, s3, w3)" by (metis surj_pair)
  have i3: "sup_inv sv3 s3 \<and> (\<exists>k. d = backoff k)"
    by (rule react_inv [OF detectLAN_inv [OF assms d] r])
  show thesis
  proof (rule after_react_some [OF conjunct1 [OF i3], of os ctx w3])
    fix sv4 s4 w4
    assume a: "after_react os ctx (sv3, s3, w3) = Some (sv4, s4, w4)" "sup_inv sv4 s4"
      "CiscoConnected (status s4) \<Longrightarrow> ciscoReady s4"
    have "tick os ctx (sv, s, w) = Some (d, sv4, s4, w4)"
      by (simp add: tick_def d st r a(1))
    then show thesis by (rule that [OF _ a(2) conjunct2 [OF i3] impI [OF a(3)]])
  qed
qed

text \<open>What a tick leaves to the other goroutines.\<close>

lemma tick_frame:
  assumes inv: "sup_inv sv s" and tick: "tick os ctx (sv, s, w) = Some (d, sv', s', w')"
  shows "conns s' = conns s" "opts s' = opts s" "ProxyStarted (status s') = ProxyStarted (status s)"
    "DNSStarted (status s') = DNSStarted (status s)"
    "clients s' = clients s \<or> clients s' = resetNetwork (clients s)"
    "ciscoReady s \<Longrightarrow> ciscoReady s'"
proof -
  obtain sv1 s1 w1 where d: "detectLAN os ctx (sv, s, w) = (sv1, s1, w1)" by (metis surj_pair)
  obtain res w2 where st: "Status os ctx w1 = (res, w2)" by (metis surj_pair)
  obtain d3 sv3 s3 w3 where r: "react os ctx res (sv1, s1, w2) = (d3, sv3, s3, w3)" by (metis surj_pair)
  have i3: "sup_inv sv3 s3" using react_inv [OF detectLAN_inv [OF inv d] r] ..
  from tick have a: "after_react os ctx (sv3, s3, w3) = Some (sv', s', w')"
    by (auto simp: tick_def d st r)
  from detectLAN_frame [OF d] obtain q rr p aa ii lc where f1:
    "s1 = s\<lparr>clients := rr, status := with_lan p aa ii (status s), lanCheck := lc\<rparr>"
    "rr = clients s \<or> rr = resetNetwork (clients s)" by (elim exE conjE)
  from react_frame [OF r] obtain b c where f2:
    "s3 = s1\<lparr>status := (status s1)\<lparr>CiscoConnected := b, PFDisabled := c\<rparr>\<rparr>" by (elim exE)
  obtain rdy pf where f3:
    "s' = s3\<lparr>ciscoReady := rdy, status := (status s3)\<lparr>PFDisabled := pf\<rparr>\<rparr>" "ciscoReady s3 \<longrightarrow> rdy"
    by (rule after_react_some [OF i3, of os ctx w3]) (use a in auto)
  note f = f1(1) f2 f3(1)
  show "conns s' = conns s" "opts s' = opts s" "ProxyStarted (status s') = ProxyStarted (status s)"
    "DNSStarted (status s') = DNSStarted (status s)"
    "clients s' = clients s \<or> clients s' = resetNetwork (clients s)"
    "ciscoReady s \<Longrightarrow> ciscoReady s'"
    using f1(2) f3(2) by (simp_all add: f)
qed

text \<open>Ticks in whatever worlds the other goroutines and the machine leave behind.\<close>

definition tick_step ::
  "'w os \<times> go_ctx \<times> 'w \<Rightarrow> ciscoSupervisor \<times> service \<Rightarrow> ciscoSupervisor \<times> service" where
  "tick_step e st =
     (case e of (os, ctx, w) \<Rightarrow> case st of (sv, s) \<Rightarrow>
      case tick os ctx (sv, s, w) of None \<Rightarrow> (sv, s) | Some (d, sv', s', w') \<Rightarrow> (sv', s'))"

lemma tick_step_eq:
  "tick os ctx (sv, s, w) = Some (d, sv', s', w') \<Longrightarrow> tick_step (os, ctx, w) (sv, s) = (sv', s')"
  by (simp add: tick_step_def)

interpretation supervisor: machine_frame "tick_step :: 'w os \<times> go_ctx \<times> 'w \<Rightarrow> _" "\<lambda>_. True"
  "\<lambda>(sv, s). sup_inv sv s" "\<lambda>_. True" "\<lambda>(sv, s). (conns s, opts s, static_ips (clients s))"
proof (unfold_locales, goal_cases)
  case (1 st e)
  obtain os ctx w sv s where e: "e = (os, ctx, w)" "st = (sv, s)" by (metis surj_pair)
  with 1 have inv: "sup_inv sv s" by simp
  show ?case
    by (rule tick_some [OF inv, of os ctx w]) (simp add: e tick_step_eq)
next
  case (2 st e)
  obtain os ctx w sv s where e: "e = (os, ctx, w)" "st = (sv, s)" by (metis surj_pair)
  with 2 have inv: "sup_inv sv s" by simp
  obtain d sv' s' w' where t: "tick os ctx (sv, s, w) = Some (d, sv', s', w')"
    by (rule tick_some [OF inv])
  have "static_ips (resetNetwork (clients s)) = static_ips (clients s)"
    using reg_step_static [of "clients s" ResetNetwork] inv by (simp add: sup_inv_def)
  with tick_frame(5) [OF inv t] have "static_ips (clients s') = static_ips (clients s)"
    by (elim disjE) (simp_all only:)
  with tick_frame(1,2) [OF inv t] show ?case
    by (simp only: e tick_step_eq [OF t] prod.case)
qed

section \<open>Properties\<close>

lemma supervisor_loop_safe:
  "sup_inv sv s \<Longrightarrow>
   (case supervisor_loop n os ctx d (sv, s, w) of
      Running (sv', s', w') \<Rightarrow> sup_inv sv' s'
    | Panicked \<Rightarrow> False
    | Returned (sv', s', w') \<Rightarrow>
        sup_inv sv' s' \<and> \<not> CiscoConnected (status s') \<and> \<not> PFDisabled (status s'))"
proof (induction n arbitrary: d sv s w)
  case 0
  then show ?case by simp
next
  case (Suc n)
  obtain alive w1 where sl: "sleepCtx os ctx d w = (alive, w1)" by (metis surj_pair)
  show ?case
  proof (cases alive)
    case False
    with Suc.prems sl show ?thesis
      by (auto simp: shutdown_def Let_def split: prod.splits intro: sup_inv_setConnected)
  next
    case True
    obtain d' sv' s' w' where t: "tick os ctx (sv, s, w1) = Some (d', sv', s', w')" "sup_inv sv' s'"
      by (rule tick_some [OF Suc.prems])
    with Suc.IH [OF t(2)] True sl show ?thesis by simp
  qed
qed

text \<open>
  The supervisor never panics. Started on a new service it never closes \<open>ciscoReady\<close> twice,
  however many ticks run, whatever the agent, the packet filter and the network answer; it keeps
  its invariant (a valid LAN or none, the packet filter off only while the VPN is up, a backoff
  delay of the documented sequence); and when it returns, the VPN is marked as down.
\<close>

theorem startCisco_safe:
  "case startCisco n os ctx (New o1, w) of
     Running (sv, s, w') \<Rightarrow> sup_inv sv s
   | Panicked \<Rightarrow> False
   | Returned (sv, s, w') \<Rightarrow>
       sup_inv sv s \<and> \<not> CiscoConnected (status s) \<and> \<not> PFDisabled (status s)"
proof -
  have "sup_inv new_supervisor (New o1)"
    by (intro sup_inv_start) (simp_all add: New_def status_ok_none reg_wf_new)
  then show ?thesis unfolding startCisco_def by (rule supervisor_loop_safe)
qed

text \<open>
  A tick from any state of the invariant, whatever the other goroutines did before it,
  succeeds, keeps the invariant, and ends with \<open>ciscoReady\<close> closed if the VPN is up. It
  leaves the connections, the options, the proxy and DNS marks and the configured clients alone.
\<close>

theorem tick_safe:
  assumes "sup_inv sv s"
  shows "\<exists>d sv' s' w'. tick os ctx (sv, s, w) = Some (d, sv', s', w') \<and> sup_inv sv' s'
     \<and> ciscoPollInterval \<le> d \<and> d \<le> ciscoMaxConnectDelay
     \<and> (CiscoConnected (status s') \<longrightarrow> ciscoReady s') \<and> (ciscoReady s \<longrightarrow> ciscoReady s')
     \<and> conns s' = conns s \<and> opts s' = opts s
     \<and> ProxyStarted (status s') = ProxyStarted (status s) \<and> DNSStarted (status s') = DNSStarted (status s)
     \<and> static_ips (clients s') = static_ips (clients s)"
proof -
  obtain d sv' s' w' where t: "tick os ctx (sv, s, w) = Some (d, sv', s', w')" "sup_inv sv' s'"
    "\<exists>k. d = backoff k" "CiscoConnected (status s') \<longrightarrow> ciscoReady s'"
    by (rule tick_some [OF assms, of os ctx w])
  have "static_ips (clients s') = static_ips (clients s)"
    using supervisor.step_proj [of "(sv, s)" "(os, ctx, w)"] assms by (simp add: tick_step_eq [OF t(1)])
  moreover have "ciscoPollInterval \<le> d \<and> d \<le> ciscoMaxConnectDelay"
    using t(3) backoff_range by auto
  ultimately show ?thesis
    using t(1,2,4) tick_frame(1-4,6) [OF assms t(1)] by (intro exI conjI) (assumption | blast)+
qed

lemma sample_sup_inv: "sup_inv (new_supervisor\<lparr>readyNotified := True\<rparr>) sample_service"
  using sample_service_wf
  by (auto simp: sup_inv_def new_supervisor_def sample_service_def New_def status_ok_def lan_ok_def
      sample_lan_state_def zero_State_def v4_prefix_def Masked_V4 Contains_V4
      intro: exI [of _ 0])

theorem tick_safe_witness:
  "\<exists>d sv' s' w'. tick mac_os Ctx (new_supervisor\<lparr>readyNotified := True\<rparr>, sample_service, sample_world)
     = Some (d, sv', s', w') \<and> d \<le> ciscoMaxConnectDelay"
  using tick_safe [OF sample_sup_inv, of mac_os Ctx sample_world] by blast

lemma detectLAN_cases:
  "detectLAN os ctx (sv, s, w) =
     (case DetectLAN os ctx (LANInterface (status s)) w of
        (Inl err, w1) \<Rightarrow> (sv\<lparr>pendingLAN := zero_snapshot\<rparr>, s, w1)
      | (Inr (p, i), w1) \<Rightarrow>
          (let cur = lan_snapshot s; next = \<lparr>snap_subnet = Masked p, snap_iface = i\<rparr> in
           if next = cur then
             (sv\<lparr>pendingLAN := zero_snapshot\<rparr>, setStatus (\<lambda>st. st\<lparr>LANAddr := prefix_addr p\<rparr>) s, w1)
           else if i = [] then (sv\<lparr>pendingLAN := zero_snapshot\<rparr>, s, w1)
           else if LANInterface (status s) \<noteq> [] \<and> pendingLAN sv \<noteq> next
           then (sv\<lparr>pendingLAN := next\<rparr>, s, w1)
           else
             (sv\<lparr>pendingLAN := zero_snapshot\<rparr>,
              notifyLANCheck (setStatus (with_lan (Masked p) (prefix_addr p) i)
                (if LANInterface (status s) = [] then s else s\<lparr>clients := resetNetwork (clients s)\<rparr>)), w1)))"
  by (auto simp: detectLAN_def confirmLAN_def lanChanged_def Let_def lan_snapshot_zero_iff
      setStatus_def with_lan_def split: prod.splits sum.splits)

text \<open>
  C22: a change of the network is debounced. If a LAN is in use and a second detection replaces
  it, then both of two consecutive detections found that same new subnet and interface; a
  failed detection or a third network in between would have prevented it.
\<close>

theorem lan_debounced:
  assumes "LANInterface (status s) \<noteq> []"
    and "detectLAN os ctx (sv, s, w) = (sv1, s1, w1)"
    and "detectLAN os ctx (sv1, s1, w2) = (sv2, s2, w3)"
    and "lan_snapshot s2 \<noteq> lan_snapshot s1"
  shows "\<exists>p q i. DetectLAN os ctx (LANInterface (status s)) w = (Inr (p, i), w1)
     \<and> DetectLAN os ctx (LANInterface (status s)) w2 = (Inr (q, i), w3)
     \<and> Masked p = Masked q \<and> i \<noteq> []
     \<and> lan_snapshot s1 = lan_snapshot s
     \<and> lan_snapshot s2 = \<lparr>snap_subnet = Masked q, snap_iface = i\<rparr>"
proof -
  have pend: "pendingLAN sv1 \<noteq> zero_snapshot \<and> s2 \<noteq> s1"
  proof -
    have "LANInterface (status s1) \<noteq> []"
      using assms(1,2) by (auto simp: detectLAN_cases Let_def split: prod.splits sum.splits if_splits)
    with assms(3,4) show ?thesis
      by (auto simp: detectLAN_cases Let_def lan_snapshot_def GetState_def zero_snapshot_def
          split: prod.splits sum.splits if_splits)
  qed
  with assms(1,2) obtain p i where d1: "DetectLAN os ctx (LANInterface (status s)) w = (Inr (p, i), w1)"
    "i \<noteq> []" "pendingLAN sv1 = \<lparr>snap_subnet = Masked p, snap_iface = i\<rparr>" "s1 = s"
    by (auto simp: detectLAN_cases Let_def split: prod.splits sum.splits if_splits)
  with assms(1,3,4) obtain q j where
    "DetectLAN os ctx (LANInterface (status s)) w2 = (Inr (q, j), w3)"
    "pendingLAN sv1 = \<lparr>snap_subnet = Masked q, snap_iface = j\<rparr>"
    "lan_snapshot s2 = \<lparr>snap_subnet = Masked q, snap_iface = j\<rparr>"
    by (auto simp: detectLAN_cases Let_def lan_snapshot_def GetState_def
        split: prod.splits sum.splits if_splits)
  with d1 show ?thesis by auto
qed

lemma sample_detect:
  assumes "netstat_text w = sample_netstat" and "nics w = sample_nics"
  shows "DetectLAN mac_os ctx want w = (Inr (Prefix (V4 0xC0A80069) (Some 24), ''en0''),
     logged ''netstat'' [''-rn'', ''-f'', ''inet''] w)"
proof -
  have "parseDefaultNonTunnel sample_netstat = ''en0''" by code_simp
  moreover have "nics (logged ''netstat'' [''-rn'', ''-f'', ''inet''] w) = sample_nics"
    using assms(2) by (simp add: logged_def)
  then have "connectedPrefix mac_os ''en0'' (logged ''netstat'' [''-rn'', ''-f'', ''inet''] w)
      = Inr (Prefix (V4 0xC0A80069) (Some 24))"
    by (simp add: connectedPrefix_def mac_os_def sample_nics_def sample_prefixes is_loopback_def
        is_link_local_unicast_def unmap_def)
  ultimately show ?thesis
    using assms(1) by (simp add: DetectLAN_def Run_def mac_simps)
qed

text \<open>The sample service, still on another Wi-Fi, sees the sample machine's LAN twice.\<close>

theorem lan_debounced_witness:
  "\<exists>sv1 s1 w1 sv2 s2 w3.
     detectLAN mac_os Ctx (new_supervisor, sample_service\<lparr>status := sample_lan_state\<lparr>LANInterface := ''en7''\<rparr>\<rparr>,
       sample_world) = (sv1, s1, w1)
     \<and> detectLAN mac_os Ctx (sv1, s1, w1) = (sv2, s2, w3)
     \<and> snap_iface (lan_snapshot s2) = ''en0''"
proof -
  let ?s = "sample_service\<lparr>status := sample_lan_state\<lparr>LANInterface := ''en7''\<rparr>\<rparr>"
  let ?next = "\<lparr>snap_subnet = Masked (Prefix (V4 0xC0A80069) (Some 24)), snap_iface = ''en0''\<rparr>"
  let ?w1 = "logged ''netstat'' [''-rn'', ''-f'', ''inet''] sample_world"
  have w: "netstat_text sample_world = sample_netstat" "nics sample_world = sample_nics"
    "netstat_text ?w1 = sample_netstat" "nics ?w1 = sample_nics"
    by (simp_all add: sample_world_def logged_def)
  have ne: "?next \<noteq> lan_snapshot ?s" "?next \<noteq> zero_snapshot"
    by (simp_all add: lan_snapshot_def GetState_def zero_snapshot_def)
  have first: "detectLAN mac_os Ctx (new_supervisor, ?s, sample_world)
      = (new_supervisor\<lparr>pendingLAN := ?next\<rparr>, ?s, ?w1)"
    using ne by (simp add: detectLAN_cases sample_detect [OF w(1,2)] Let_def new_supervisor_def)
  obtain sv2 s2 w3 where second: "detectLAN mac_os Ctx (new_supervisor\<lparr>pendingLAN := ?next\<rparr>, ?s, ?w1)
      = (sv2, s2, w3)" by (metis surj_pair)
  then have ch: "lan_snapshot s2 \<noteq> lan_snapshot ?s"
    using ne by (auto simp: detectLAN_cases sample_detect [OF w(3,4)] Let_def lan_snapshot_def GetState_def)
  have "LANInterface (status ?s) \<noteq> []" by simp
  from lan_debounced [OF this first second ch] have "snap_iface (lan_snapshot s2) = ''en0''"
    by (auto simp: sample_detect [OF w(1,2)])
  with first second show ?thesis by blast
qed

text \<open>
  C23: the registry is reset exactly when a LAN in use is replaced, so the first detection keeps
  the configured MACs; a check of the listener is requested with every LAN that comes into use;
  and a LAN that was found is never given up, whatever later detections say.
\<close>

theorem network_change_resets:
  "case detectLAN os ctx (sv, s, w) of (sv', s', w') \<Rightarrow>
     clients s' = (if LANInterface (status s) \<noteq> [] \<and> lan_snapshot s' \<noteq> lan_snapshot s
                   then resetNetwork (clients s) else clients s)
     \<and> lanCheck s' = (if lan_snapshot s' = lan_snapshot s then lanCheck s else True)
     \<and> (if LANInterface (status s') = [] then LANInterface (status s) = [] else True)"
proof -
  obtain res w1 where d: "DetectLAN os ctx (LANInterface (status s)) w = (res, w1)"
    by (metis surj_pair)
  show ?thesis
  proof (cases res)
    case (Inl e)
    with d show ?thesis by (simp add: detectLAN_cases)
  next
    case (Inr pi)
    then obtain p i where res: "res = Inr (p, i)" by (cases pi) auto
    let ?next = "\<lparr>snap_subnet = Masked p, snap_iface = i\<rparr>"
    have nx: "?next = lan_snapshot s \<longleftrightarrow> Masked p = LANSubnet (status s) \<and> i = LANInterface (status s)"
      by (simp add: lan_snapshot_def GetState_def)
    show ?thesis
      unfolding detectLAN_cases d res Let_def nx
      by (cases "Masked p = LANSubnet (status s) \<and> i = LANInterface (status s)"; cases "i = []";
          cases "LANInterface (status s) = []"; cases "pendingLAN sv = ?next")
        (auto simp: lan_snapshot_def GetState_def)
  qed
qed

text \<open>
  The supervisor takes the connection as its own exactly when its own connect command
  succeeded, which it issues only on an agent that is neither connected nor reconnecting.
\<close>

theorem connectedByUs_iff:
  assumes "tick os ctx (sv, s, w) = Some (d, sv', s', w')"
  shows "connectedByUs sv' \<longleftrightarrow> connectedByUs sv \<or>
     (let w1 = snd (snd (detectLAN os ctx (sv, s, w)));
          ((state, err), w2) = Status os ctx w1
      in err = None \<and> state \<noteq> StateConnected \<and> state \<noteq> StateReconnecting
         \<and> fst (Connect os ctx (CiscoProfile (opts s)) (CiscoUser (opts s)) (CiscoPassword (opts s)) w2) = None)"
proof -
  obtain sv1 s1 w1 where d: "detectLAN os ctx (sv, s, w) = (sv1, s1, w1)" by (metis surj_pair)
  obtain state err w2 where st: "Status os ctx w1 = ((state, err), w2)" by (metis surj_pair)
  obtain d3 sv3 s3 w3 where r: "react os ctx (state, err) (sv1, s1, w2) = (d3, sv3, s3, w3)"
    by (metis surj_pair)
  have c1: "connectedByUs sv1 = connectedByUs sv" "opts s1 = opts s"
    using detectLAN_frame [OF d] by auto
  have c4: "connectedByUs sv' = connectedByUs sv3"
    using assms by (auto simp: tick_def d st r after_react_def split: if_splits prod.splits option.splits)
  have await: "connectedByUs (fst (awaitReconnect os ctx (sv1, w2))) = connectedByUs sv1"
    using awaitReconnect_sv [of os ctx sv1 w2] by auto
  have "connectedByUs sv3 \<longleftrightarrow> connectedByUs sv1 \<or> err = None \<and> state \<noteq> StateConnected
      \<and> state \<noteq> StateReconnecting \<and> fst (Connect os ctx (CiscoProfile (opts s))
        (CiscoUser (opts s)) (CiscoPassword (opts s)) w2) = None"
    using r await c1(2)
    by (auto simp: react_def connect_def split: prod.splits if_splits option.splits)
  then show ?thesis by (simp add: c4 c1 d st Let_def)
qed

lemma sample_status:
  "Status mac_os ctx w = ((if vpn_state w = ''Connected'' then StateConnected else StateDisconnected, None),
     logged ciscoPath [''-s'', ''state''] w)"
  if "vpn_state w = ''Connected'' \<or> vpn_state w = ''Disconnected''"
proof -
  have "parseState (''  >> state: Connected'' @ [CHR 0x0A]) = StateConnected"
    "parseState (''  >> state: Disconnected'' @ [CHR 0x0A]) = StateDisconnected" by code_simp+
  with that show ?thesis
    by (auto simp: Status_def Run_def mac_simps vpn_exec_def ciscoPath_def logged_def)
qed

text \<open>On the sample machine, not connected yet, the supervisor connects.\<close>

theorem connectedByUs_iff_witness:
  "\<exists>d sv' s' w'. tick mac_os Ctx (new_supervisor\<lparr>readyNotified := True\<rparr>, sample_service, sample_world)
     = Some (d, sv', s', w') \<and> connectedByUs sv'"
proof -
  obtain d sv' s' w' where t: "tick mac_os Ctx (new_supervisor\<lparr>readyNotified := True\<rparr>, sample_service, sample_world)
     = Some (d, sv', s', w')" by (rule tick_some [OF sample_sup_inv])
  let ?w1 = "snd (snd (detectLAN mac_os Ctx (new_supervisor\<lparr>readyNotified := True\<rparr>, sample_service, sample_world)))"
  have w1: "?w1 = logged ''netstat'' [''-rn'', ''-f'', ''inet''] sample_world"
    by (simp add: detectLAN_cases sample_detect sample_world_def Let_def)
  have v: "vpn_state ?w1 = ''Disconnected''" "vpn_accepts ?w1"
    unfolding w1 by (simp_all add: logged_def sample_world_def)
  let ?w2 = "logged ciscoPath [''-s'', ''state''] ?w1"
  have "\<not> hasAcquiredError []" by code_simp
  then have c: "fst (Connect mac_os Ctx p u pw ?w2) = None" for p u pw
    using v by (simp add: Connect_succeeds_iff mac_simps ciscoPath_def vpn_exec_def sample_status logged_def)
  have "connectedByUs sv'"
    unfolding connectedByUs_iff [OF t]
    using v c by (simp add: sample_status state_defs Let_def)
  with t show ?thesis by blast
qed

end
