(* ===== verification/Pinner.thy ===== *)
theory Pinner
  imports Service
begin

text \<open>
  The pinner of \<open>service.go\<close>: once the VPN is up it walks the registered clients every second,
  compares the kernel's ARP entry with what the registry knows, and pins an entry again only
  where \<open>DecidePin\<close> says so. The operations on ARP are the parameter \<open>ops\<close>.
\<close>

section \<open>Operations\<close>

definition pinInterval :: duration where "pinInterval = second"
definition clientExpireInterval :: duration where "clientExpireInterval = minute"

text \<open>The body of the loop over the snapshot; every \<open>continue\<close> leaves the state as it is.\<close>

definition pin_client ::
  "'w pinOps \<Rightarrow> State \<Rightarrow> string \<times> string \<Rightarrow> service \<times> 'w \<Rightarrow> service \<times> 'w" where
  "pin_client ops state im sw =
     (case im of (ip, mac) \<Rightarrow> case sw of (s, w) \<Rightarrow>
      (case ParseAddr ip of
         None \<Rightarrow> (s, w)
       | Some a \<Rightarrow>
           if \<not> Contains (LANSubnet state) a then (s, w)
           else if ip = addr_string (LANAddr state) then (s, w)
           else (case op_lookup ops ip w of
             ((entry, found), w1) \<Rightarrow>
               (case DecidePin entry found mac (LANInterface state) of
                  PinAdopt \<Rightarrow> (s\<lparr>clients := setMAC ip (arp_mac entry) (clients s)\<rparr>, w1)
                | PinRepin \<Rightarrow> (s, snd (op_pin ops ip mac (LANInterface state) w1))
                | PinNone \<Rightarrow> (s, w1)))))"

definition pinClients :: "'w pinOps \<Rightarrow> State \<Rightarrow> service \<times> 'w \<Rightarrow> service \<times> 'w" where
  "pinClients ops state sw = fold (pin_client ops state) (snapshot (clients (fst sw))) sw"

text \<open>One turn of the loop of \<open>startPinner\<close>, after the sleep. \<open>lastExpire\<close> starts at zero.\<close>

definition pinner_tick ::
  "('w \<Rightarrow> go_time \<times> 'w) \<Rightarrow> 'w pinOps \<Rightarrow> go_time \<times> service \<times> 'w \<Rightarrow> go_time \<times> service \<times> 'w" where
  "pinner_tick clock ops st =
     (case st of (lastExpire, s, w) \<Rightarrow>
      let (now, w1) = clock w;
          due = time_sub now lastExpire \<ge> clientExpireInterval;
          lastExpire1 = (if due then now else lastExpire);
          s1 = (if due
                then s\<lparr>clients := snd (expire now discoveredClientTTL (remoteIPs (conns s)) (clients s))\<rparr>
                else s);
          state = GetState s1
      in if \<not> CiscoConnected state \<or> LANInterface state = [] then (lastExpire1, s1, w1)
         else (lastExpire1, pinClients ops state (s1, w1)))"

text \<open>
  At most \<open>n\<close> turns; \<open>None\<close> when the context is still alive after them. \<open>ready\<close> is the branch
  the first select takes: the channel was closed, or the context was done before.
\<close>

fun pinner_loop ::
  "nat \<Rightarrow> 'w os \<Rightarrow> go_ctx \<Rightarrow> 'w pinOps \<Rightarrow> go_time \<times> service \<times> 'w \<Rightarrow> (service \<times> 'w) option" where
  "pinner_loop 0 os ctx ops st = None"
| "pinner_loop (Suc n) os ctx ops (lastExpire, s, w) =
     (case sleepCtx os ctx pinInterval w of
        (False, w1) \<Rightarrow> Some (s, w1)
      | (True, w1) \<Rightarrow> pinner_loop n os ctx ops (pinner_tick (os_now os) ops (lastExpire, s, w1)))"

definition startPinner ::
  "bool \<Rightarrow> nat \<Rightarrow> 'w os \<Rightarrow> go_ctx \<Rightarrow> 'w pinOps \<Rightarrow> service \<times> 'w \<Rightarrow> (service \<times> 'w) option" where
  "startPinner ready n os ctx ops sw =
     (if ready then pinner_loop n os ctx ops (0, sw) else Some sw)"

section \<open>One client\<close>

text \<open>Whether a registered address is the pinner's business in a given state.\<close>

definition in_scope :: "State \<Rightarrow> string \<Rightarrow> bool" where
  "in_scope st ip \<longleftrightarrow>
     (case ParseAddr ip of None \<Rightarrow> False | Some a \<Rightarrow> Contains (LANSubnet st) a)
     \<and> ip \<noteq> addr_string (LANAddr st)"

lemma pin_client_cases:
  "pin_client ops st (ip, mac) (s, w) =
     (if \<not> in_scope st ip then (s, w)
      else (case op_lookup ops ip w of
        ((e, found), w1) \<Rightarrow>
          (case DecidePin e found mac (LANInterface st) of
             PinAdopt \<Rightarrow> (s\<lparr>clients := setMAC ip (arp_mac e) (clients s)\<rparr>, w1)
           | PinRepin \<Rightarrow> (s, snd (op_pin ops ip mac (LANInterface st) w1))
           | PinNone \<Rightarrow> (s, w1))))"
  by (auto simp: pin_client_def in_scope_def split: option.splits)

lemma pin_client_frame:
  "\<exists>r. fst (pin_client ops st im (s, w)) = s\<lparr>clients := r\<rparr>"
  by (cases im)
    (auto simp: pin_client_cases intro: exI [of _ "clients s"] split: prod.splits PinAction.splits)

lemma pin_client_wf [go_inv]:
  assumes "arp_sound ops" and "reg_wf (clients s)"
  shows "reg_wf (clients (fst (pin_client ops st im (s, w))))"
  using assms(2) arp_source.lookup_sound [OF assms(1)]
  by (cases im)
    (auto simp: pin_client_cases DecidePin_adopt intro!: reg_wf_setMAC
      split: prod.splits PinAction.splits)

lemma pin_client_keys:
  "dom (gm_get (clients (fst (pin_client ops st im (s, w))))) = dom (gm_get (clients s))"
  by (cases im)
    (auto simp: pin_client_cases get_setMAC dom_def split: prod.splits PinAction.splits if_splits)

lemma pin_client_static:
  "static_ips (clients (fst (pin_client ops st im (s, w)))) = static_ips (clients s)"
  by (cases im)
    (auto simp: pin_client_cases get_setMAC static_ips_def
      split: prod.splits PinAction.splits if_splits)

lemma pin_client_other:
  "ip' \<noteq> fst im \<Longrightarrow>
   gm_get (clients (fst (pin_client ops st im (s, w)))) ip' = gm_get (clients s) ip'"
  by (cases im) (auto simp: pin_client_cases get_setMAC split: prod.splits PinAction.splits)

text \<open>The pins one client causes: none, or one with what the registry knows.\<close>

lemma pin_client_log:
  "\<exists>new. snd (snd (pin_client (log_pins ops) st (ip, mac) (s, (w, l)))) = l @ new
     \<and> (new = [] \<or> new = [(ip, mac, LANInterface st)] \<and> in_scope st ip \<and> mac \<noteq> [])"
  by (auto simp: pin_client_cases log_pins_def DecidePin_repin split: prod.splits PinAction.splits)

section \<open>All clients\<close>

text \<open>Facts of one client that hold of the walk over any list of clients.\<close>

lemma pin_fold_inv:
  assumes "\<And>im s w. K s \<Longrightarrow> K (fst (pin_client ops st im (s, w)))"
  shows "K (fst sw) \<Longrightarrow> K (fst (fold (pin_client ops st) ims sw))"
proof (induction ims arbitrary: sw)
  case Nil
  then show ?case by simp
next
  case (Cons im ims)
  then have "K (fst (pin_client ops st im sw))"
    using assms [of "fst sw" im "snd sw"] by simp
  from Cons.IH [OF this] show ?case by simp
qed

lemma pinClients_inv:
  assumes "\<And>im s w. K s \<Longrightarrow> K (fst (pin_client ops st im (s, w)))" and "K s"
  shows "K (fst (pinClients ops st (s, w)))"
  unfolding pinClients_def
proof (rule pin_fold_inv)
  show "\<And>im s w. K s \<Longrightarrow> K (fst (pin_client ops st im (s, w)))" by (rule assms(1))
qed (use assms(2) in simp)

lemma pinClients_wf [go_inv]:
  "arp_sound ops \<Longrightarrow> reg_wf (clients s) \<Longrightarrow> reg_wf (clients (fst (pinClients ops st (s, w))))"
  by (rule pinClients_inv [where K = "\<lambda>s. reg_wf (clients s)"]) (auto intro: go_inv)

lemma pinClients_static:
  "static_ips (clients (fst (pinClients ops st (s, w)))) = static_ips (clients s)"
  by (rule pinClients_inv [where K = "\<lambda>s'. static_ips (clients s') = static_ips (clients s)"])
    (simp_all add: pin_client_static)

lemma pinClients_keys:
  "dom (gm_get (clients (fst (pinClients ops st (s, w))))) = dom (gm_get (clients s))"
  by (rule pinClients_inv [where K = "\<lambda>s'. dom (gm_get (clients s')) = dom (gm_get (clients s))"])
    (simp_all add: pin_client_keys)

lemma pinClients_frame: "\<exists>r. fst (pinClients ops st (s, w)) = s\<lparr>clients := r\<rparr>"
proof (rule pinClients_inv [where K = "\<lambda>s'. \<exists>r. s' = s\<lparr>clients := r\<rparr>"])
  fix im s' w
  assume "\<exists>r. s' = s\<lparr>clients := r\<rparr>"
  then obtain r where r: "s' = s\<lparr>clients := r\<rparr>" ..
  from pin_client_frame [of ops st im s' w]
  obtain r' where "fst (pin_client ops st im (s', w)) = s'\<lparr>clients := r'\<rparr>" ..
  then show "\<exists>r. fst (pin_client ops st im (s', w)) = s\<lparr>clients := r\<rparr>"
    unfolding r by (intro exI [of _ r']) simp
next
  show "\<exists>r. s = s\<lparr>clients := r\<rparr>" by (rule exI [of _ "clients s"]) simp
qed

lemma pin_fold_log:
  "distinct (map fst ims) \<Longrightarrow>
   \<exists>new. snd (snd (fold (pin_client (log_pins ops) st) ims (s, (w, l)))) = l @ new
     \<and> distinct (map fst new)
     \<and> (\<forall>(ip, mac, iface) \<in> set new.
          (ip, mac) \<in> set ims \<and> iface = LANInterface st \<and> in_scope st ip \<and> mac \<noteq> [])"
proof (induction ims arbitrary: s w l)
  case Nil
  then show ?case by simp
next
  case (Cons im ims)
  obtain ip mac where im: "im = (ip, mac)" by (cases im)
  obtain s1 w1 l1 where step: "pin_client (log_pins ops) st (ip, mac) (s, (w, l)) = (s1, (w1, l1))"
    by (metis surj_pair)
  from pin_client_log [of ops st ip mac s w l] step obtain n1 where
    n1: "l1 = l @ n1" "n1 = [] \<or> n1 = [(ip, mac, LANInterface st)] \<and> in_scope st ip \<and> mac \<noteq> []"
    by auto
  from Cons.IH [of s1 w1 l1] Cons.prems obtain n2 where
    n2: "snd (snd (fold (pin_client (log_pins ops) st) ims (s1, (w1, l1)))) = l1 @ n2"
      "distinct (map fst n2)"
      "\<forall>(ip, mac, iface) \<in> set n2.
          (ip, mac) \<in> set ims \<and> iface = LANInterface st \<and> in_scope st ip \<and> mac \<noteq> []"
    by auto
  have "fst ` set n2 \<subseteq> fst ` set ims" using n2(3) by force
  moreover have "ip \<notin> fst ` set ims" using Cons.prems by (simp add: im)
  ultimately have "ip \<notin> fst ` set n2" by blast
  then have d: "distinct (map fst (n1 @ n2))"
    using n1(2) n2(2) by (auto simp: rev_image_eqI)
  have "snd (snd (fold (pin_client (log_pins ops) st) (im # ims) (s, (w, l)))) = l1 @ n2"
    by (simp add: im step n2(1))
  then have "snd (snd (fold (pin_client (log_pins ops) st) (im # ims) (s, (w, l)))) = l @ n1 @ n2"
    by (simp only: n1(1) append_assoc)
  moreover have "\<forall>(ip, mac, iface) \<in> set (n1 @ n2).
      (ip, mac) \<in> set (im # ims) \<and> iface = LANInterface st \<and> in_scope st ip \<and> mac \<noteq> []"
    using n1(2) n2(3) by (auto simp: im)
  ultimately show ?case using d by (intro exI [of _ "n1 @ n2"] conjI)
qed

lemma pinner_tick_dom:
  "dom (gm_get (clients (fst (snd (pinner_tick clock ops (lastExpire, s, w)))))) =
     dom (gm_get (if time_sub (fst (clock w)) lastExpire \<ge> clientExpireInterval
       then snd (expire (fst (clock w)) discoveredClientTTL (remoteIPs (conns s)) (clients s))
       else clients s))"
  by (simp add: pinner_tick_def Let_def pinClients_keys split: prod.split)

section \<open>The kernel's ARP table\<close>

text \<open>
  What the commands behind \<open>lookup\<close> and \<open>pin\<close> promise of the kernel's table: a lookup reads
  the entry and changes none, a pin that succeeds sets the entry of its address, and no pin
  changes the entry of another address.
\<close>

locale arp_kernel = arp_source lookup for lookup :: "string \<Rightarrow> 'w \<Rightarrow> (ArpEntry \<times> bool) \<times> 'w" +
  fixes pin :: "string \<Rightarrow> string \<Rightarrow> string \<Rightarrow> 'w \<Rightarrow> go_error option \<times> 'w"
    and table :: "'w \<Rightarrow> string \<Rightarrow> ArpEntry option"
  assumes lookup_reads: "fst (lookup ip w) =
      (case table w ip of Some e \<Rightarrow> (e, True) | None \<Rightarrow> (zero_entry, False))"
    and lookup_frame: "table (snd (lookup ip w)) = table w"
    and pin_sets: "plain_word ip \<Longrightarrow> canonical mac \<Longrightarrow> plain_word iface \<Longrightarrow> \<not> keyword iface \<Longrightarrow>
      fst (pin ip mac iface w) = None \<Longrightarrow>
      table (snd (pin ip mac iface w)) ip = Some \<lparr>arp_mac = mac, arp_iface = iface\<rparr>"
    and pin_frame: "ip' \<noteq> ip \<Longrightarrow> table (snd (pin ip mac iface w)) ip' = table w ip'"
begin

text \<open>The decision the pinner will take for an address, read off the table.\<close>

definition verdict :: "'w \<Rightarrow> string \<Rightarrow> string \<Rightarrow> string \<Rightarrow> PinAction" where
  "verdict w ip want iface =
     (case table w ip of Some e \<Rightarrow> DecidePin e True want iface
      | None \<Rightarrow> DecidePin zero_entry False want iface)"

lemma verdict_lookup:
  "lookup ip w = ((e, found), w') \<Longrightarrow> DecidePin e found want iface = verdict w ip want iface"
  using lookup_reads [of ip w] by (auto simp: verdict_def split: option.splits)

lemma verdict_frame: "verdict (snd (lookup ip' w)) ip want iface = verdict w ip want iface"
  by (simp add: verdict_def lookup_frame)

lemma verdict_pinned:
  "plain_word ip \<Longrightarrow> canonical mac \<Longrightarrow> plain_word iface \<Longrightarrow> \<not> keyword iface \<Longrightarrow>
   fst (pin ip mac iface w) = None \<Longrightarrow> verdict (snd (pin ip mac iface w)) ip mac iface = PinNone"
  by (simp add: verdict_def pin_sets DecidePin_none sameMAC_refl)

lemma verdict_pin_other:
  "ip' \<noteq> ip \<Longrightarrow> verdict (snd (pin ip mac iface w)) ip' want iface' = verdict w ip' want iface'"
  by (simp add: verdict_def pin_frame)

text \<open>One client: after its turn the pinner has nothing left to do for it.\<close>

definition settled :: "State \<Rightarrow> service \<times> 'w \<Rightarrow> string \<Rightarrow> bool" where
  "settled st sw ip \<longleftrightarrow>
     (\<forall>e. gm_get (clients (fst sw)) ip = Some e \<longrightarrow> in_scope st ip \<longrightarrow>
        verdict (snd sw) ip (entry_mac e) (LANInterface st) = PinNone)"

abbreviation kernel_ops :: "'w pinOps" where
  "kernel_ops \<equiv> \<lparr>op_lookup = lookup, op_pin = pin\<rparr>"

lemma pin_client_settles:
  assumes e: "gm_get (clients s) ip = Some e" and wf: "reg_wf (clients s)"
    and names: "plain_word ip" "plain_word (LANInterface st)" "\<not> keyword (LANInterface st)"
    and works: "\<And>ip mac w. fst (pin ip mac (LANInterface st) w) = None"
  shows "settled st (pin_client kernel_ops st (ip, entry_mac e) (s, w)) ip"
proof (cases "in_scope st ip")
  case False
  then show ?thesis by (simp add: settled_def)
next
  case True
  obtain a found w1 where lk: "lookup ip w = ((a, found), w1)" by (metis surj_pair)
  have v: "verdict w1 ip want (LANInterface st) = DecidePin a found want (LANInterface st)" for want
    using verdict_lookup [OF lk] verdict_frame [of ip w ip] lk by simp
  show ?thesis
  proof (cases "DecidePin a found (entry_mac e) (LANInterface st)")
    case PinNone
    with True lk v e show ?thesis by (simp add: settled_def pin_client_cases)
  next
    case PinAdopt
    with True lk v e adopt_settles(2) [OF lk PinAdopt] show ?thesis
      by (auto simp: settled_def pin_client_cases get_setMAC)
  next
    case PinRepin
    then have "canonical (entry_mac e)"
      using reg_wf_get [OF wf e] by (simp add: DecidePin_repin known_mac_def)
    with PinRepin True lk e show ?thesis
      using verdict_pinned [OF names(1) _ names(2,3) works]
      by (simp add: settled_def pin_client_cases)
  qed
qed

lemma pin_client_settled_other:
  "ip' \<noteq> ip \<Longrightarrow> settled st (pin_client kernel_ops st (ip, mac) (s, w)) ip' = settled st (s, w) ip'"
  by (auto simp: settled_def pin_client_cases get_setMAC verdict_pin_other
      split: prod.splits PinAction.splits)
    (metis snd_conv verdict_frame)+

text \<open>A pass over a list of clients settles each of them and unsettles none.\<close>

lemma pin_fold_settles:
  assumes names: "plain_word (LANInterface st)" "\<not> keyword (LANInterface st)"
    and works: "\<And>ip mac w. fst (pin ip mac (LANInterface st) w) = None"
  shows "distinct (map fst ims) \<Longrightarrow> reg_wf (clients (fst sw)) \<Longrightarrow>
     list_all (\<lambda>(ip, mac). plain_word ip \<and>
        map_option entry_mac (gm_get (clients (fst sw)) ip) = Some mac) ims \<Longrightarrow>
     (ip \<in> fst ` set ims \<or> settled st sw ip) \<Longrightarrow>
     settled st (fold (pin_client kernel_ops st) ims sw) ip"
proof (induction ims arbitrary: sw)
  case Nil
  then show ?case by simp
next
  case (Cons im ims)
  obtain ip1 mac1 where im: "im = (ip1, mac1)" by (cases im)
  obtain s w where sw: "sw = (s, w)" by (cases sw)
  let ?sw1 = "pin_client kernel_ops st im sw"
  from Cons.prems obtain e where e: "gm_get (clients s) ip1 = Some e" "mac1 = entry_mac e"
    and plain: "plain_word ip1" by (auto simp: im sw)
  have wf: "reg_wf (clients s)" using Cons.prems by (simp add: sw)
  have s1: "settled st ?sw1 ip1"
    unfolding im sw e(2) by (rule pin_client_settles [OF e(1) wf plain names works])
  have same: "gm_get (clients (fst ?sw1)) k = gm_get (clients s) k" if "k \<noteq> ip1" for k
    unfolding im sw using that by (intro pin_client_other) simp
  have "list_all (\<lambda>(ip, mac). plain_word ip \<and>
        map_option entry_mac (gm_get (clients (fst ?sw1)) ip) = Some mac) ims"
    unfolding list_all_iff
  proof (clarify)
    fix k m
    assume k: "(k, m) \<in> set ims"
    then have "k \<noteq> ip1" using Cons.prems(1) by (force simp: im)
    moreover from Cons.prems(3) k
    have "plain_word k \<and> map_option entry_mac (gm_get (clients s) k) = Some m"
      by (auto simp: list_all_iff sw)
    ultimately show "plain_word k
        \<and> map_option entry_mac (gm_get (clients (fst ?sw1)) k) = Some m"
      by (simp only: same simp_thms)
  qed
  moreover have "reg_wf (clients (fst ?sw1))"
    unfolding sw using arp_source_axioms by (intro pin_client_wf wf) simp
  moreover have "ip \<in> fst ` set ims \<or> settled st ?sw1 ip"
    using Cons.prems(4) s1 pin_client_settled_other [of ip ip1 st mac1 s w]
    by (auto simp: im sw)
  ultimately show ?case
    using Cons.IH [of ?sw1] Cons.prems(1) by simp
qed

lemma pin_client_quiet:
  assumes "in_scope st ip \<Longrightarrow> verdict w ip mac (LANInterface st) = PinNone"
  shows "\<exists>w1. pin_client (log_pins kernel_ops) st (ip, mac) (s, (w, l)) = (s, (w1, l))
     \<and> table w1 = table w"
proof (cases "in_scope st ip")
  case False
  then show ?thesis by (auto simp: pin_client_cases)
next
  case True
  obtain a found w1 where lk: "lookup ip w = ((a, found), w1)" by (metis surj_pair)
  have "DecidePin a found mac (LANInterface st) = PinNone"
    using assms [OF True] verdict_lookup [OF lk] by simp
  moreover have "table w1 = table w" using lookup_frame [of ip w] lk by simp
  ultimately show ?thesis using True lk by (auto simp: pin_client_cases log_pins_def)
qed

lemma pin_fold_quiet:
  assumes "\<forall>(ip, mac) \<in> set ims. in_scope st ip \<longrightarrow> verdict w ip mac (LANInterface st) = PinNone"
  shows "\<exists>w1. fold (pin_client (log_pins kernel_ops) st) ims (s, (w, l)) = (s, (w1, l))"
  using assms
proof (induction ims arbitrary: w)
  case Nil
  then show ?case by simp
next
  case (Cons im ims)
  obtain ip mac where im: "im = (ip, mac)" by (cases im)
  obtain w1 where w1: "pin_client (log_pins kernel_ops) st im (s, (w, l)) = (s, (w1, l))"
    and t: "table w1 = table w"
    using pin_client_quiet [of st ip w mac s l] Cons.prems by (auto simp: im)
  have "verdict w1 = verdict w" by (intro ext) (simp add: verdict_def t)
  then show ?case using Cons.IH [of w1] Cons.prems by (simp add: w1)
qed

lemma pinClients_settles:
  assumes names: "plain_word (LANInterface st)" "\<not> keyword (LANInterface st)"
    and works: "\<And>ip mac w. fst (pin ip mac (LANInterface st) w) = None"
    and wf: "reg_wf (clients s)" and ips: "\<And>ip. ip \<in> dom (gm_get (clients s)) \<Longrightarrow> plain_word ip"
    and first: "pinClients kernel_ops st (s, w) = (s1, w1)"
  shows "\<exists>w2. pinClients (log_pins kernel_ops) st (s1, (w1, l)) = (s1, (w2, l))"
  unfolding pinClients_def fst_conv
proof (rule pin_fold_quiet, clarify)
  fix ip mac
  assume mem: "(ip, mac) \<in> set (snapshot (clients s1))" and scope: "in_scope st ip"
  have wf1: "reg_wf (clients s1)"
    using pinClients_wf [of kernel_ops s st w] wf first arp_source_axioms by simp
  then have get1: "gm_get (snapshot (clients s1)) ip = Some mac"
    using mem by (simp add: gm_get_mem)
  then obtain e where e: "gm_get (clients s1) ip = Some e" "mac = entry_mac e"
    by (auto simp: get_snapshot)
  have "ip \<in> dom (gm_get (clients s))"
    using pinClients_keys [of kernel_ops st s w] first e(1) by auto
  then have key: "ip \<in> fst ` set (snapshot (clients s))"
    by (auto simp: snapshot_def gm_map_def dom_map_of_conv_image_fst image_image split_beta)
  have "settled st (fold (pin_client kernel_ops st) (snapshot (clients s)) (s, w)) ip"
  proof (rule pin_fold_settles [OF names works])
    show "distinct (map fst (snapshot (clients s)))"
      using wf by (simp add: gm_wf_def [symmetric])
    show "list_all (\<lambda>(ip, mac). plain_word ip \<and>
        map_option entry_mac (gm_get (clients (fst (s, w))) ip) = Some mac) (snapshot (clients s))"
      using wf by (auto simp: list_all_iff gm_get_mem [symmetric] get_snapshot)
        (rule ips [OF domI])
  qed (use wf key in simp_all)
  then show "verdict w1 ip mac (LANInterface st) = PinNone"
    using first scope e by (simp add: pinClients_def settled_def)
qed

end

section \<open>The sample machine's table\<close>

text \<open>What the entry of an address reads as, in the words \<open>arp -n\<close> prints.\<close>

definition mac_table :: "mac_world \<Rightarrow> string \<Rightarrow> ArpEntry option" where
  "mac_table w ip =
     (case gm_get (arp_table w) ip of
        None \<Rightarrow> None
      | Some (mac, iface) \<Rightarrow>
          (case parseArpEntry (arp_line ip mac iface [''[ethernet]'']) of
             (e, ok) \<Rightarrow> if ok then Some e else None))"

lemma mac_lookup:
  "LookupARP mac_os ctx ip w =
     ((case mac_table w ip of Some e \<Rightarrow> (e, True) | None \<Rightarrow> (zero_entry, False)),
      logged ''arp'' [''-n'', ip] w)"
  using parseArpEntry_False
  by (auto simp: LookupARP_def Run_def mac_simps arp_exec_def mac_table_def logged_def
      split: option.splits prod.splits)

lemma mac_pin:
  "Pin mac_os ctx ip mac iface w =
     (None, (logged ''arp'' [''-S'', ip, mac, ''temp'']
        ((logged ''route'' [''change'', ip, ''-interface'', iface] w)
           \<lparr>host_routes := gm_put ip iface (host_routes w)\<rparr>))
        \<lparr>arp_table := gm_put ip (mac, iface) (arp_table w)\<rparr>)"
  by (simp add: Pin_def Run_def mac_simps arp_exec_def logged_def)

lemma mac_table_logged [simp]: "mac_table (logged name args w) = mac_table w"
  by (intro ext) (simp add: mac_table_def logged_def)

interpretation mac_kernel: arp_kernel "LookupARP mac_os ctx" "Pin mac_os ctx" mac_table for ctx
proof (unfold_locales, goal_cases)
  case (3 ip mac iface w)
  then have "plain_word mac" by (simp add: canonical_plain)
  with 3 have "arp_scan (str_fields (arp_line ip mac iface [''[ethernet]''])) zero_entry
      = \<lparr>arp_mac = mac, arp_iface = iface\<rparr>"
    by (intro arp_scan_line canonical_not_keyword)
      (auto simp: canonical_def plain_word_def plain_char_def keyword_def)
  with 3 have "parseArpEntry (arp_line ip mac iface [''[ethernet]''])
      = (\<lparr>arp_mac = mac, arp_iface = iface\<rparr>, True)"
    by (auto simp: parseArpEntry_def canonical_def plain_word_def)
  then show ?case by (simp add: mac_pin mac_table_def)
qed (simp_all add: mac_lookup mac_pin mac_table_def)

section \<open>Properties\<close>

text \<open>
  C15: what the pinner writes to the kernel. In one pass every pin is for a registered client,
  with exactly the MAC the registry has for it and on the LAN interface; the address parses,
  lies in the LAN subnet and is not the host's own; no client is pinned twice; and no client
  without a MAC is pinned. The registry keeps its invariant, its addresses and its static
  clients, and nothing else of the service changes.
\<close>

theorem pinClients_pins:
  assumes "arp_sound ops" and "reg_wf (clients s)"
    and "pinClients (log_pins ops) st (s, (w, l)) = (s', (w', l'))"
  shows "(\<exists>new. l' = l @ new \<and> distinct (map fst new)
       \<and> (\<forall>(ip, mac, iface) \<in> set new.
            gm_get (snapshot (clients s)) ip = Some mac \<and> canonical mac
            \<and> iface = LANInterface st \<and> ip \<noteq> addr_string (LANAddr st)
            \<and> (\<exists>a. ParseAddr ip = Some a \<and> Contains (LANSubnet st) a)))
     \<and> reg_wf (clients s') \<and> (\<exists>r. s' = s\<lparr>clients := r\<rparr>)
     \<and> dom (gm_get (clients s')) = dom (gm_get (clients s))
     \<and> static_ips (clients s') = static_ips (clients s)"
proof (intro conjI)
  have "distinct (map fst (snapshot (clients s)))"
    using assms(2) by (simp add: gm_wf_def [symmetric])
  from pin_fold_log [OF this, of ops st s w l] assms(3) obtain new where
    new: "l' = l @ new" "distinct (map fst new)"
      "\<forall>(ip, mac, iface) \<in> set new. (ip, mac) \<in> set (snapshot (clients s))
         \<and> iface = LANInterface st \<and> in_scope st ip \<and> mac \<noteq> []"
    by (auto simp: pinClients_def)
  have "\<forall>(ip, mac, iface) \<in> set new.
      gm_get (snapshot (clients s)) ip = Some mac \<and> canonical mac
      \<and> iface = LANInterface st \<and> ip \<noteq> addr_string (LANAddr st)
      \<and> (\<exists>a. ParseAddr ip = Some a \<and> Contains (LANSubnet st) a)"
  proof (clarify, goal_cases)
    case (1 ip mac iface)
    with new(3) have m: "gm_get (snapshot (clients s)) ip = Some mac" "mac \<noteq> []"
        "in_scope st ip" "iface = LANInterface st"
      using assms(2) by (auto simp: gm_get_mem)
    then have "canonical mac"
      using assms(2) by (auto simp: get_snapshot known_mac_def dest: reg_wf_get)
    with m show ?case by (auto simp: in_scope_def split: option.splits)
  qed
  with new(1,2) show "\<exists>new. l' = l @ new \<and> distinct (map fst new)
       \<and> (\<forall>(ip, mac, iface) \<in> set new.
            gm_get (snapshot (clients s)) ip = Some mac \<and> canonical mac
            \<and> iface = LANInterface st \<and> ip \<noteq> addr_string (LANAddr st)
            \<and> (\<exists>a. ParseAddr ip = Some a \<and> Contains (LANSubnet st) a))"
    by blast
next
  show "reg_wf (clients s')"
    using pinClients_wf [OF arp_sound_log [OF assms(1)] assms(2), of st "(w, l)"] assms(3) by simp
next
  show "\<exists>r. s' = s\<lparr>clients := r\<rparr>"
    using pinClients_frame [of "log_pins ops" st s "(w, l)"] assms(3) by simp
next
  show "dom (gm_get (clients s')) = dom (gm_get (clients s))"
    using pinClients_keys [of "log_pins ops" st s "(w, l)"] assms(3) by simp
next
  show "static_ips (clients s') = static_ips (clients s)"
    using pinClients_static [of "log_pins ops" st s "(w, l)"] assms(3) by simp
qed

lemma sample_mac_canonical: "canonical ''72:ce:39:12:45:0f''"
  unfolding canonical_def by code_simp

lemma sample_registry:
  "clients sample_service = [(''192.168.0.42'', \<lparr>lastSeen = 0, entry_mac = ''72:ce:39:12:45:0f'', static = True\<rparr>)]"
  using sample_mac_canonical
  by (simp add: sample_service_def New_def sample_opts_def newClientRegistry_def gm_put_def
      static_entry_def canonical_def zero_clientEntry_def)

text \<open>The sample service pins its one client, which has no entry yet.\<close>

theorem pinClients_pins_witness:
  "\<exists>s' w' l'. pinClients (log_pins (route_ops mac_os Ctx)) sample_lan_state
       (sample_service, (sample_world, [])) = (s', (w', l'))
     \<and> static_ips (clients s') = static_ips (clients sample_service)"
proof -
  obtain s' w' l' where p: "pinClients (log_pins (route_ops mac_os Ctx)) sample_lan_state
       (sample_service, (sample_world, [])) = (s', (w', l'))"
    by (metis surj_pair)
  from pinClients_pins [OF arp_sound_route sample_service_wf p] p show ?thesis by blast
qed

text \<open>
  C16: the pinner reaches a steady state. If every pin succeeds on the LAN interface, then after
  one pass over the clients a further pass in the same network issues no pin and changes
  nothing in the registry: drift is repaired once, and traffic is not disturbed again.
\<close>

theorem pinClients_steady:
  assumes "arp_kernel (op_lookup ops) (op_pin ops) table"
    and "plain_word (LANInterface st)" and "\<not> keyword (LANInterface st)"
    and "\<And>ip mac w. fst (op_pin ops ip mac (LANInterface st) w) = None"
    and "reg_wf (clients s)" and "\<And>ip. ip \<in> dom (gm_get (clients s)) \<Longrightarrow> plain_word ip"
    and "pinClients ops st (s, w) = (s1, w1)"
  shows "\<exists>w2. pinClients (log_pins ops) st (s1, (w1, l)) = (s1, (w2, l))"
proof -
  have ops: "\<lparr>op_lookup = op_lookup ops, op_pin = op_pin ops\<rparr> = ops" by simp
  show ?thesis
    using arp_kernel.pinClients_settles [OF assms(1-3) _ assms(5,6), unfolded ops] assms(4,7)
    by blast
qed

theorem pinClients_steady_witness:
  "\<exists>s1 w1 w2. pinClients (route_ops mac_os Ctx) sample_lan_state (sample_service, sample_world) = (s1, w1)
     \<and> pinClients (log_pins (route_ops mac_os Ctx)) sample_lan_state (s1, (w1, [])) = (s1, (w2, []))"
proof -
  obtain s1 w1 where p: "pinClients (route_ops mac_os Ctx) sample_lan_state (sample_service, sample_world) = (s1, w1)"
    by (metis surj_pair)
  have k: "arp_kernel (op_lookup (route_ops mac_os Ctx)) (op_pin (route_ops mac_os Ctx)) mac_table"
    using mac_kernel.arp_kernel_axioms [of Ctx] by (simp add: route_ops_def)
  have "\<exists>w2. pinClients (log_pins (route_ops mac_os Ctx)) sample_lan_state (s1, (w1, [])) = (s1, (w2, []))"
  proof (rule pinClients_steady [OF k _ _ _ sample_service_wf _ p])
    show "plain_word (LANInterface sample_lan_state)" and "\<not> keyword (LANInterface sample_lan_state)"
      by (simp_all add: sample_lan_state_def plain_word_def plain_char_def keyword_def)
  next
    fix ip mac w
    show "fst (op_pin (route_ops mac_os Ctx) ip mac (LANInterface sample_lan_state) w) = None"
      by (simp add: route_ops_def mac_pin)
  next
    fix ip
    assume "ip \<in> dom (gm_get (clients sample_service))"
    then show "plain_word ip"
      by (auto simp: sample_registry plain_word_def plain_char_def split: if_splits)
  qed
  with p show ?thesis by blast
qed

text \<open>
  A turn of the pinner removes a client from the registry only when the minute since the
  last expiry is over and the client is discovered, has no open connection and was not seen
  for thirty minutes; every other client stays, and no client appears.
\<close>

theorem pinner_tick_keeps:
  assumes "reg_wf (clients s)"
    and "pinner_tick clock ops (lastExpire, s, w) = (lastExpire', s', w')"
  shows "dom (gm_get (clients s')) = dom (gm_get (clients s)) -
     {ip. time_sub (fst (clock w)) lastExpire \<ge> clientExpireInterval
        \<and> (\<exists>e. gm_get (clients s) ip = Some e \<and> \<not> static e
              \<and> (\<forall>c \<in> fst ` set (conns s). \<forall>a p. remoteAddrPort c = Some (a, p) \<longrightarrow> ip \<noteq> addr_string a)
              \<and> time_sub (fst (clock w)) (lastSeen e) \<ge> discoveredClientTTL)}"
proof -
  have st: "stale t d (remoteIPs (conns s)) ip e \<longleftrightarrow> \<not> static e
      \<and> (\<forall>c \<in> fst ` set (conns s). \<forall>a p. remoteAddrPort c = Some (a, p) \<longrightarrow> ip \<noteq> addr_string a)
      \<and> time_sub t (lastSeen e) \<ge> d" for t d ip e
    unfolding stale_def get_remoteIPs by (auto simp: not_less)
  have ex: "dom (gm_get (snd (expire t d (remoteIPs (conns s)) (clients s)))) =
      dom (gm_get (clients s)) - {ip. \<exists>e. gm_get (clients s) ip = Some e
        \<and> stale t d (remoteIPs (conns s)) ip e}" for t d
    using assms(1) by (auto simp: get_expire dom_def split: option.splits if_splits)
  show ?thesis
    using pinner_tick_dom [of clock ops lastExpire s w] assms(2) by (simp add: ex st)
qed

theorem pinner_tick_keeps_witness:
  "\<exists>le s' w'. pinner_tick (os_now mac_os) (route_ops mac_os Ctx) (0, sample_service, sample_world) = (le, s', w')
     \<and> ''192.168.0.42'' \<in> dom (gm_get (clients s'))"
proof -
  obtain le s' w' where t: "pinner_tick (os_now mac_os) (route_ops mac_os Ctx)
      (0, sample_service, sample_world) = (le, s', w')"
    by (metis surj_pair)
  from pinner_tick_keeps [OF sample_service_wf t] have "''192.168.0.42'' \<in> dom (gm_get (clients s'))"
    by (simp add: sample_registry)
  with t show ?thesis by blast
qed

end
