(* ===== verification/Syn.thy ===== *)
theory Syn
  imports Route
begin

text \<open>
  The package \<open>internal/utils/route\<close>, file \<open>syn.go\<close>: the tcpdump watcher that reports the
  source address and MAC of every TCP SYN to the proxy port.
\<close>

definition parseSYNLine :: "string \<Rightarrow> addr \<times> string \<times> bool" where
  "parseSYNLine line =
     (let fail = (NoAddr, [], False) in
      case str_fields line of
        [] \<Rightarrow> fail
      | f0 # _ \<Rightarrow>
          (case CanonicalMAC f0 of (mac, ok) \<Rightarrow>
             if \<not> ok then fail
             else (case cut line '', length '' of (before, rest, found) \<Rightarrow>
               if \<not> found then fail
               else (case str_fields rest of
                       f # f1 # _ \<Rightarrow>
                         (case last_index_byte f1 CHR ''.'' of
                            None \<Rightarrow> fail
                          | Some i \<Rightarrow>
                              (case ParseAddr (take i f1) of
                                 None \<Rightarrow> fail
                               | Some ip \<Rightarrow> if is4 ip then (ip, mac, True) else fail))
                     | _ \<Rightarrow> fail))))"

definition watch_args :: "string \<Rightarrow> string \<Rightarrow> string list" where
  "watch_args iface port =
     [''-i'', iface, ''-p'', ''-l'', ''-n'', ''-t'', ''-e'', ''-s'', ''128'',
      ''tcp dst port '' @ port @ '' and tcp[tcpflags] & (tcp-syn|tcp-ack) == tcp-syn'']"

text \<open>The callback works on the caller's state and the world.\<close>

definition syn_line :: "(addr \<Rightarrow> string \<Rightarrow> 's \<Rightarrow> 's) \<Rightarrow> string \<Rightarrow> 's \<Rightarrow> 's" where
  "syn_line onSYN line s =
     (case parseSYNLine line of (ip, mac, ok) \<Rightarrow> if ok then onSYN ip mac s else s)"

definition WatchSYN ::
  "'w os \<Rightarrow> go_ctx \<Rightarrow> string \<Rightarrow> string \<Rightarrow> (addr \<Rightarrow> string \<Rightarrow> 's \<times> 'w \<Rightarrow> 's \<times> 'w)
     \<Rightarrow> 's \<times> 'w \<Rightarrow> go_error option \<times> 's \<times> 'w" where
  "WatchSYN os ctx iface port onSYN sw =
     Stream os ctx (syn_line onSYN) ''tcpdump'' (watch_args iface port) sw"

section \<open>Lemmas\<close>

lemma parseSYNLine_sound:
  "parseSYNLine line = (ip, mac, True) \<Longrightarrow> (\<exists>w. ip = V4 w) \<and> canonical mac"
  by (auto simp: parseSYNLine_def Let_def is4_iff dest: CanonicalMAC_canonical
      split: list.splits prod.splits option.splits if_splits)

text \<open>
  What every callback run by \<open>WatchSYN\<close> may assume: an invariant that the callback keeps for
  IPv4 addresses and canonical MACs survives the whole stream.
\<close>

lemma syn_line_keeps:
  assumes "\<And>a m t. K t \<Longrightarrow> canonical m \<Longrightarrow> K (onSYN (V4 a) m t)" and "K s"
  shows "K (syn_line onSYN line s)"
  using assms parseSYNLine_sound [of line]
  by (auto simp: syn_line_def split: prod.splits)

lemma WatchSYN_keeps:
  assumes step: "\<And>a m t. K t \<Longrightarrow> canonical m \<Longrightarrow> K (onSYN (V4 a) m t)" and "\<And>w'. K (s, w')"
  shows "K (snd (WatchSYN os ctx iface port onSYN (s, w)))"
  unfolding WatchSYN_def
proof (rule Stream_state [where K = K])
  fix l t
  show "K t \<Longrightarrow> K (syn_line onSYN l t)"
    by (rule syn_line_keeps [where K = K]) (rule step)
qed (rule assms(2))

text \<open>A tcpdump line for an IPv4 frame.\<close>

definition syn_text :: "string \<Rightarrow> string \<Rightarrow> string \<Rightarrow> 32 word \<Rightarrow> string \<Rightarrow> string \<Rightarrow> string" where
  "syn_text src dst len ip port rest =
     src @ '' > '' @ dst @ '', ethertype IPv4 (0x0800), length '' @ len @ '': ''
       @ v4_string ip @ ''.'' @ port @ '' > '' @ rest"

lemma v4_string_plain: "plain_word (v4_string w)"
proof -
  have d: "list_all plain_char (decimal n)" for n
    by (auto simp: list_all_iff plain_char_def dec_value_def Let_def
        dest!: decimal_digits split: if_splits)
  show ?thesis
    using d by (simp add: v4_string_def v4_octets_def Let_def plain_word_def plain_char_def)
qed

lemma cut_syn_text:
  assumes "CHR '','' \<notin> set src" "CHR '','' \<notin> set dst"
  shows "cut (syn_text src dst len ip port rest) '', length ''
    = (src @ '' > '' @ dst @ '', ethertype IPv4 (0x0800)'',
       len @ '': '' @ v4_string ip @ ''.'' @ port @ '' > '' @ rest, True)"
  using assms
  by (simp add: cut_def syn_text_def cut_found_skip [of _ src] cut_found_skip [of _ dst])

section \<open>Properties\<close>

text \<open>
  Whatever tcpdump prints, a line is reported only with an IPv4 address and a MAC in
  canonical form; anything else yields the zero result.
\<close>

theorem parseSYNLine_safe:
  "case parseSYNLine line of (ip, mac, ok) \<Rightarrow>
     if ok then (\<exists>w. ip = V4 w) \<and> CanonicalMAC mac = (mac, True)
     else ip = NoAddr \<and> mac = []"
proof (cases "snd (snd (parseSYNLine line))")
  case True
  then show ?thesis
    using parseSYNLine_sound [of line] by (auto simp: canonical_def split: prod.splits)
next
  case False
  then have "parseSYNLine line = (NoAddr, [], False)"
    by (auto simp: parseSYNLine_def Let_def
        split: list.splits prod.splits option.splits if_splits)
  then show ?thesis by simp
qed

text \<open>
  C30: the sender of a SYN reads back from the line tcpdump prints for its frame: the source
  address without the port, and the MAC of the source, not of the destination.
\<close>

theorem parseSYNLine_roundtrip:
  assumes mac: "CanonicalMAC src = (c, True)" "plain_word src" "CHR '','' \<notin> set src"
    and dst: "CHR '','' \<notin> set dst"
    and len: "plain_word len" and port: "plain_word port" "CHR ''.'' \<notin> set port"
  shows "parseSYNLine (syn_text src dst len ip port rest) = (V4 ip, c, True)"
proof -
  let ?tail = "len @ '': '' @ v4_string ip @ ''.'' @ port @ '' > '' @ rest"
  have "str_fields (syn_text src dst len ip port rest)
      = src # str_fields (''> '' @ dst @ '', ethertype IPv4 (0x0800), length '' @ ?tail)"
    using fields_word_space [OF mac(2), of "CHR '' ''"] by (simp add: syn_text_def)
  moreover have "str_fields ?tail
      = (len @ '':'') # (v4_string ip @ ''.'' @ port) # str_fields (''> '' @ rest)"
  proof -
    have "plain_word (len @ '':'')" and "plain_word (v4_string ip @ ''.'' @ port)"
      using len port v4_string_plain [of ip] by (auto simp: plain_word_def plain_char_def)
    from fields_word_space [OF this(1), of "CHR '' ''"] fields_word_space [OF this(2), of "CHR '' ''"]
    show ?thesis by simp
  qed
  moreover have "last_index_byte (v4_string ip @ ''.'' @ port) CHR ''.'' = Some (length (v4_string ip))"
    using last_index_byte_append [OF port(2)] by simp
  ultimately show ?thesis
    using mac(1) by (simp add: parseSYNLine_def cut_syn_text [OF mac(3) dst])
qed

theorem parseSYNLine_roundtrip_witness:
  "parseSYNLine (syn_text ''76:c9:24:a8:c8:9'' ''12:49:61:d3:72:48'' ''78'' 0xC0A80052 ''50174''
     ''192.168.0.105.8080: Flags [S], seq 843104139, win 65535, length 0'')
   = (V4 0xC0A80052, ''76:c9:24:a8:c8:09'', True)"
proof -
  have "CanonicalMAC ''76:c9:24:a8:c8:9'' = (''76:c9:24:a8:c8:09'', True)" by code_simp
  then show ?thesis
    by (intro parseSYNLine_roundtrip) (simp_all add: plain_word_def plain_char_def)
qed

end
