(* ===== verification/Discovery.thy ===== *)
theory Discovery
  imports Service Syn
begin

text \<open>
  How LAN clients get into the registry: \<open>discoverClient\<close> of \<open>clients.go\<close> on an accepted
  connection, and \<open>sniff.go\<close>, which sees a client's SYN before the handshake can complete.
  The clock is a parameter \<open>now\<close> (\<open>time.Now\<close>), the ARP operations a parameter \<open>ops\<close>.
\<close>

section \<open>Discovery on Accept\<close>

definition discoverClient ::
  "('w \<Rightarrow> go_time \<times> 'w) \<Rightarrow> 'w pinOps \<Rightarrow> conn \<Rightarrow> service \<times> 'w \<Rightarrow> service \<times> 'w" where
  "discoverClient now ops c sw =
     (case sw of (s, w) \<Rightarrow>
      case remoteAddrPort c of
        None \<Rightarrow> (s, w)
      | Some (a, _) \<Rightarrow>
          (let state = GetState s in
           if LANInterface state = [] \<or> \<not> Contains (LANSubnet state) a then (s, w)
           else
             let ip = addr_string a;
                 (t, w1) = now w;
                 (mac, last_seen, known) = lookup ip (clients s)
             in if \<not> needsRefresh known mac last_seen t then (s, w1)
                else (case op_lookup ops ip w1 of
                  ((e, found), w2) \<Rightarrow>
                    (let mac1 = (if found \<and> arp_iface e = LANInterface state then arp_mac e else [])
                     in (s\<lparr>clients := snd (seen ip mac1 t (clients s))\<rparr>, w2)))))"

section \<open>Discovery from SYN frames\<close>

definition snifferRetry :: duration where "snifferRetry = 10 * second"
definition snifferLANPoll :: duration where "snifferLANPoll = 2 * second"
definition errSnifferExited :: go_error where "errSnifferExited = Sentinel ''tcpdump exited''"
definition proxyPort :: string where "proxyPort = ''8080''"

definition repinStale ::
  "'w pinOps \<Rightarrow> State \<Rightarrow> string \<Rightarrow> string \<Rightarrow> 'w \<Rightarrow> 'w" where
  "repinStale ops state ip mac w =
     (if \<not> CiscoConnected state then w
      else (case op_lookup ops ip w of
        ((e, found), w1) \<Rightarrow>
          if \<not> found \<or> arp_iface e \<noteq> LANInterface state \<or> arp_mac e = mac then w1
          else snd (op_pin ops ip mac (LANInterface state) w1)))"

definition observeSYN ::
  "('w \<Rightarrow> go_time \<times> 'w) \<Rightarrow> 'w pinOps \<Rightarrow> addr \<Rightarrow> string \<Rightarrow> service \<times> 'w \<Rightarrow> service \<times> 'w" where
  "observeSYN now ops ip mac sw =
     (case sw of (s, w) \<Rightarrow>
      let state = GetState s in
      if LANInterface state = [] \<or> \<not> Contains (LANSubnet state) ip \<or> ip = LANAddr state
      then (s, w)
      else
        let key = addr_string ip;
            (old, _, known) = lookup key (clients s);
            w1 = (if mac \<noteq> old then repinStale ops state key mac w else w);
            (t, w2) = now w1
        in (s\<lparr>clients := snd (seen key mac t (clients s))\<rparr>, w2))"

text \<open>
  \<open>sniffLAN\<close>: beside the watch a poller reads the LAN snapshot every two seconds and cancels
  the derived context once it differs from \<open>lan\<close>. The snapshots it read while the watch ran
  are the schedule \<open>polls\<close>; \<open>watch\<close> is the \<open>watchSYN\<close> field of the service.
\<close>

type_synonym 'w watcher =
  "go_ctx \<Rightarrow> string \<Rightarrow> string \<Rightarrow> (addr \<Rightarrow> string \<Rightarrow> service \<times> 'w \<Rightarrow> service \<times> 'w)
     \<Rightarrow> service \<times> 'w \<Rightarrow> go_error option \<times> service \<times> 'w"

definition poller_cancels :: "lanSnapshot \<Rightarrow> lanSnapshot list \<Rightarrow> bool" where
  "poller_cancels lan polls = list_ex (\<lambda>sn. sn \<noteq> lan) polls"

definition sniffLAN ::
  "'w os \<Rightarrow> 'w pinOps \<Rightarrow> 'w watcher \<Rightarrow> go_ctx \<Rightarrow> lanSnapshot \<Rightarrow> lanSnapshot list \<Rightarrow> service \<times> 'w
     \<Rightarrow> go_error option \<times> service \<times> 'w" where
  "sniffLAN os ops watch ctx0 lan polls sw =
     (let ctx = WithCancel ctx0 in
      case watch ctx (snap_iface lan) proxyPort (observeSYN (os_now os) ops) sw of
        (err, s, w) \<Rightarrow>
          if os_ctx_err os ctx w \<or> poller_cancels lan polls then (None, s, w)
          else if err = None then (Some errSnifferExited, s, w)
          else (err, s, w))"

text \<open>One round of the sniffer loop: whether it goes on, and the state after it.\<close>

definition sniffer_round ::
  "'w os \<Rightarrow> 'w pinOps \<Rightarrow> 'w watcher \<Rightarrow> go_ctx \<Rightarrow> lanSnapshot list \<Rightarrow> service \<times> 'w
     \<Rightarrow> bool \<times> service \<times> 'w" where
  "sniffer_round os ops watch ctx polls sw =
     (case sw of (s, w) \<Rightarrow>
      let lan = lan_snapshot s in
      if snap_iface lan = [] then
        (case sleepCtx os ctx snifferLANPoll w of (alive, w1) \<Rightarrow> (alive, s, w1))
      else (case sniffLAN os ops watch ctx lan polls (s, w) of
        (None, s1, w1) \<Rightarrow> (\<not> os_ctx_err os ctx w1, s1, w1)
      | (Some err, s1, w1) \<Rightarrow>
          (case sleepCtx os ctx snifferRetry w1 of
             (alive, w2) \<Rightarrow> (alive \<and> \<not> os_ctx_err os ctx w2, s1, w2))))"

text \<open>
  The loop over a schedule with one entry per round; \<open>None\<close> when it is still running after
  them. Discovery that is not enabled ends it at once.
\<close>

fun sniffer_loop ::
  "lanSnapshot list list \<Rightarrow> 'w os \<Rightarrow> 'w pinOps \<Rightarrow> 'w watcher \<Rightarrow> go_ctx \<Rightarrow> service \<times> 'w
     \<Rightarrow> (service \<times> 'w) option" where
  "sniffer_loop [] os ops watch ctx sw = None"
| "sniffer_loop (polls # rounds) os ops watch ctx sw =
     (case sniffer_round os ops watch ctx polls sw of
        (False, sw') \<Rightarrow> Some sw'
      | (True, sw') \<Rightarrow> sniffer_loop rounds os ops watch ctx sw')"

definition startSniffer ::
  "lanSnapshot list list \<Rightarrow> 'w os \<Rightarrow> 'w pinOps \<Rightarrow> 'w watcher \<Rightarrow> go_ctx \<Rightarrow> service \<times> 'w
     \<Rightarrow> (service \<times> 'w) option" where
  "startSniffer rounds os ops watch ctx sw =
     (if \<not> discoveryEnabled (fst sw) then Some sw else sniffer_loop rounds os ops watch ctx sw)"

section \<open>Lemmas\<close>

lemma discoverClient_clients:
  "\<exists>r. fst (discoverClient now ops c (s, w)) = s\<lparr>clients := r\<rparr>"
  by (auto simp: discoverClient_def Let_def intro: exI [of _ "clients s"]
      split: prod.splits option.splits if_splits)

lemma discoverClient_wf [go_inv]:
  assumes "arp_sound ops" and "reg_wf (clients s)"
  shows "reg_wf (clients (fst (discoverClient now ops c (s, w))))"
  using assms arp_source.lookup_sound [OF assms(1)]
  by (auto simp: discoverClient_def Let_def intro!: reg_wf_seen
      split: prod.splits option.splits)

lemma observeSYN_frame:
  "\<exists>r. fst (observeSYN now ops ip mac (s, w)) = s\<lparr>clients := r\<rparr>"
  by (auto simp: observeSYN_def Let_def intro: exI [of _ "clients s"]
      split: prod.splits if_splits)

lemma observeSYN_wf [go_inv]:
  assumes "reg_wf (clients s)" and "canonical mac"
  shows "reg_wf (clients (fst (observeSYN now ops ip mac (s, w))))"
  using assms by (auto simp: observeSYN_def Let_def intro!: reg_wf_seen split: prod.splits)

lemma V4_in_subnet: "Contains (LANSubnet st) ip \<Longrightarrow> v4_prefix (LANSubnet st) \<Longrightarrow> \<exists>w. ip = V4 w"
  by (auto simp: v4_prefix_def Contains_V4)

text \<open>The clients a watch may add: the sender is in the subnet and is not the host itself.\<close>

lemma observeSYN_keys:
  "dom (gm_get (clients (fst (observeSYN now ops ip mac (s, w))))) =
     (if LANInterface (status s) \<noteq> [] \<and> Contains (LANSubnet (status s)) ip
         \<and> ip \<noteq> LANAddr (status s)
      then insert (addr_string ip) (dom (gm_get (clients s)))
      else dom (gm_get (clients s)))"
  by (auto simp: observeSYN_def GetState_def seen_def Let_def split: prod.splits option.splits)

section \<open>Properties\<close>

text \<open>
  The MAC in the frame wins. After a SYN from a host in the LAN subnet the registry holds
  that host with the frame's MAC, and no other entry has changed. A SYN of our own address or
  from outside the subnet changes nothing at all.
\<close>

theorem observeSYN_registers:
  "let (s', w') = observeSYN now ops ip mac (s, w); key = addr_string ip
   in if LANInterface (status s) \<noteq> [] \<and> Contains (LANSubnet (status s)) ip
         \<and> ip \<noteq> LANAddr (status s)
      then (\<exists>t. \<forall>k. lookup k (clients s') =
              (if k = key then ((if mac \<noteq> [] then mac else fst (lookup key (clients s))), t, True)
               else lookup k (clients s)))
      else s' = s \<and> w' = w"
  by (auto simp: observeSYN_def GetState_def Let_def seen_def lookup_def zero_clientEntry_def
      split: prod.splits option.splits)

text \<open>
  C27: a stale kernel entry is replaced at once, and only then. With the VPN up and a host whose
  frame carries a MAC other than the registered one, exactly one pin is issued if the kernel
  resolves the host on the LAN interface to another MAC: that host, the frame's MAC, the LAN
  interface. Otherwise none is issued.
\<close>

theorem observeSYN_pins:
  "let (s', (w', l')) = observeSYN (log_now now) (log_pins ops) ip mac (s, (w, l));
       st = status s; key = addr_string ip; entry = fst (op_lookup ops key w)
   in l' = l @ (if LANInterface st \<noteq> [] \<and> Contains (LANSubnet st) ip \<and> ip \<noteq> LANAddr st
                   \<and> mac \<noteq> fst (lookup key (clients s)) \<and> CiscoConnected st
                   \<and> snd entry \<and> arp_iface (fst entry) = LANInterface st
                   \<and> arp_mac (fst entry) \<noteq> mac
                then [(key, mac, LANInterface st)] else [])"
  by (auto simp: observeSYN_def repinStale_def GetState_def Let_def log_pins_def log_now_def
      split: prod.splits)

text \<open>
  A connection from the LAN is looked up in ARP only when the throttle allows it, and a MAC is taken
  over only from an entry on the LAN interface; a peer outside the subnet is ignored. The
  registry keeps its invariant and no field of the service but the registry changes.
\<close>

theorem discoverClient_safe:
  assumes "arp_sound ops" and "reg_wf (clients s)"
  shows "reg_wf (clients (fst (discoverClient now ops c (s, w))))
     \<and> (\<exists>r. fst (discoverClient now ops c (s, w)) = s\<lparr>clients := r\<rparr>)
     \<and> dom (gm_get (clients (fst (discoverClient now ops c (s, w))))) \<subseteq>
         dom (gm_get (clients s)) \<union>
         {addr_string a | a. LANInterface (status s) \<noteq> [] \<and> Contains (LANSubnet (status s)) a
            \<and> map_option fst (remoteAddrPort c) = Some a}"
proof (intro conjI)
  show "dom (gm_get (clients (fst (discoverClient now ops c (s, w))))) \<subseteq>
         dom (gm_get (clients s)) \<union>
         {addr_string a | a. LANInterface (status s) \<noteq> [] \<and> Contains (LANSubnet (status s)) a
            \<and> map_option fst (remoteAddrPort c) = Some a}"
    by (auto simp: discoverClient_def GetState_def seen_def Let_def
        split: prod.splits option.splits if_splits)
qed (use assms in \<open>auto intro: go_inv discoverClient_clients\<close>)

theorem discoverClient_safe_witness:
  "reg_wf (clients (fst (discoverClient (os_now mac_os) (route_ops mac_os Ctx)
     \<lparr>conn_id = 1, RemoteAddr = TCPAddr (V4 0xC0A800D6) 50000\<rparr> (sample_service, sample_world))))"
  using discoverClient_safe [OF arp_sound_route sample_service_wf, of "os_now mac_os" mac_os Ctx
      "\<lparr>conn_id = 1, RemoteAddr = TCPAddr (V4 0xC0A800D6) 50000\<rparr>" sample_world]
  by (rule conjunct1)

lemma observeSYN_static:
  "static_ips (clients (fst (observeSYN now ops ip mac (s, w)))) = static_ips (clients s)"
  using seen_records by (auto simp: observeSYN_def Let_def split: prod.splits)

text \<open>What a watch keeps, whatever frames arrive.\<close>

definition watch_keeps :: "service \<Rightarrow> service \<times> 'w \<Rightarrow> bool" where
  "watch_keeps s0 sw \<longleftrightarrow>
     reg_wf (clients (fst sw)) \<and> (\<exists>r. fst sw = s0\<lparr>clients := r\<rparr>)
     \<and> static_ips (clients (fst sw)) = static_ips (clients s0)
     \<and> dom (gm_get (clients (fst sw))) \<subseteq> dom (gm_get (clients s0)) \<union>
         {addr_string a | a. Contains (LANSubnet (status s0)) a \<and> a \<noteq> LANAddr (status s0)}"

lemma observeSYN_keeps:
  "watch_keeps s0 sw \<Longrightarrow> canonical mac \<Longrightarrow> watch_keeps s0 (observeSYN now ops ip mac sw)"
proof -
  assume k: "watch_keeps s0 sw" and c: "canonical mac"
  obtain s w where sw: "sw = (s, w)" by (cases sw)
  from k obtain r where s: "s = s0\<lparr>clients := r\<rparr>" by (auto simp: watch_keeps_def sw)
  from observeSYN_frame [of now ops ip mac s w]
  obtain r' where r': "fst (observeSYN now ops ip mac (s, w)) = s\<lparr>clients := r'\<rparr>" ..
  have "dom (gm_get (clients (fst (observeSYN now ops ip mac sw)))) \<subseteq>
      dom (gm_get (clients s0)) \<union>
      {addr_string a | a. Contains (LANSubnet (status s0)) a \<and> a \<noteq> LANAddr (status s0)}"
    using k s unfolding sw observeSYN_keys by (auto simp: watch_keeps_def sw split: if_splits)
  moreover have "reg_wf (clients (fst (observeSYN now ops ip mac sw)))"
    using k c unfolding sw by (intro observeSYN_wf) (auto simp: watch_keeps_def)
  ultimately show ?thesis
    using k r' s observeSYN_static [of now ops ip mac s w] by (auto simp: watch_keeps_def sw)
qed

text \<open>
  C28: a watch of a LAN, whatever tcpdump prints, changes nothing of the service but the
  registry, keeps its MACs canonical and its static clients, and adds only hosts of the subnet
  other than the host itself. It ends without an error exactly when the context was cancelled
  or the poller saw another LAN: tcpdump ending on its own is an error even with exit status 0.
\<close>

theorem sniffLAN_watch:
  assumes "reg_wf (clients s)"
  shows "case sniffLAN os ops (WatchSYN os) ctx lan polls (s, w) of (err, s', w') \<Rightarrow>
     watch_keeps s (s', w')
     \<and> (err = None) = (os_ctx_err os (WithCancel ctx) w' \<or> poller_cancels lan polls)"
proof -
  have "watch_keeps s (snd (WatchSYN os c i p (observeSYN (os_now os) ops) (s, w)))" for c i p
  proof (rule WatchSYN_keeps)
    fix w' show "watch_keeps s (s, w')"
      using assms by (auto simp: watch_keeps_def intro: exI [of _ "clients s"])
  qed (rule observeSYN_keeps)
  then show ?thesis
    by (auto simp: sniffLAN_def Let_def split: prod.splits)
      (metis snd_conv)+
qed

theorem sniffLAN_watch_witness:
  "fst (sniffLAN mac_os (route_ops mac_os Ctx) (WatchSYN mac_os) Ctx (lan_snapshot sample_service) []
     (sample_service, sample_world)) \<noteq> None"
  using sniffLAN_watch [OF sample_service_wf, where os = mac_os and ops = "route_ops mac_os Ctx"
      and ctx = Ctx and lan = "lan_snapshot sample_service" and polls = "[]" and w = sample_world]
  by (auto simp: sniffLAN_def WatchSYN_def Stream_def mac_os_def poller_cancels_def
      sample_world_def scan_lines_def split: prod.splits)

end
