(* ===== verification/Steps.thy ===== *)
theory Steps
  imports Supervisor Pinner Discovery
begin

text \<open>
  The goroutines of the service cut at their accesses to the shared state. Between two stages
  of one goroutine any other may run, since each access takes the mutex on its own. A stage is
  a function on the place the goroutine has reached, its local variables, the service and the
  world; run one after the other, the stages are the operations of the component theories.
\<close>

section \<open>Running stages\<close>

text \<open>Stages until an idle place is reached; \<open>None\<close> is a panic, or too little fuel.\<close>

fun run_stages :: "nat \<Rightarrow> ('a \<Rightarrow> bool) \<Rightarrow> ('a \<Rightarrow> 'a option) \<Rightarrow> 'a \<Rightarrow> 'a option" where
  "run_stages n idle stage x =
     (if idle x then Some x
      else case n of
        0 \<Rightarrow> None
      | Suc m \<Rightarrow> (case stage x of None \<Rightarrow> None | Some y \<Rightarrow> run_stages m idle stage y))"

declare run_stages.simps [simp del]

lemma run_stages_idle: "idle x \<Longrightarrow> run_stages n idle stage x = Some x"
  by (simp add: run_stages.simps)

lemma run_stages_Suc:
  "\<not> idle x \<Longrightarrow> run_stages (Suc m) idle stage x =
     (case stage x of None \<Rightarrow> None | Some y \<Rightarrow> run_stages m idle stage y)"
  by (simp add: run_stages.simps)

section \<open>The supervisor\<close>

text \<open>
  Where \<open>startCisco\<close> stands: asleep, at the start of a tick, in the branches of \<open>detectLAN\<close>, at
  the call of \<open>cisco.Status\<close>, in the switch on its result, at the packet filter, at the close
  of \<open>ciscoReady\<close>, returned.
\<close>

datatype sup_pc = SupSleep duration | SupTick
  | SupReset netip_prefix addr string | SupWrite netip_prefix addr string | SupNotify | SupAddr addr
  | SupStatus | SupReact "string \<times> go_error option" | SupAwait | SupConnect
  | SupAfter duration | SupReady duration | SupReturned

type_synonym 'w sup_state = "sup_pc \<times> ciscoSupervisor \<times> service \<times> 'w"

definition sup_detect :: "'w os \<Rightarrow> go_ctx \<Rightarrow> ciscoSupervisor \<times> service \<times> 'w \<Rightarrow> 'w sup_state" where
  "sup_detect os ctx st =
     (case st of (sv, s, w) \<Rightarrow>
      let cur = lan_snapshot s in
      case DetectLAN os ctx (snap_iface cur) w of
        (Inl err, w1) \<Rightarrow> (SupStatus, sv\<lparr>pendingLAN := zero_snapshot\<rparr>, s, w1)
      | (Inr (nic_addr, iface), w1) \<Rightarrow>
          (let subnet = Masked nic_addr; a = prefix_addr nic_addr;
               next = \<lparr>snap_subnet = subnet, snap_iface = iface\<rparr>;
               (confirmed, sv1) = confirmLAN cur next sv
           in if \<not> confirmed then (if next = cur then SupAddr a else SupStatus, sv1, s, w1)
              else (if snap_iface cur = [] then SupWrite subnet a iface else SupReset subnet a iface,
                    sv1, s, w1)))"

definition sup_switch ::
  "string \<times> go_error option \<Rightarrow> ciscoSupervisor \<times> service \<times> 'w \<Rightarrow> 'w sup_state" where
  "sup_switch result st =
     (case result of (state, err) \<Rightarrow> case st of (sv, s, w) \<Rightarrow>
      if err \<noteq> None then (SupAfter ciscoPollInterval, sv, s, w)
      else if state = StateConnected then
        (SupAfter ciscoPollInterval, sv\<lparr>connectDelay := ciscoPollInterval, reconnectingSince := 0\<rparr>,
         setConnected True s, w)
      else if state = StateReconnecting then (SupAwait, sv, setConnected False s, w)
      else (SupConnect, sv\<lparr>reconnectingSince := 0\<rparr>, setConnected False s, w))"

fun sup_stage :: "'w os \<Rightarrow> go_ctx \<Rightarrow> 'w sup_state \<Rightarrow> 'w sup_state option" where
  "sup_stage os ctx (SupTick, st) = Some (sup_detect os ctx st)"
| "sup_stage os ctx (SupReset p a i, sv, s, w) =
     Some (SupWrite p a i, sv, s\<lparr>clients := resetNetwork (clients s)\<rparr>, w)"
| "sup_stage os ctx (SupWrite p a i, sv, s, w) =
     Some (SupNotify, sv, setStatus (\<lambda>st. st\<lparr>LANSubnet := p, LANAddr := a, LANInterface := i\<rparr>) s, w)"
| "sup_stage os ctx (SupNotify, sv, s, w) = Some (SupStatus, sv, notifyLANCheck s, w)"
| "sup_stage os ctx (SupAddr a, sv, s, w) = Some (SupStatus, sv, setStatus (\<lambda>st. st\<lparr>LANAddr := a\<rparr>) s, w)"
| "sup_stage os ctx (SupStatus, sv, s, w) =
     (case Status os ctx w of (result, w1) \<Rightarrow> Some (SupReact result, sv, s, w1))"
| "sup_stage os ctx (SupReact result, st) = Some (sup_switch result st)"
| "sup_stage os ctx (SupAwait, sv, s, w) =
     (case awaitReconnect os ctx (sv, w) of (sv1, w1) \<Rightarrow> Some (SupAfter ciscoPollInterval, sv1, s, w1))"
| "sup_stage os ctx (SupConnect, st) =
     (case connect os ctx st of (delay, st1) \<Rightarrow> Some (SupAfter delay, st1))"
| "sup_stage os ctx (SupAfter d, sv, s, w) =
     (if CiscoConnected (GetState s) then
        (case disablePF os ctx (s, w) of
           (s1, w1) \<Rightarrow> Some (if \<not> readyNotified sv then SupReady d else SupSleep d, sv, s1, w1))
      else Some (SupSleep d, sv, s, w))"
| "sup_stage os ctx (SupReady d, sv, s, w) =
     map_option (\<lambda>s1. (SupSleep d, sv\<lparr>readyNotified := True\<rparr>, s1, w)) (close_ciscoReady s)"
| "sup_stage os ctx (SupSleep d, st) = Some (SupSleep d, st)"
| "sup_stage os ctx (SupReturned, st) = Some (SupReturned, st)"

fun sup_idle :: "'w sup_state \<Rightarrow> bool" where
  "sup_idle (SupSleep d, st) = True"
| "sup_idle (SupReturned, st) = True"
| "sup_idle _ = False"

text \<open>The switch and what follows it, from the result of \<open>Status\<close> on.\<close>

lemma sup_stages_after:
  "run_stages (Suc (Suc n)) sup_idle (sup_stage os ctx) (SupAfter d, st) =
     map_option (\<lambda>st'. (SupSleep d, st')) (after_react os ctx st)"
proof -
  obtain sv s w where st: "st = (sv, s, w)" by (metis surj_pair)
  show ?thesis
    unfolding st
    by (auto simp: run_stages_Suc run_stages_idle after_react_def split: prod.splits option.splits)
qed

lemma sup_stages_react:
  "run_stages (Suc (Suc (Suc (Suc n)))) sup_idle (sup_stage os ctx) (SupReact result, sv, s, w) =
     (case react os ctx result (sv, s, w) of (d, st) \<Rightarrow>
        map_option (\<lambda>st'. (SupSleep d, st')) (after_react os ctx st))"
proof -
  obtain state err where r: "result = (state, err)" by (cases result)
  consider "err \<noteq> None" | "err = None" "state = StateConnected"
    | "err = None" "state \<noteq> StateConnected" "state = StateReconnecting"
    | "err = None" "state \<noteq> StateConnected" "state \<noteq> StateReconnecting" by blast
  then show ?thesis
    by cases
      (simp_all add: r run_stages_Suc sup_switch_def react_def sup_stages_after split: prod.splits)
qed

lemma sup_stages_status:
  "run_stages (Suc (Suc (Suc (Suc (Suc n))))) sup_idle (sup_stage os ctx) (SupStatus, sv, s, w) =
     (case Status os ctx w of (result, w1) \<Rightarrow>
      case react os ctx result (sv, s, w1) of (d, st) \<Rightarrow>
        map_option (\<lambda>st'. (SupSleep d, st')) (after_react os ctx st))"
  by (simp add: run_stages_Suc [where x = "(SupStatus, sv, s, w)"] sup_stages_react split: prod.split)

lemma sup_stages_run:
  "run_stages 9 sup_idle (sup_stage os ctx) (SupTick, sv, s, w) =
     map_option (\<lambda>(d, st). (SupSleep d, st)) (tick os ctx (sv, s, w))"
proof -
  let ?rest = "\<lambda>(sv1, s1, w1). case Status os ctx w1 of (result, w2) \<Rightarrow>
      case react os ctx result (sv1, s1, w2) of (d, st) \<Rightarrow>
        map_option (\<lambda>st'. (SupSleep d, st')) (after_react os ctx st)"
  have n9: "9 = Suc (Suc (Suc (Suc (Suc (Suc (Suc (Suc (Suc 0))))))))" by simp
  have "run_stages 9 sup_idle (sup_stage os ctx) (SupTick, sv, s, w) = ?rest (detectLAN os ctx (sv, s, w))"
    unfolding n9
    by (auto simp: sup_detect_def detectLAN_def Let_def sup_stages_status
        run_stages_Suc [where x = "(SupTick, st)" for st]
        run_stages_Suc [where x = "(SupReset p a i, st)" for p a i st]
        run_stages_Suc [where x = "(SupWrite p a i, st)" for p a i st]
        run_stages_Suc [where x = "(SupNotify, st)" for st]
        run_stages_Suc [where x = "(SupAddr a, st)" for a st]
        split: prod.split sum.split)
  also have "\<dots> = map_option (\<lambda>(d, st). (SupSleep d, st)) (tick os ctx (sv, s, w))"
    by (auto simp: tick_def option.map_comp comp_def split: prod.splits)
  finally show ?thesis .
qed

text \<open>
  Cut at its accesses to the shared state, a tick is what it is: nine stages at most (detect,
  reset, write, notify, status, switch, connect, packet filter, ready) bring the supervisor from
  the start of a tick to its next sleep, with the delay and the state \<open>tick\<close> computes, and
  panic exactly when it does.
\<close>

theorem sup_stages_tick:
  "run_stages 9 sup_idle (sup_stage os ctx) (SupTick, sv, s, w) =
     (case tick os ctx (sv, s, w) of
        None \<Rightarrow> None | Some (delay, sv', s', w') \<Rightarrow> Some (SupSleep delay, sv', s', w'))"
  by (simp add: sup_stages_run split: option.split prod.split)

subsection \<open>What the stages keep\<close>

text \<open>What the local variables of a stage promise, and which stages a connected VPN passes before \<open>ciscoReady\<close>.\<close>

definition lan_val :: "netip_prefix \<Rightarrow> addr \<Rightarrow> string \<Rightarrow> bool" where
  "lan_val p a i \<longleftrightarrow> v4_prefix p \<and> Masked p = p \<and> Contains p a \<and> i \<noteq> [] \<and> \<not> has_prefix ''utun'' i"

fun sup_ok :: "sup_pc \<Rightarrow> ciscoSupervisor \<Rightarrow> service \<Rightarrow> bool" where
  "sup_ok (SupReset p a i) sv s = lan_val p a i"
| "sup_ok (SupWrite p a i) sv s = lan_val p a i"
| "sup_ok (SupAddr a) sv s = lan_val (LANSubnet (status s)) a (LANInterface (status s))"
| "sup_ok (SupReady d) sv s = (\<not> readyNotified sv)"
| "sup_ok SupReturned sv s = (\<not> CiscoConnected (status s))"
| "sup_ok _ sv s = True"

fun before_ready :: "sup_pc \<Rightarrow> bool" where
  "before_ready (SupAfter d) = True"
| "before_ready (SupReady d) = True"
| "before_ready _ = False"

definition sup_safe :: "sup_pc \<Rightarrow> ciscoSupervisor \<Rightarrow> service \<Rightarrow> bool" where
  "sup_safe pc sv s \<longleftrightarrow> sup_inv sv s \<and> sup_ok pc sv s
     \<and> (CiscoConnected (status s) \<longrightarrow> ciscoReady s \<or> before_ready pc)"

text \<open>The one access a stage makes to the service, as far as the other goroutines see it.\<close>

definition status_only :: "service \<Rightarrow> service \<Rightarrow> bool" where
  "status_only s s' \<longleftrightarrow> clients s' = clients s \<and> conns s' = conns s \<and> opts s' = opts s
     \<and> lanCheck s' = lanCheck s \<and> (ciscoReady s \<longrightarrow> ciscoReady s')
     \<and> lan_snapshot s' = lan_snapshot s
     \<and> ProxyStarted (status s') = ProxyStarted (status s) \<and> DNSStarted (status s') = DNSStarted (status s)"

definition sup_frame :: "sup_pc \<Rightarrow> service \<Rightarrow> service \<Rightarrow> bool" where
  "sup_frame pc s s' \<longleftrightarrow>
     (case pc of
        SupReset p a i \<Rightarrow> s' = s\<lparr>clients := resetNetwork (clients s)\<rparr>
      | SupWrite p a i \<Rightarrow> s' = s\<lparr>status := with_lan p a i (status s)\<rparr>
      | SupNotify \<Rightarrow> s' = notifyLANCheck s
      | _ \<Rightarrow> status_only s s')"

lemma status_only_simps [simp]:
  "status_only s s" "status_only s (setConnected b s)" "status_only s (s\<lparr>ciscoReady := True\<rparr>)"
  "status_only s (setStatus (\<lambda>st. st\<lparr>LANAddr := a\<rparr>) s)"
  "status_only s (setStatus (\<lambda>st. st\<lparr>PFDisabled := b\<rparr>) s)"
  by (simp_all add: status_only_def lan_snapshot_def GetState_def)

lemma confirmLAN_inv: "sup_inv sv s \<Longrightarrow> sup_inv (snd (confirmLAN cur next sv)) s"
  by (auto simp: sup_inv_def confirmLAN_def)

lemma sup_detect_safe:
  assumes "sup_inv sv s" and "sup_detect os ctx (sv, s, w) = (pc', sv', s', w')"
  shows "s' = s \<and> sup_inv sv' s \<and> sup_ok pc' sv' s \<and> \<not> before_ready pc'"
proof -
  obtain res w1 where d: "DetectLAN os ctx (snap_iface (lan_snapshot s)) w = (res, w1)" by (metis surj_pair)
  show ?thesis
  proof (cases res)
    case (Inl e)
    with assms d show ?thesis by (auto simp: sup_detect_def Let_def sup_inv_def)
  next
    case (Inr pi)
    then obtain p i where pi: "res = Inr (p, i)" by (cases pi) auto
    let ?next = "\<lparr>snap_subnet = Masked p, snap_iface = i\<rparr>"
    have v: "v4_prefix p" and u: "\<not> has_prefix ''utun'' i"
      using DetectLAN_sound [of os ctx _ w] d pi by blast+
    have val: "lan_val (Masked p) (prefix_addr p) i" if "i \<noteq> []"
      using that u Masked_v4_prefix [OF v] Contains_Masked_self [OF v] by (simp add: lan_val_def Masked_idem)
    obtain c sv1 where c: "confirmLAN (lan_snapshot s) ?next sv = (c, sv1)" by (metis surj_pair)
    have i1: "sup_inv sv1 s" using confirmLAN_inv [OF assms(1), of "lan_snapshot s" ?next] c by simp
    show ?thesis
    proof (cases c)
      case True
      then have "i \<noteq> []" using c by (auto simp: confirmLAN_True lanChanged_def)
      with True assms(2) d pi c i1 val show ?thesis
        by (auto simp: sup_detect_def Let_def split: if_splits)
    next
      case False
      have "i \<noteq> [] \<or> ?next \<noteq> lan_snapshot s"
        using assms(1) v v4_prefix_not_zero [OF Masked_v4_prefix [OF v]]
        by (auto simp: sup_inv_def status_ok_def lan_ok_def lan_snapshot_def GetState_def split: if_splits)
      with False assms(2) d pi c i1 val show ?thesis
        by (auto simp: sup_detect_def Let_def lan_snapshot_def GetState_def split: if_splits)
    qed
  qed
qed

lemma sup_inv_write: "sup_inv sv s \<Longrightarrow> lan_val p a i \<Longrightarrow> sup_inv sv (setStatus (\<lambda>st. st\<lparr>LANSubnet := p, LANAddr := a, LANInterface := i\<rparr>) s)"
  by (auto simp: sup_inv_def status_ok_def lan_ok_def lan_val_def)

lemma sup_inv_addr: "sup_inv sv s \<Longrightarrow> lan_val (LANSubnet (status s)) a (LANInterface (status s)) \<Longrightarrow>
    sup_inv sv (setStatus (\<lambda>st. st\<lparr>LANAddr := a\<rparr>) s)"
  by (auto simp: sup_inv_def status_ok_def lan_ok_def lan_val_def)

lemma sup_inv_disablePF:
  "sup_inv sv s \<Longrightarrow> CiscoConnected (status s) \<Longrightarrow> disablePF os ctx (s, w) = (s1, w1) \<Longrightarrow>
   sup_inv sv s1 \<and> CiscoConnected (status s1) \<and> ciscoReady s1 = ciscoReady s \<and> status_only s s1"
  by (auto simp: disablePF_def sup_inv_def status_ok_def GetState_def split: if_splits prod.splits option.splits)

text \<open>A stage never panics and keeps what the supervisor promises.\<close>

lemma sup_stage_safe:
  assumes "sup_safe pc sv s"
  obtains pc' sv' s' w' where "sup_stage os ctx (pc, sv, s, w) = Some (pc', sv', s', w')"
    and "sup_safe pc' sv' s'" and "sup_frame pc s s'"
proof -
  have inv: "sup_inv sv s" "sup_ok pc sv s" "CiscoConnected (status s) \<longrightarrow> ciscoReady s \<or> before_ready pc"
    using assms by (simp_all add: sup_safe_def)
  have ready: "readyNotified sv = ciscoReady s" using inv(1) by (simp add: sup_inv_def)
  have "\<exists>pc' sv' s' w'. sup_stage os ctx (pc, sv, s, w) = Some (pc', sv', s', w')
      \<and> sup_safe pc' sv' s' \<and> sup_frame pc s s'"
  proof (cases pc)
    case SupTick
    obtain pc' sv' s' w' where d: "sup_detect os ctx (sv, s, w) = (pc', sv', s', w')" by (metis surj_pair)
    with sup_detect_safe [OF inv(1) d] inv(3) SupTick show ?thesis
      by (auto simp: sup_safe_def sup_frame_def)
  next
    case (SupReset p a i)
    with inv show ?thesis by (auto simp: sup_safe_def sup_frame_def sup_inv_def intro: go_inv)
  next
    case (SupWrite p a i)
    with inv sup_inv_write [OF inv(1), of p a i] show ?thesis
      by (auto simp: sup_safe_def sup_frame_def with_lan_def setStatus_def)
  next
    case SupNotify
    with inv show ?thesis by (auto simp: sup_safe_def sup_frame_def sup_inv_def)
  next
    case (SupAddr a)
    with inv sup_inv_addr [OF inv(1), of a] show ?thesis by (auto simp: sup_safe_def sup_frame_def)
  next
    case SupStatus
    with inv show ?thesis by (auto simp: sup_safe_def sup_frame_def split: prod.splits)
  next
    case (SupReact r)
    obtain state err where r: "r = (state, err)" by (cases r)
    have "sup_inv (sv\<lparr>connectDelay := ciscoPollInterval, reconnectingSince := 0\<rparr>) s"
      "sup_inv (sv\<lparr>reconnectingSince := 0\<rparr>) s"
      using inv(1) backoff_poll by (auto simp: sup_inv_def)
    with inv r SupReact show ?thesis
      by (auto simp: sup_safe_def sup_frame_def sup_switch_def intro: sup_inv_setConnected)
  next
    case SupAwait
    obtain sv1 w1 where a: "awaitReconnect os ctx (sv, w) = (sv1, w1)" by (metis surj_pair)
    with awaitReconnect_sv [of os ctx sv w] inv(1) have "sup_inv sv1 s" by (auto simp: sup_inv_def)
    with inv SupAwait a show ?thesis by (auto simp: sup_safe_def sup_frame_def)
  next
    case SupConnect
    obtain d sv1 s1 w1 where c: "connect os ctx (sv, s, w) = (d, sv1, s1, w1)" by (metis surj_pair)
    from connect_inv [OF inv(1) c] connect_frame [OF c] inv SupConnect c show ?thesis
      by (auto simp: sup_safe_def sup_frame_def)
  next
    case (SupAfter d)
    show ?thesis
    proof (cases "CiscoConnected (status s)")
      case True
      obtain s1 w1 where p: "disablePF os ctx (s, w) = (s1, w1)" by (metis surj_pair)
      from sup_inv_disablePF [OF inv(1) True p] True p ready SupAfter show ?thesis
        by (auto simp: sup_safe_def sup_frame_def GetState_def)
    next
      case False
      with inv SupAfter show ?thesis by (auto simp: sup_safe_def sup_frame_def GetState_def)
    qed
  next
    case (SupReady d)
    with inv ready show ?thesis
      by (auto simp: sup_safe_def sup_frame_def close_ciscoReady_def sup_inv_def)
  next
    case (SupSleep d)
    with assms show ?thesis by (auto simp: sup_frame_def)
  next
    case SupReturned
    with assms show ?thesis by (auto simp: sup_frame_def)
  qed
  with that show ?thesis by blast
qed

section \<open>The pinner\<close>

text \<open>
  The body of the walk in two accesses: the lookup in the kernel with the decision, and what was
  decided, the write to the registry or the pin. Whatever the others do may come in between.
\<close>

datatype pin_todo = PinNothing | PinAdoptMAC string | PinRepinMAC string

definition pin_look :: "'w pinOps \<Rightarrow> State \<Rightarrow> string \<times> string \<Rightarrow> 'w \<Rightarrow> pin_todo \<times> 'w" where
  "pin_look ops state im w =
     (case im of (ip, mac) \<Rightarrow>
      (case ParseAddr ip of
         None \<Rightarrow> (PinNothing, w)
       | Some a \<Rightarrow>
           if \<not> Contains (LANSubnet state) a then (PinNothing, w)
           else if ip = addr_string (LANAddr state) then (PinNothing, w)
           else (case op_lookup ops ip w of
             ((entry, found), w1) \<Rightarrow>
               (case DecidePin entry found mac (LANInterface state) of
                  PinAdopt \<Rightarrow> (PinAdoptMAC (arp_mac entry), w1)
                | PinRepin \<Rightarrow> (PinRepinMAC mac, w1)
                | PinNone \<Rightarrow> (PinNothing, w1)))))"

fun pin_do :: "'w pinOps \<Rightarrow> State \<Rightarrow> string \<Rightarrow> pin_todo \<Rightarrow> service \<times> 'w \<Rightarrow> service \<times> 'w" where
  "pin_do ops state ip PinNothing (s, w) = (s, w)"
| "pin_do ops state ip (PinAdoptMAC mac) (s, w) = (s\<lparr>clients := setMAC ip mac (clients s)\<rparr>, w)"
| "pin_do ops state ip (PinRepinMAC mac) (s, w) = (s, snd (op_pin ops ip mac (LANInterface state) w))"

lemma pin_client_parts:
  "pin_client ops state im (s, w) =
     (case pin_look ops state im w of (todo, w1) \<Rightarrow> pin_do ops state (fst im) todo (s, w1))"
  by (auto simp: pin_client_def pin_look_def split: prod.split option.split PinAction.split)

text \<open>
  Where \<open>startPinner\<close> stands: in the first select, asleep, at the clock, at the expiry, at the
  read of the status, at the snapshot, in the walk over it, at what it decided for a client,
  returned.
\<close>

datatype pin_pc = PinWait | PinSleep go_time | PinTick go_time
  | PinExpire go_time "(string, bool) gomap" | PinLook go_time | PinSnap go_time State
  | PinWalk go_time State "(string \<times> string) list"
  | PinDo go_time State string pin_todo "(string \<times> string) list" | PinReturned

type_synonym 'w pin_state = "pin_pc \<times> service \<times> 'w"

fun pin_stage :: "('w \<Rightarrow> go_time \<times> 'w) \<Rightarrow> 'w pinOps \<Rightarrow> 'w pin_state \<Rightarrow> 'w pin_state" where
  "pin_stage clock ops (PinTick lastExpire, s, w) =
     (case clock w of (now, w1) \<Rightarrow>
        if time_sub now lastExpire \<ge> clientExpireInterval
        then (PinExpire now (remoteIPs (conns s)), s, w1)
        else (PinLook lastExpire, s, w1))"
| "pin_stage clock ops (PinExpire now live, s, w) =
     (PinLook now, s\<lparr>clients := snd (expire now discoveredClientTTL live (clients s))\<rparr>, w)"
| "pin_stage clock ops (PinLook lastExpire, s, w) =
     (let state = GetState s in
      (if \<not> CiscoConnected state \<or> LANInterface state = [] then PinSleep lastExpire
       else PinSnap lastExpire state, s, w))"
| "pin_stage clock ops (PinSnap lastExpire state, s, w) =
     (PinWalk lastExpire state (snapshot (clients s)), s, w)"
| "pin_stage clock ops (PinWalk lastExpire state [], s, w) = (PinSleep lastExpire, s, w)"
| "pin_stage clock ops (PinWalk lastExpire state (im # ims), s, w) =
     (case pin_look ops state im w of (todo, w1) \<Rightarrow> (PinDo lastExpire state (fst im) todo ims, s, w1))"
| "pin_stage clock ops (PinDo lastExpire state ip todo ims, s, w) =
     (PinWalk lastExpire state ims, pin_do ops state ip todo (s, w))"
| "pin_stage clock ops x = x"

fun pin_idle :: "'w pin_state \<Rightarrow> bool" where
  "pin_idle (PinWait, st) = True"
| "pin_idle (PinSleep le, st) = True"
| "pin_idle (PinReturned, st) = True"
| "pin_idle _ = False"

lemma pin_stages_walk:
  "run_stages (Suc (2 * length ims) + n) pin_idle (\<lambda>x. Some (pin_stage clock ops x)) (PinWalk le st ims, sw) =
     Some (PinSleep le, fold (pin_client ops st) ims sw)"
proof (induction ims arbitrary: sw)
  case Nil
  then show ?case
    by (cases sw) (simp add: run_stages_Suc run_stages_idle)
next
  case (Cons im ims)
  obtain s w where sw: "sw = (s, w)" by (cases sw)
  obtain todo w1 where look: "pin_look ops st im w = (todo, w1)" by (metis surj_pair)
  have "pin_client ops st im (s, w) = pin_do ops st (fst im) todo (s, w1)" by (simp add: pin_client_parts look)
  with Cons.IH [of "pin_client ops st im (s, w)"] show ?case by (simp add: run_stages_Suc sw look)
qed

lemma length_expire: "length (snd (expire now ttl live r)) \<le> length r"
  by (simp add: expire_def gm_delete_func_def)

text \<open>
  Cut at its accesses to the shared state, a turn of the pinner is what it is: at most two stages
  for each registered client and five more bring it to its next sleep, with the time of the
  last expiry and the state \<open>pinner_tick\<close> computes.
\<close>

theorem pin_stages_tick:
  "run_stages (2 * length (clients s) + 5) pin_idle (\<lambda>x. Some (pin_stage clock ops x)) (PinTick lastExpire, s, w) =
     (case pinner_tick clock ops (lastExpire, s, w) of (le, sw) \<Rightarrow> Some (PinSleep le, sw))"
proof -
  have look: "run_stages (Suc (Suc (Suc (k + 2 * length (clients s1))))) pin_idle (\<lambda>x. Some (pin_stage clock ops x))
      (PinLook le, s1, w1) = Some (PinSleep le,
        if \<not> CiscoConnected (GetState s1) \<or> LANInterface (GetState s1) = [] then (s1, w1)
        else pinClients ops (GetState s1) (s1, w1))" for k le s1 w1
    using pin_stages_walk [of "snapshot (clients s1)" k clock ops le "GetState s1" "(s1, w1)"]
    by (simp add: run_stages_Suc run_stages_idle Let_def pinClients_def snapshot_def gm_map_def add.commute)
  obtain now w1 where t: "clock w = (now, w1)" by (metis surj_pair)
  show ?thesis
  proof (cases "time_sub now lastExpire \<ge> clientExpireInterval")
    case False
    have "2 * length (clients s) + 5 = Suc (Suc (Suc (Suc (1 + 2 * length (clients s)))))" by simp
    with False t look [of 1 s lastExpire w1] show ?thesis
      by (simp only: run_stages_Suc) (simp add: run_stages_Suc pinner_tick_def Let_def)
  next
    case True
    let ?s1 = "s\<lparr>clients := snd (expire now discoveredClientTTL (remoteIPs (conns s)) (clients s))\<rparr>"
    let ?k = "2 * (length (clients s) - length (clients ?s1))"
    have "2 * length (clients s) + 5 = Suc (Suc (Suc (Suc (Suc (?k + 2 * length (clients ?s1))))))"
      using length_expire [of now discoveredClientTTL "remoteIPs (conns s)" "clients s"] by simp
    with True t look [of ?k ?s1 now w1] show ?thesis
      by (simp only: run_stages_Suc) (simp add: run_stages_Suc pinner_tick_def Let_def)
  qed
qed

text \<open>A stage writes to the registry only, and keeps what holds of it.\<close>

fun todo_ok :: "pin_todo \<Rightarrow> bool" where
  "todo_ok (PinAdoptMAC mac) = canonical mac"
| "todo_ok _ = True"

fun pin_ok :: "pin_pc \<Rightarrow> bool" where
  "pin_ok (PinDo le state ip todo ims) = todo_ok todo"
| "pin_ok _ = True"

lemma pin_look_ok: "arp_sound ops \<Longrightarrow> pin_look ops state im w = (todo, w1) \<Longrightarrow> todo_ok todo"
  using arp_source.lookup_sound [of "op_lookup ops"]
  by (auto simp: pin_look_def DecidePin_adopt split: prod.splits option.splits PinAction.splits if_splits)

lemma pin_do_frame: "\<exists>r. fst (pin_do ops state ip todo (s, w)) = s\<lparr>clients := r\<rparr>"
  by (cases todo) (auto intro: exI [of _ "clients s"])

lemma pin_do_wf:
  "reg_wf (clients s) \<Longrightarrow> todo_ok todo \<Longrightarrow> reg_wf (clients (fst (pin_do ops state ip todo (s, w))))"
  by (cases todo) (auto intro: go_inv)

lemma pin_do_static:
  "reg_wf (clients s) \<Longrightarrow> static_ips (clients (fst (pin_do ops state ip todo (s, w)))) = static_ips (clients s)"
  by (cases todo) (auto simp: get_setMAC static_ips_def split: if_splits)

lemma pin_stage_frame:
  "\<exists>r. fst (snd (pin_stage clock ops (pc, s, w))) = s\<lparr>clients := r\<rparr>"
proof -
  have same: "\<exists>r. s = s\<lparr>clients := r\<rparr>" by (rule exI [of _ "clients s"]) simp
  show ?thesis
    using pin_do_frame same
    by (cases "(clock, ops, (pc, s, w))" rule: pin_stage.cases)
      (auto simp: Let_def split: prod.splits)
qed

lemma pin_stage_wf:
  "reg_wf (clients s) \<Longrightarrow> pin_ok pc \<Longrightarrow> reg_wf (clients (fst (snd (pin_stage clock ops (pc, s, w)))))"
  by (cases "(clock, ops, (pc, s, w))" rule: pin_stage.cases)
    (auto simp: Let_def pin_do_wf intro: go_inv split: prod.splits)

lemma pin_stage_ok:
  "arp_sound ops \<Longrightarrow> pin_ok pc \<Longrightarrow> pin_ok (fst (pin_stage clock ops (pc, s, w)))"
  by (cases "(clock, ops, (pc, s, w))" rule: pin_stage.cases)
    (auto simp: Let_def pin_look_ok split: prod.splits)

lemma pin_stage_static:
  "reg_wf (clients s) \<Longrightarrow> static_ips (clients (fst (snd (pin_stage clock ops (pc, s, w))))) = static_ips (clients s)"
  using reg_step_static [of "clients s" "Expire _ _ _"]
  by (cases "(clock, ops, (pc, s, w))" rule: pin_stage.cases)
    (auto simp: Let_def pin_do_static reg_wf_def split: prod.splits)

section \<open>Discovery\<close>

text \<open>
  The discovery hook has three accesses: to the status, to the entry of the peer in the registry
  (the clock is read before it, the kernel's ARP entry after it), and the write to the registry
  with that time.
\<close>

type_synonym sighting = "string \<times> string \<times> go_time"

datatype hook_pc = HookLook string State | HookRecord sighting

definition hook_state :: "conn \<Rightarrow> service \<Rightarrow> hook_pc list" where
  "hook_state c s =
     (case remoteAddrPort c of
        None \<Rightarrow> []
      | Some (a, _) \<Rightarrow>
          (let state = GetState s in
           if LANInterface state = [] \<or> \<not> Contains (LANSubnet state) a then []
           else [HookLook (addr_string a) state]))"

definition hook_look ::
  "('w \<Rightarrow> go_time \<times> 'w) \<Rightarrow> 'w pinOps \<Rightarrow> string \<Rightarrow> State \<Rightarrow> service \<times> 'w \<Rightarrow> hook_pc list \<times> 'w" where
  "hook_look now ops ip state sw =
     (case sw of (s, w) \<Rightarrow>
      let (t, w1) = now w;
          (mac, last_seen, known) = lookup ip (clients s)
      in if \<not> needsRefresh known mac last_seen t then ([], w1)
         else (case op_lookup ops ip w1 of
           ((e, found), w2) \<Rightarrow>
             ([HookRecord (ip, if found \<and> arp_iface e = LANInterface state then arp_mac e else [], t)], w2)))"

definition record_sighting :: "sighting \<Rightarrow> service \<Rightarrow> service" where
  "record_sighting x s = (case x of (ip, mac, t) \<Rightarrow> s\<lparr>clients := snd (seen ip mac t (clients s))\<rparr>)"

text \<open>A stage of a hook: what it goes on with, if it does, and the state.\<close>

fun hook_stage ::
  "('w \<Rightarrow> go_time \<times> 'w) \<Rightarrow> 'w pinOps \<Rightarrow> hook_pc \<Rightarrow> service \<times> 'w \<Rightarrow> hook_pc list \<times> service \<times> 'w" where
  "hook_stage now ops (HookLook ip state) (s, w) =
     (case hook_look now ops ip state (s, w) of (next, w1) \<Rightarrow> (next, s, w1))"
| "hook_stage now ops (HookRecord x) (s, w) = ([], record_sighting x s, w)"

text \<open>The stages of a hook that nothing interrupts.\<close>

fun hook_run ::
  "nat \<Rightarrow> ('w \<Rightarrow> go_time \<times> 'w) \<Rightarrow> 'w pinOps \<Rightarrow> hook_pc list \<Rightarrow> service \<times> 'w \<Rightarrow> (service \<times> 'w) option" where
  "hook_run n now ops [] sw = Some sw"
| "hook_run 0 now ops (h # hs) sw = None"
| "hook_run (Suc n) now ops (h # hs) sw =
     (case hook_stage now ops h sw of (next, sw1) \<Rightarrow> hook_run n now ops (next @ hs) sw1)"

text \<open>
  Cut at its accesses to the shared state, \<open>discoverClient\<close> is what it is: at most two stages
  after the read of the status bring the hook to its end, with the state it computes.
\<close>

theorem hook_stages_discover:
  "hook_run 2 now ops (hook_state c s) (s, w) = Some (discoverClient now ops c (s, w))"
  by (auto simp: discoverClient_def hook_state_def hook_look_def record_sighting_def Let_def
      numeral_2_eq_2 split: option.splits prod.splits)

text \<open>
  The same for a SYN, whose callback is part of the sniffer: the address that is to be looked up
  with the status it was checked against, the repin after the read of the registry, the write.
\<close>

definition syn_state :: "addr \<Rightarrow> service \<Rightarrow> (string \<times> State) option" where
  "syn_state ip s =
     (let state = GetState s in
      if LANInterface state = [] \<or> \<not> Contains (LANSubnet state) ip \<or> ip = LANAddr state then None
      else Some (addr_string ip, state))"

definition syn_look :: "'w pinOps \<Rightarrow> string \<Rightarrow> string \<Rightarrow> State \<Rightarrow> service \<times> 'w \<Rightarrow> 'w" where
  "syn_look ops key mac state sw =
     (case sw of (s, w) \<Rightarrow>
      let (old, _, known) = lookup key (clients s)
      in if mac \<noteq> old then repinStale ops state key mac w else w)"

lemma observeSYN_phases:
  "observeSYN now ops ip mac (s, w) =
     (case syn_state ip s of
        None \<Rightarrow> (s, w)
      | Some (key, state) \<Rightarrow>
          (case now (syn_look ops key mac state (s, w)) of (t, w2) \<Rightarrow> (record_sighting (key, mac, t) s, w2)))"
  by (auto simp: observeSYN_def syn_state_def syn_look_def record_sighting_def Let_def split: prod.splits)

text \<open>
  Where \<open>startSniffer\<close> stands: at its entry, at the head of the loop, asleep for one of the two
  reasons, watching a LAN, looking up or recording the sender of a SYN, returned. The flag of a
  watch is whether its poller has seen another LAN and cancelled it; the list is what tcpdump
  has still to print.
\<close>

datatype sniff_pc = SniffStart | SniffHead | SniffWait | SniffRetry
  | SniffWatch lanSnapshot bool "string list" | SniffLook lanSnapshot bool "string list" string string State
  | SniffRecord lanSnapshot bool "string list" string string | SniffReturned

text \<open>
  A step of the sniffer under a context that is done or not. A watch starts tcpdump on the
  interface of the LAN, whose lines are read one by one. The watch ends when they do, which is a
  failure, or when tcpdump is killed with its context, whatever it had still to print.
\<close>

inductive sniff_step ::
  "'w os \<Rightarrow> go_ctx \<Rightarrow> 'w pinOps \<Rightarrow> bool \<Rightarrow> sniff_pc \<times> service \<times> 'w \<Rightarrow> sniff_pc \<times> service \<times> 'w \<Rightarrow> bool"
  for os ctx ops is_done where
  disabled: "\<not> discoveryEnabled s \<Longrightarrow> sniff_step os ctx ops is_done (SniffStart, s, w) (SniffReturned, s, w)"
| enabled: "discoveryEnabled s \<Longrightarrow> sniff_step os ctx ops is_done (SniffStart, s, w) (SniffHead, s, w)"
| no_lan: "snap_iface (lan_snapshot s) = [] \<Longrightarrow>
    sniff_step os ctx ops is_done (SniffHead, s, w) (SniffWait, s, w)"
| watch_lan: "snap_iface (lan_snapshot s) \<noteq> [] \<Longrightarrow>
    os_spawn os (WithCancel ctx) ''tcpdump'' (watch_args (snap_iface (lan_snapshot s)) proxyPort) w = (p, w1) \<Longrightarrow>
    sniff_step os ctx ops is_done (SniffHead, s, w) (SniffWatch (lan_snapshot s) False (stream_lines p), s, w1)"
| waited: "sniff_step os ctx ops is_done (SniffWait, s, w) (SniffHead, s, w)"
| wait_done: "is_done \<Longrightarrow> sniff_step os ctx ops is_done (SniffWait, s, w) (SniffReturned, s, w)"
| poll: "lan_snapshot s \<noteq> lan \<Longrightarrow>
    sniff_step os ctx ops is_done (SniffWatch lan hit ls, s, w) (SniffWatch lan True ls, s, w)"
| line: "parseSYNLine l = (ip, mac, True) \<Longrightarrow> syn_state ip s = Some (key, state) \<Longrightarrow>
    sniff_step os ctx ops is_done (SniffWatch lan hit (l # ls), s, w) (SniffLook lan hit ls key mac state, s, w)"
| line_ignored: "parseSYNLine l = (ip, mac, ok) \<Longrightarrow> ok \<longrightarrow> syn_state ip s = None \<Longrightarrow>
    sniff_step os ctx ops is_done (SniffWatch lan hit (l # ls), s, w) (SniffWatch lan hit ls, s, w)"
| looked: "sniff_step os ctx ops is_done (SniffLook lan hit ls key mac state, s, w)
      (SniffRecord lan hit ls key mac, s, syn_look ops key mac state (s, w))"
| recorded: "os_now os w = (t, w1) \<Longrightarrow>
    sniff_step os ctx ops is_done (SniffRecord lan hit ls key mac, s, w)
      (SniffWatch lan hit ls, record_sighting (key, mac, t) s, w1)"
| watch_cancelled: "is_done \<Longrightarrow>
    sniff_step os ctx ops is_done (SniffWatch lan hit ls, s, w) (SniffReturned, s, w)"
| watch_moved: "hit \<Longrightarrow> \<not> is_done \<Longrightarrow>
    sniff_step os ctx ops is_done (SniffWatch lan hit ls, s, w) (SniffHead, s, w)"
| watch_failed: "\<not> hit \<Longrightarrow> \<not> is_done \<Longrightarrow>
    sniff_step os ctx ops is_done (SniffWatch lan hit [], s, w) (SniffRetry, s, w)"
| retried: "\<not> is_done \<Longrightarrow> sniff_step os ctx ops is_done (SniffRetry, s, w) (SniffHead, s, w)"
| retry_done: "is_done \<Longrightarrow> sniff_step os ctx ops is_done (SniffRetry, s, w) (SniffReturned, s, w)"

inductive_cases sniff_stepE: "sniff_step os ctx ops is_done (pc, s, w) (pc', s', w')"

text \<open>The sightings in flight carry MACs the registry may hold.\<close>

fun sniff_ok :: "sniff_pc \<Rightarrow> bool" where
  "sniff_ok (SniffLook lan hit ls key mac state) = known_mac mac"
| "sniff_ok (SniffRecord lan hit ls key mac) = known_mac mac"
| "sniff_ok _ = True"

fun hook_ok :: "hook_pc \<Rightarrow> bool" where
  "hook_ok (HookLook ip state) = True"
| "hook_ok (HookRecord x) = known_mac (fst (snd x))"

lemma record_sighting_frame: "\<exists>r. record_sighting x s = s\<lparr>clients := r\<rparr>"
  by (cases x) (auto simp: record_sighting_def)

lemma record_sighting_wf:
  "reg_wf (clients s) \<Longrightarrow> known_mac (fst (snd x)) \<Longrightarrow> reg_wf (clients (record_sighting x s))"
  by (cases x) (auto simp: record_sighting_def intro: go_inv)

lemma record_sighting_static:
  "reg_wf (clients s) \<Longrightarrow> static_ips (clients (record_sighting x s)) = static_ips (clients s)"
  using reg_step_static [of "clients s" "Seen _ _ _"]
  by (cases x) (auto simp: record_sighting_def reg_wf_def)

lemma hook_look_ok:
  "arp_sound ops \<Longrightarrow> hook_look now ops ip state sw = (next, w) \<Longrightarrow> list_all hook_ok next"
  using arp_source.lookup_sound [of "op_lookup ops"]
  by (fastforce simp: hook_look_def Let_def known_mac_def split: prod.splits if_splits)

lemma hook_state_ok: "list_all hook_ok (hook_state c s)"
  by (simp add: hook_state_def Let_def split: option.split prod.split)

text \<open>A stage of a hook writes to the registry only, and keeps what holds of it.\<close>

lemma hook_stage_frame: "\<exists>r. fst (snd (hook_stage now ops h (s, w))) = s\<lparr>clients := r\<rparr>"
proof -
  have "\<exists>r. s = s\<lparr>clients := r\<rparr>" by (rule exI [of _ "clients s"]) simp
  then show ?thesis using record_sighting_frame by (cases h) (auto split: prod.splits)
qed

lemma hook_stage_wf:
  assumes "hook_stage now ops h (s, w) = (next, s', w')" and "arp_sound ops" and "reg_wf (clients s)" and "hook_ok h"
  shows "reg_wf (clients s') \<and> list_all hook_ok next \<and> static_ips (clients s') = static_ips (clients s)"
  using assms
  by (cases h) (auto simp: record_sighting_wf record_sighting_static hook_look_ok split: prod.splits)

lemma sniff_step_frame:
  assumes "sniff_step os ctx ops is_done (pc, s, w) (pc', s', w')"
  shows "\<exists>r. s' = s\<lparr>clients := r\<rparr>"
proof -
  have "s' = s \<or> (\<exists>x. s' = record_sighting x s)" using assms by (auto elim!: sniff_stepE)
  moreover have "\<exists>r. s = s\<lparr>clients := r\<rparr>" by (rule exI [of _ "clients s"]) simp
  ultimately show ?thesis using record_sighting_frame by blast
qed

lemma sniff_step_wf:
  assumes "sniff_step os ctx ops is_done (pc, s, w) (pc', s', w')" and "reg_wf (clients s)" and "sniff_ok pc"
  shows "reg_wf (clients s') \<and> sniff_ok pc' \<and> static_ips (clients s') = static_ips (clients s)"
  using assms
  by (auto simp: record_sighting_wf record_sighting_static known_mac_def
      dest: parseSYNLine_sound elim!: sniff_stepE)


subsection \<open>A watch as a run of steps\<close>

lemma sniff_observes:
  assumes "parseSYNLine l = (ip, mac, True)"
  shows "(sniff_step os ctx ops is_done)\<^sup>*\<^sup>* (SniffWatch lan hit (l # ls), s, w)
     (SniffWatch lan hit ls, observeSYN (os_now os) ops ip mac (s, w))"
proof (cases "syn_state ip s")
  case None
  with sniff_step.line_ignored [OF assms, of s os ctx ops is_done lan hit ls w] show ?thesis
    by (simp add: observeSYN_phases r_into_rtranclp)
next
  case (Some x)
  obtain key state where x: "x = (key, state)" by (cases x)
  obtain t w2 where t: "os_now os (syn_look ops key mac state (s, w)) = (t, w2)" by (metis surj_pair)
  have "sniff_step os ctx ops is_done (SniffWatch lan hit (l # ls), s, w) (SniffLook lan hit ls key mac state, s, w)"
    using Some x by (intro sniff_step.line [OF assms]) simp
  moreover have "sniff_step os ctx ops is_done (SniffLook lan hit ls key mac state, s, w)
      (SniffRecord lan hit ls key mac, s, syn_look ops key mac state (s, w))" by (rule sniff_step.looked)
  moreover have "sniff_step os ctx ops is_done (SniffRecord lan hit ls key mac, s, syn_look ops key mac state (s, w))
      (SniffWatch lan hit ls, record_sighting (key, mac, t) s, w2)" by (rule sniff_step.recorded [OF t])
  ultimately show ?thesis
    using Some x t by (simp add: observeSYN_phases)
qed

lemma sniff_reads_line:
  "(sniff_step os ctx ops is_done)\<^sup>*\<^sup>* (SniffWatch lan hit (l # ls), sw)
     (SniffWatch lan hit ls, syn_line (observeSYN (os_now os) ops) l sw)"
proof -
  obtain ip mac ok where p: "parseSYNLine l = (ip, mac, ok)" by (metis surj_pair)
  show ?thesis
  proof (cases ok)
    case True
    with p show ?thesis by (cases sw) (simp add: syn_line_def sniff_observes)
  next
    case False
    with p sniff_step.line_ignored [OF p, of "fst sw" os ctx ops is_done lan hit ls "snd sw"] show ?thesis
      by (cases sw) (simp add: syn_line_def r_into_rtranclp)
  qed
qed

lemma sniff_reads:
  "(sniff_step os ctx ops is_done)\<^sup>*\<^sup>* (SniffWatch lan hit ls, sw)
     (SniffWatch lan hit [], fold (syn_line (observeSYN (os_now os) ops)) ls sw)"
proof (induction ls arbitrary: sw)
  case Nil
  show ?case by simp
next
  case (Cons l ls)
  show ?case using rtranclp_trans [OF sniff_reads_line Cons.IH] by simp
qed

text \<open>Where the loop of \<open>startSniffer\<close> goes on after a watch.\<close>

definition after_watch :: "go_error option \<Rightarrow> bool \<Rightarrow> sniff_pc" where
  "after_watch err is_done =
     (if err \<noteq> None then SniffRetry else if is_done then SniffReturned else SniffHead)"

text \<open>
  Cut at its accesses to the shared state, a watch of \<open>sniffLAN\<close> is what it is: from the start of
  tcpdump on, the steps of the sniffer go through the same states, frame by frame, to the place
  the loop goes on at after the error \<open>sniffLAN\<close> reports.
\<close>

theorem sniffLAN_steps:
  "case sniffLAN os ops (WatchSYN os) ctx lan polls (s, w) of (err, s', w') \<Rightarrow>
   case os_spawn os (WithCancel ctx) ''tcpdump'' (watch_args (snap_iface lan) proxyPort) w of (p, w1) \<Rightarrow>
     let is_done = os_ctx_err os (WithCancel ctx) w' in
     (sniff_step os ctx ops is_done)\<^sup>*\<^sup>*
       (SniffWatch lan (poller_cancels lan polls) (stream_lines p), s, w1)
       (after_watch err is_done, s', w')"
proof -
  obtain p w1 where spawn: "os_spawn os (WithCancel ctx) ''tcpdump'' (watch_args (snap_iface lan) proxyPort) w = (p, w1)"
    by (metis surj_pair)
  obtain err s' w' where watch:
    "WatchSYN os (WithCancel ctx) (snap_iface lan) proxyPort (observeSYN (os_now os) ops) (s, w) = (err, s', w')"
    by (metis surj_pair)
  let ?d = "os_ctx_err os (WithCancel ctx) w'" and ?hit = "poller_cancels lan polls"
  let ?err = "if ?d \<or> ?hit then None else if err = None then Some errSnifferExited else err"
  have "fold (syn_line (observeSYN (os_now os) ops)) (stream_lines p) (s, w1) = (s', w')"
    using Stream_reads [of os "WithCancel ctx" "syn_line (observeSYN (os_now os) ops)" "''tcpdump''"
        "watch_args (snap_iface lan) proxyPort" s w] watch spawn by (simp add: WatchSYN_def)
  with sniff_reads [of os ctx ops ?d lan ?hit "stream_lines p" "(s, w1)"]
  have "(sniff_step os ctx ops ?d)\<^sup>*\<^sup>* (SniffWatch lan ?hit (stream_lines p), s, w1) (SniffWatch lan ?hit [], s', w')"
    by simp
  moreover have "sniff_step os ctx ops ?d (SniffWatch lan ?hit [], s', w') (after_watch ?err ?d, s', w')"
    by (auto simp: after_watch_def intro: sniff_step.watch_cancelled sniff_step.watch_moved sniff_step.watch_failed)
  ultimately have "(sniff_step os ctx ops ?d)\<^sup>*\<^sup>* (SniffWatch lan ?hit (stream_lines p), s, w1) (after_watch ?err ?d, s', w')"
    by (rule rtranclp.rtrancl_into_rtrancl)
  moreover have "sniffLAN os ops (WatchSYN os) ctx lan polls (s, w) = (?err, s', w')"
    by (simp add: sniffLAN_def watch Let_def)
  ultimately show ?thesis by (simp only: Let_def prod.case spawn)
qed

end
