(* ===== verification/Accept.thy ===== *)
theory Accept
  imports Discovery
begin

text \<open>
  The accept loop of \<open>proxy.go\<close> and the life of one accepted connection. The loop is shared
  by the loopback listener and the LAN listener; its select on the context and the listener's
  state are what the two owners change under it, so it is a step relation.
\<close>

section \<open>The loop\<close>

definition acceptErrorBackoff :: duration where "acceptErrorBackoff = 500 * millisecond"

definition ErrClosed :: go_error where "ErrClosed = Sentinel ''use of closed network connection''"

text \<open>Where the loop stands: in \<open>Accept\<close>, in the backoff, or returned with its result.\<close>

datatype accept_pc = Accepting | BackingOff | Ended "go_error option"

definition after_error :: "bool \<Rightarrow> string \<Rightarrow> go_error \<Rightarrow> accept_pc" where
  "after_error ctx_done laddr err =
     (if ctx_done then Ended None
      else if errors_is err ErrClosed
      then Ended (Some (Wrap (''listener '' @ laddr @ '' closed unexpectedly: '') err []))
      else BackingOff)"

text \<open>
  One step of \<open>acceptConns\<close> for a listener that is \<open>open\<close> or not, under a context that is done
  or not. What \<open>net\<close> promises of \<open>Accept\<close>: a closed listener yields an error that wraps
  \<open>net.ErrClosed\<close>, an open one a new connection or another error.
\<close>

inductive accept_step ::
  "bool \<Rightarrow> string \<Rightarrow> bool \<Rightarrow> bool \<Rightarrow> accept_pc \<times> service \<Rightarrow> accept_pc \<times> service \<Rightarrow> bool"
  for lan laddr l_open ctx_done where
  accept_conn: "l_open \<Longrightarrow> gm_get (conns s) c = None \<Longrightarrow>
    accept_step lan laddr l_open ctx_done (Accepting, s)
      (Accepting, s\<lparr>conns := conns_add c lan (conns s)\<rparr>)"
| accept_error: "errors_is err ErrClosed = (\<not> l_open) \<Longrightarrow>
    accept_step lan laddr l_open ctx_done (Accepting, s) (after_error ctx_done laddr err, s)"
| backoff_done: "ctx_done \<Longrightarrow>
    accept_step lan laddr l_open ctx_done (BackingOff, s) (Ended None, s)"
| backoff_over:
   "accept_step lan laddr l_open ctx_done (BackingOff, s) (Accepting, s)"

inductive_cases accept_stepE: "accept_step lan laddr l_open ctx_done (pc, s) (pc', s')"
inductive_simps accept_step_ended [simp]: "accept_step lan laddr l_open ctx_done (Ended r, s) st"

text \<open>
  An error of \<open>Accept\<close> on an open listener comes from outside (no descriptors, an aborted
  connection). A step without one leaves the loop in \<open>Accept\<close> until the listener is closed.
\<close>

definition accept_undisturbed :: "bool \<Rightarrow> accept_pc \<Rightarrow> accept_pc \<Rightarrow> bool" where
  "accept_undisturbed l_open pc pc' \<longleftrightarrow> (if l_open \<and> pc = Accepting then pc' = Accepting else True)"

lemma accept_undisturbed_same [simp]: "accept_undisturbed l_open pc pc"
  by (simp add: accept_undisturbed_def)

lemma accept_undisturbed_closed [simp]: "accept_undisturbed False pc pc'"
  by (simp add: accept_undisturbed_def)

section \<open>One connection\<close>

text \<open>
  The goroutine of a connection: the discovery hook on the LAN, then the SOCKS server, which
  is a parameter, and the removal from the tracker however it ended.
\<close>

definition handle_conn ::
  "('w \<Rightarrow> go_time \<times> 'w) \<Rightarrow> 'w pinOps \<Rightarrow> (conn \<Rightarrow> service \<times> 'w \<Rightarrow> service \<times> 'w) \<Rightarrow> bool \<Rightarrow> conn
     \<Rightarrow> service \<times> 'w \<Rightarrow> service \<times> 'w" where
  "handle_conn clock ops serve lan c sw =
     (let sw1 = (if lan \<and> discoveryEnabled (fst sw) then discoverClient clock ops c sw else sw);
          (s2, w2) = serve c sw1
      in (s2\<lparr>conns := conns_remove c (conns s2)\<rparr>, w2))"

section \<open>Lemmas\<close>

lemma after_error_ended:
  "after_error ctx_done laddr err = Ended r \<Longrightarrow> if ctx_done then r = None else r \<noteq> None"
  by (auto simp: after_error_def split: if_splits)

lemma accept_step_result:
  assumes "accept_step lan laddr l_open ctx_done (pc, s) (Ended r, s')"
  shows "s' = s \<and> (if ctx_done then r = None else r \<noteq> None \<and> \<not> l_open)"
  using assms by (auto simp: after_error_def elim!: accept_stepE split: if_splits)

lemma accept_step_state:
  assumes "accept_step lan laddr l_open ctx_done (pc, s) (pc', s')"
  shows "s' = s \<or> (\<exists>c. l_open \<and> pc = Accepting \<and> pc' = Accepting \<and> gm_get (conns s) c = None
     \<and> s' = s\<lparr>conns := conns_add c lan (conns s)\<rparr>)"
  using assms by (auto elim!: accept_stepE)

text \<open>A closed listener under a done context never keeps its loop: it can end and not accept.\<close>

lemma accept_step_can_end:
  assumes "\<not> l_open" and "ctx_done" and "\<forall>r. pc \<noteq> Ended r"
  shows "accept_step lan laddr l_open ctx_done (pc, s) (Ended None, s)"
proof (cases pc)
  case Accepting
  have "after_error ctx_done laddr ErrClosed = Ended None" using assms(2) by (simp add: after_error_def)
  with Accepting assms(1) show ?thesis
    using accept_step.accept_error [of ErrClosed l_open lan laddr ctx_done s] by simp
next
  case BackingOff
  with assms(2) show ?thesis by (simp add: accept_step.backoff_done)
qed (use assms(3) in auto)

text \<open>Any number of steps under the same listener and context.\<close>

abbreviation accept_steps ::
  "bool \<Rightarrow> string \<Rightarrow> bool \<Rightarrow> bool \<Rightarrow> accept_pc \<times> service \<Rightarrow> accept_pc \<times> service \<Rightarrow> bool" where
  "accept_steps lan laddr l_open ctx_done \<equiv> (accept_step lan laddr l_open ctx_done)\<^sup>*\<^sup>*"

text \<open>
  What steps of the loop keep: every field but the tracker, and of the tracker every entry.
\<close>

definition accept_grows :: "bool \<Rightarrow> service \<Rightarrow> service \<Rightarrow> bool" where
  "accept_grows lan s s' \<longleftrightarrow> (\<exists>ct. s' = s\<lparr>conns := ct\<rparr>)
     \<and> (\<forall>c b. gm_get (conns s) c = Some b \<longrightarrow> gm_get (conns s') c = Some b)
     \<and> (\<forall>c b. gm_get (conns s') c = Some b \<longrightarrow> gm_get (conns s) c = Some b \<or> b = lan)"

lemma accept_grows_refl: "accept_grows lan s s"
  by (auto simp: accept_grows_def intro: exI [of _ "conns s"])

lemma accept_grows_trans: "accept_grows lan s s1 \<Longrightarrow> accept_grows lan s1 s2 \<Longrightarrow> accept_grows lan s s2"
proof -
  assume a: "accept_grows lan s s1" and b: "accept_grows lan s1 s2"
  from a obtain ct where ct: "s1 = s\<lparr>conns := ct\<rparr>" by (auto simp: accept_grows_def)
  from b obtain ct' where ct': "s2 = s1\<lparr>conns := ct'\<rparr>" by (auto simp: accept_grows_def)
  have "s2 = s\<lparr>conns := ct'\<rparr>" by (simp add: ct ct')
  then have "\<exists>ct. s2 = s\<lparr>conns := ct\<rparr>" ..
  with a b show ?thesis unfolding accept_grows_def by blast
qed

lemma accept_step_grows:
  "accept_step lan laddr l_open ctx_done (pc, s) (pc', s') \<Longrightarrow> accept_grows lan s s'"
  by (drule accept_step_state, elim disjE exE conjE)
    (simp_all add: accept_grows_refl, auto simp: accept_grows_def conns_add_def)

lemma accept_steps_grows:
  "accept_steps lan laddr l_open ctx_done st st' \<Longrightarrow> accept_grows lan (snd st) (snd st')"
proof (induction rule: rtranclp_induct)
  case base
  then show ?case by (rule accept_grows_refl)
next
  case (step y z)
  then show ?case using accept_grows_trans accept_step_grows by (metis surjective_pairing)
qed

section \<open>Properties\<close>

text \<open>
  C19: The accept loop ends for two reasons only. Under a live context it returns nothing but
  the error of a closed listener, and never while the listener is open: accept errors are
  backed off and survived. Under a done context it returns no error. Until then it only adds
  connections, marked with the listener they came from.
\<close>

theorem acceptConns_ends:
  assumes "accept_steps lan laddr l_open ctx_done (Accepting, s) (Ended r, s')"
  shows "(if ctx_done then r = None else r \<noteq> None \<and> \<not> l_open)
     \<and> (\<exists>ct. s' = s\<lparr>conns := ct\<rparr>)
     \<and> (\<forall>c b. gm_get (conns s) c = Some b \<longrightarrow> gm_get (conns s') c = Some b)
     \<and> (\<forall>c b. gm_get (conns s') c = Some b \<longrightarrow> gm_get (conns s) c = Some b \<or> b = lan)"
proof -
  from assms obtain st where "accept_step lan laddr l_open ctx_done st (Ended r, s')"
    by (cases rule: rtranclp.cases) auto
  then have "if ctx_done then r = None else r \<noteq> None \<and> \<not> l_open"
    using accept_step_result by (cases st) blast
  with accept_steps_grows [OF assms] show ?thesis by (simp add: accept_grows_def)
qed

text \<open>A loop that accepts one connection, backs off from an error and stops at shutdown.\<close>

theorem acceptConns_ends_witness:
  "\<exists>s' r. accept_steps True ''0.0.0.0:8080'' True True (Accepting, sample_service) (Ended r, s')
     \<and> r = None"
proof -
  let ?c = "\<lparr>conn_id = 1, RemoteAddr = TCPAddr (V4 0xC0A8002A) 50000\<rparr>"
  let ?s = "sample_service\<lparr>conns := conns_add ?c True (conns sample_service)\<rparr>"
  have st1: "accept_step True ''0.0.0.0:8080'' True True (Accepting, sample_service) (Accepting, ?s)"
    by (rule accept_step.accept_conn)
      (simp_all add: sample_service_def New_def newConnTracker_def)
  have "after_error True ''0.0.0.0:8080'' (Msg ''too many open files'') = Ended None"
    by (simp add: after_error_def)
  then have st2: "accept_step True ''0.0.0.0:8080'' True True (Accepting, ?s) (Ended None, ?s)"
    using accept_step.accept_error [of "Msg ''too many open files''" True True "''0.0.0.0:8080''" True ?s]
    by (simp add: ErrClosed_def)
  have "accept_steps True ''0.0.0.0:8080'' True True (Accepting, sample_service) (Ended None, ?s)"
    by (rule rtranclp.rtrancl_into_rtrancl [of "accept_step True ''0.0.0.0:8080'' True True"])
      (rule r_into_rtranclp [of "accept_step True ''0.0.0.0:8080'' True True"], rule st1, rule st2)
  from acceptConns_ends [OF this] this show ?thesis by auto
qed

text \<open>
  A connection that was handled is no longer tracked, whatever the SOCKS server did with
  it, and no other connection is touched by that; on loopback no discovery runs.
\<close>

theorem handle_conn_untracks:
  "gm_get (conns (fst (handle_conn clock ops serve lan c (s, w)))) =
     (gm_get (conns (fst (serve c
        (if lan \<and> discoveryEnabled s then discoverClient clock ops c (s, w) else (s, w))))))(c := None)"
  by (simp add: handle_conn_def Let_def conns_remove_def split: prod.split)

end
