(* ===== verification/Lan_Listener.thy ===== *)
theory Lan_Listener
  imports Accept
begin

text \<open>
  The owner of the LAN listener, \<open>serveLAN\<close> of \<open>lan.go\<close>, as a state machine: it runs beside the
  accept loops of the listeners it opened, the supervisor that changes the LAN and requests
  checks, the cancellation of the context and whatever else closes a listener. A transition is
  one blocking step of one of them.
\<close>

section \<open>State\<close>

definition lanRetryInterval :: duration where "lanRetryInterval = 10 * second"

text \<open>
  A listener with its derived context and its accept loop. The channel \<open>done\<close> holds the result
  once the loop has returned, and is read at most once.
\<close>

record lanListener =
  bound :: lanSnapshot
  l_open :: bool
  l_cancelled :: bool
  l_loop :: accept_pc

text \<open>
  Where \<open>serveLAN\<close> stands: at the head of the loop, waiting in \<open>close\<close> for the old loop, at the
  switch, in the select, in the deferred close, or returned. The wanted snapshot was read at
  the head of the loop.
\<close>

datatype serve_pc = Head | Closing lanSnapshot | Switch lanSnapshot | Select lanSnapshot
  | FinalClose | Finished "go_error option"

text \<open>
  \<open>listeners\<close> holds every listener ever opened; \<open>cur\<close> is the pointer of the code. The supervisor
  writes the status first and sends the check afterwards: \<open>notify_due\<close> is true in between.
  \<open>ext_closed\<close> and \<open>owners\<close> only observe: whether something else closed a listener, and which
  listener accepted a connection.
\<close>

record lan_sys =
  svc :: service
  ctx_done :: bool
  cur :: "nat option"
  listeners :: "lanListener list"
  serve_at :: serve_pc
  notify_due :: bool
  ext_closed :: bool
  owners :: "conn \<Rightarrow> nat option"

definition serveLAN_start :: "service \<Rightarrow> lan_sys" where
  "serveLAN_start s = \<lparr>svc = s, ctx_done = False, cur = None, listeners = [], serve_at = Head,
     notify_due = False, ext_closed = False, owners = (\<lambda>_. None)\<rparr>"

section \<open>Operations\<close>

text \<open>\<open>close\<close> up to the receive from \<open>done\<close>, on which the caller then blocks.\<close>

definition close_listener :: "nat \<Rightarrow> lan_sys \<Rightarrow> lan_sys" where
  "close_listener i y =
     y\<lparr>listeners := (listeners y)[i := (listeners y ! i)\<lparr>l_cancelled := True, l_open := False\<rparr>]\<rparr>"

definition openLAN :: "bool \<Rightarrow> lanSnapshot \<Rightarrow> lan_sys \<Rightarrow> lan_sys" where
  "openLAN bind_ok lan y =
     (if \<not> bind_ok then y\<lparr>cur := None\<rparr>
      else y\<lparr>listeners := listeners y @
               [\<lparr>bound = lan, l_open = True, l_cancelled = False, l_loop = Accepting\<rparr>],
             cur := Some (length (listeners y))\<rparr>)"

definition serve_head :: "lan_sys \<Rightarrow> lan_sys" where
  "serve_head y =
     (let want = lan_snapshot (svc y) in
      case cur y of
        Some i \<Rightarrow>
          if bound (listeners y ! i) \<noteq> want
          then (close_listener i y)\<lparr>serve_at := Closing want\<rparr>
          else y\<lparr>serve_at := Switch want\<rparr>
      | None \<Rightarrow> y\<lparr>serve_at := Switch want\<rparr>)"

definition serve_closed :: "lanSnapshot \<Rightarrow> lan_sys \<Rightarrow> lan_sys" where
  "serve_closed want y =
     y\<lparr>cur := None, svc := (svc y)\<lparr>conns := snd (snd (closeLAN (conns (svc y))))\<rparr>,
       serve_at := Switch want\<rparr>"

definition serve_switch :: "bool \<Rightarrow> lanSnapshot \<Rightarrow> lan_sys \<Rightarrow> lan_sys" where
  "serve_switch bind_ok want y =
     (if cur y \<noteq> None then y
      else if snap_iface want \<noteq> [] then openLAN bind_ok want y
      else y)\<lparr>serve_at := Select want\<rparr>"

text \<open>The four arms of the select; the timer is set only when a bind is wanted and missing.\<close>

definition select_done :: "lan_sys \<Rightarrow> lan_sys" where
  "select_done y =
     (case cur y of
        None \<Rightarrow> y\<lparr>serve_at := Finished None\<rparr>
      | Some i \<Rightarrow> (close_listener i y)\<lparr>serve_at := FinalClose\<rparr>)"

definition select_check :: "lan_sys \<Rightarrow> lan_sys" where
  "select_check y = y\<lparr>svc := (svc y)\<lparr>lanCheck := False\<rparr>, serve_at := Head\<rparr>"

definition retry_armed :: "lanSnapshot \<Rightarrow> lan_sys \<Rightarrow> bool" where
  "retry_armed want y = (cur y = None \<and> snap_iface want \<noteq> [])"

definition select_ended :: "nat \<Rightarrow> go_error option \<Rightarrow> lan_sys \<Rightarrow> lan_sys" where
  "select_ended i r y =
     y\<lparr>listeners := (listeners y)[i := (listeners y ! i)\<lparr>l_cancelled := True\<rparr>],
       cur := None, serve_at := Finished r\<rparr>"

text \<open>A step of the accept loop of listener \<open>i\<close>.\<close>

definition with_loop :: "nat \<Rightarrow> accept_pc \<Rightarrow> service \<Rightarrow> lan_sys \<Rightarrow> lan_sys" where
  "with_loop i pc s y =
     y\<lparr>listeners := (listeners y)[i := (listeners y ! i)\<lparr>l_loop := pc\<rparr>],
       svc := s,
       owners := (\<lambda>c. if gm_get (conns s) c \<noteq> gm_get (conns (svc y)) c then Some i else owners y c)\<rparr>"

section \<open>Transitions\<close>

text \<open>
  What the rest of the program may do to the service in one step: anything but move the LAN,
  take the pending check or add a connection of the LAN listener.
\<close>

definition lan_quiet :: "service \<Rightarrow> service \<Rightarrow> bool" where
  "lan_quiet s s' \<longleftrightarrow> lan_snapshot s' = lan_snapshot s \<and> (lanCheck s \<longrightarrow> lanCheck s')
     \<and> gm_wf (conns s')
     \<and> (\<forall>c. gm_get (conns s') c = Some True \<longrightarrow> gm_get (conns s) c = Some True)"

inductive lan_step :: "string \<Rightarrow> lan_sys \<Rightarrow> lan_sys \<Rightarrow> bool" for laddr where
  at_head: "serve_at y = Head \<Longrightarrow> lan_step laddr y (serve_head y)"
| at_close: "serve_at y = Closing want \<Longrightarrow> cur y = Some i \<Longrightarrow>
    l_loop (listeners y ! i) = Ended r \<Longrightarrow> lan_step laddr y (serve_closed want y)"
| at_switch: "serve_at y = Switch want \<Longrightarrow> lan_step laddr y (serve_switch bind_ok want y)"
| sel_ctx: "serve_at y = Select want \<Longrightarrow> ctx_done y \<Longrightarrow> lan_step laddr y (select_done y)"
| sel_check: "serve_at y = Select want \<Longrightarrow> lanCheck (svc y) \<Longrightarrow> lan_step laddr y (select_check y)"
| sel_retry: "serve_at y = Select want \<Longrightarrow> retry_armed want y \<Longrightarrow>
    lan_step laddr y (y\<lparr>serve_at := Head\<rparr>)"
| sel_ended: "serve_at y = Select want \<Longrightarrow> cur y = Some i \<Longrightarrow>
    l_loop (listeners y ! i) = Ended r \<Longrightarrow> lan_step laddr y (select_ended i r y)"
| at_final: "serve_at y = FinalClose \<Longrightarrow> cur y = Some i \<Longrightarrow>
    l_loop (listeners y ! i) = Ended r \<Longrightarrow>
    lan_step laddr y (y\<lparr>cur := None, serve_at := Finished None\<rparr>)"
| loop: "i < length (listeners y) \<Longrightarrow>
    accept_step True laddr (l_open (listeners y ! i)) (l_cancelled (listeners y ! i) \<or> ctx_done y)
      (l_loop (listeners y ! i), svc y) (pc, s) \<Longrightarrow>
    lan_step laddr y (with_loop i pc s y)"
| env_cancel: "lan_step laddr y (y\<lparr>ctx_done := True\<rparr>)"
| env_close: "i < length (listeners y) \<Longrightarrow>
    lan_step laddr y
      (y\<lparr>listeners := (listeners y)[i := (listeners y ! i)\<lparr>l_open := False\<rparr>], ext_closed := True\<rparr>)"
| env_lan: "lan_step laddr y
    (y\<lparr>svc := (svc y)\<lparr>clients := r, status := st\<rparr>, notify_due := True\<rparr>)"
| env_notify: "notify_due y \<Longrightarrow>
    lan_step laddr y (y\<lparr>svc := notifyLANCheck (svc y), notify_due := False\<rparr>)"
| env_other: "lan_quiet (svc y) s \<Longrightarrow> lan_step laddr y (y\<lparr>svc := s\<rparr>)"

inductive_cases lan_stepE: "lan_step laddr y y'"

inductive lan_reach :: "string \<Rightarrow> service \<Rightarrow> lan_sys \<Rightarrow> bool" for laddr s0 where
  start: "lan_reach laddr s0 (serveLAN_start s0)"
| step: "lan_reach laddr s0 y \<Longrightarrow> lan_step laddr y y' \<Longrightarrow> lan_reach laddr s0 y'"

section \<open>The invariant\<close>

definition listener_ok :: "lan_sys \<Rightarrow> nat \<Rightarrow> lanListener \<Rightarrow> bool" where
  "listener_ok y i l \<longleftrightarrow>
     (cur y \<noteq> Some i \<longrightarrow> (\<exists>r. l_loop l = Ended r)
        \<and> (l_open l \<longrightarrow> (\<exists>r. serve_at y = Finished r) \<and> ctx_done y))
     \<and> (l_loop l = Ended None \<longrightarrow> l_cancelled l \<or> ctx_done y)
     \<and> (\<forall>e. l_loop l = Ended (Some e) \<longrightarrow> \<not> l_open l)
     \<and> (l_open l \<or> l_cancelled l \<or> ext_closed y)"

text \<open>What the current listener looks like where \<open>serveLAN\<close> stands.\<close>

fun pc_ok :: "serve_pc \<Rightarrow> lan_sys \<Rightarrow> bool" where
  "pc_ok Head y = (\<forall>i. cur y = Some i \<longrightarrow> \<not> l_cancelled (listeners y ! i))"
| "pc_ok (Closing want) y = (\<exists>i. cur y = Some i \<and> l_cancelled (listeners y ! i)
     \<and> \<not> l_open (listeners y ! i) \<and> bound (listeners y ! i) \<noteq> want)"
| "pc_ok (Switch want) y = (\<forall>i. cur y = Some i \<longrightarrow> \<not> l_cancelled (listeners y ! i)
     \<and> bound (listeners y ! i) = want)"
| "pc_ok (Select want) y = (\<forall>i. cur y = Some i \<longrightarrow> \<not> l_cancelled (listeners y ! i)
     \<and> bound (listeners y ! i) = want)"
| "pc_ok FinalClose y = (\<exists>i. cur y = Some i \<and> l_cancelled (listeners y ! i)
     \<and> \<not> l_open (listeners y ! i) \<and> ctx_done y)"
| "pc_ok (Finished r) y = (cur y = None \<and> (if r = None then ctx_done y else ext_closed y))"

fun wanted :: "serve_pc \<Rightarrow> lanSnapshot option" where
  "wanted (Closing want) = Some want"
| "wanted (Switch want) = Some want"
| "wanted (Select want) = Some want"
| "wanted _ = None"

text \<open>No lost update: a snapshot that moved since it was read has its check pending or due.\<close>

definition check_ok :: "lan_sys \<Rightarrow> bool" where
  "check_ok y \<longleftrightarrow> (\<forall>want. wanted (serve_at y) = Some want \<longrightarrow> lan_snapshot (svc y) \<noteq> want \<longrightarrow>
     lanCheck (svc y) \<or> notify_due y)"

definition conns_ok :: "lan_sys \<Rightarrow> bool" where
  "conns_ok y \<longleftrightarrow> gm_wf (conns (svc y))
     \<and> (\<forall>c. gm_get (conns (svc y)) c = Some True \<longrightarrow>
          (\<exists>i. owners y c = Some i \<and> (cur y = Some i \<or> (\<exists>r. serve_at y = Finished r))))"

definition lan_inv :: "lan_sys \<Rightarrow> bool" where
  "lan_inv y \<longleftrightarrow> (\<forall>i < length (listeners y). listener_ok y i (listeners y ! i))
     \<and> (\<forall>i. cur y = Some i \<longrightarrow> i < length (listeners y))
     \<and> pc_ok (serve_at y) y \<and> check_ok y \<and> conns_ok y"

lemmas lan_op_defs = serve_head_def serve_closed_def serve_switch_def select_done_def select_check_def
  select_ended_def openLAN_def close_listener_def with_loop_def Let_def

lemma lan_inv_start: "gm_wf (conns s) \<Longrightarrow> (\<And>c. gm_get (conns s) c \<noteq> Some True) \<Longrightarrow>
    lan_inv (serveLAN_start s)"
  by (simp add: lan_inv_def serveLAN_start_def check_ok_def conns_ok_def)

text \<open>One lemma per kind of step.\<close>

lemma inv_head: "lan_inv y \<Longrightarrow> serve_at y = Head \<Longrightarrow> lan_inv (serve_head y)"
  by (auto simp: lan_inv_def listener_ok_def check_ok_def conns_ok_def lan_op_defs nth_list_update
      split: option.splits)

lemma inv_close:
  assumes "lan_inv y" "serve_at y = Closing want" "cur y = Some i" "l_loop (listeners y ! i) = Ended r"
  shows "lan_inv (serve_closed want y)"
proof -
  have wf: "gm_wf (conns (svc y))" using assms(1) by (simp add: lan_inv_def conns_ok_def)
  show ?thesis
    using assms closeLAN_wf [OF wf] get_closeLAN [OF wf]
    by (auto simp: lan_inv_def listener_ok_def check_ok_def conns_ok_def lan_op_defs lan_snapshot_def
        GetState_def)
qed

lemma inv_switch: "lan_inv y \<Longrightarrow> serve_at y = Switch want \<Longrightarrow> lan_inv (serve_switch ok want y)"
  by (auto simp: lan_inv_def listener_ok_def check_ok_def conns_ok_def lan_op_defs nth_append less_Suc_eq)

lemma inv_done: "lan_inv y \<Longrightarrow> serve_at y = Select want \<Longrightarrow> ctx_done y \<Longrightarrow> lan_inv (select_done y)"
  by (auto simp: lan_inv_def listener_ok_def check_ok_def conns_ok_def lan_op_defs nth_list_update
      split: option.splits)

lemma inv_check: "lan_inv y \<Longrightarrow> serve_at y = Select want \<Longrightarrow> lan_inv (select_check y)"
  by (auto simp: lan_inv_def listener_ok_def check_ok_def conns_ok_def lan_op_defs)

lemma inv_retry: "lan_inv y \<Longrightarrow> serve_at y = Select want \<Longrightarrow> retry_armed want y \<Longrightarrow>
    lan_inv (y\<lparr>serve_at := Head\<rparr>)"
  by (auto simp: lan_inv_def listener_ok_def check_ok_def conns_ok_def retry_armed_def)

lemma inv_ended:
  "lan_inv y \<Longrightarrow> serve_at y = Select want \<Longrightarrow> cur y = Some i \<Longrightarrow> l_loop (listeners y ! i) = Ended r \<Longrightarrow>
   lan_inv (select_ended i r y)"
  by (cases r)
    (auto simp: lan_inv_def listener_ok_def check_ok_def conns_ok_def lan_op_defs nth_list_update)

lemma inv_final:
  "lan_inv y \<Longrightarrow> serve_at y = FinalClose \<Longrightarrow> cur y = Some i \<Longrightarrow> l_loop (listeners y ! i) = Ended r \<Longrightarrow>
   lan_inv (y\<lparr>cur := None, serve_at := Finished None\<rparr>)"
  by (auto simp: lan_inv_def listener_ok_def check_ok_def conns_ok_def)

lemma inv_env:
  "lan_inv y \<Longrightarrow> lan_inv (y\<lparr>ctx_done := True\<rparr>)"
  "lan_inv y \<Longrightarrow> i < length (listeners y) \<Longrightarrow> lan_inv
      (y\<lparr>listeners := (listeners y)[i := (listeners y ! i)\<lparr>l_open := False\<rparr>], ext_closed := True\<rparr>)"
  "lan_inv y \<Longrightarrow> lan_inv (y\<lparr>svc := (svc y)\<lparr>clients := r, status := st\<rparr>, notify_due := True\<rparr>)"
  "lan_inv y \<Longrightarrow> lan_inv (y\<lparr>svc := notifyLANCheck (svc y), notify_due := False\<rparr>)"
  "lan_inv y \<Longrightarrow> lan_quiet (svc y) s \<Longrightarrow> lan_inv (y\<lparr>svc := s\<rparr>)"
proof -
  show "lan_inv y \<Longrightarrow> lan_inv (y\<lparr>ctx_done := True\<rparr>)"
    by (cases "serve_at y") (auto simp: lan_inv_def listener_ok_def check_ok_def conns_ok_def)
  show "lan_inv y \<Longrightarrow> i < length (listeners y) \<Longrightarrow> lan_inv
      (y\<lparr>listeners := (listeners y)[i := (listeners y ! i)\<lparr>l_open := False\<rparr>], ext_closed := True\<rparr>)"
    by (cases "serve_at y")
      (auto simp: lan_inv_def listener_ok_def check_ok_def conns_ok_def nth_list_update)
  show "lan_inv y \<Longrightarrow> lan_inv (y\<lparr>svc := (svc y)\<lparr>clients := r, status := st\<rparr>, notify_due := True\<rparr>)"
    by (cases "serve_at y") (auto simp: lan_inv_def listener_ok_def check_ok_def conns_ok_def)
  show "lan_inv y \<Longrightarrow> lan_inv (y\<lparr>svc := notifyLANCheck (svc y), notify_due := False\<rparr>)"
    by (cases "serve_at y") (auto simp: lan_inv_def listener_ok_def check_ok_def conns_ok_def)
  show "lan_inv y \<Longrightarrow> lan_quiet (svc y) s \<Longrightarrow> lan_inv (y\<lparr>svc := s\<rparr>)"
    by (cases "serve_at y")
      (auto simp: lan_inv_def listener_ok_def check_ok_def conns_ok_def lan_quiet_def)
qed

text \<open>A step of an accept loop concerns the current listener only: the others have ended.\<close>

lemma inv_loop:
  assumes inv: "lan_inv y" and i: "i < length (listeners y)"
    and st: "accept_step True laddr (l_open (listeners y ! i)) (l_cancelled (listeners y ! i) \<or> ctx_done y)
      (l_loop (listeners y ! i), svc y) (pc, s)"
  shows "lan_inv (with_loop i pc s y)"
proof -
  have ci: "cur y = Some i"
    using st inv i by (cases "cur y = Some i") (auto simp: lan_inv_def listener_ok_def)
  have open_i: "l_open (listeners y ! i) \<or> l_cancelled (listeners y ! i) \<or> ext_closed y"
    using inv i by (simp add: lan_inv_def listener_ok_def)
  have ended: "r = None \<longleftrightarrow> l_cancelled (listeners y ! i) \<or> ctx_done y" "r \<noteq> None \<Longrightarrow> \<not> l_open (listeners y ! i)"
    if "pc = Ended r" for r
    using accept_step_result [OF st [unfolded that]] by (auto split: if_splits)
  have s: "accept_grows True (svc y) s" by (rule accept_step_grows [OF st])
  then obtain ct where ct: "s = (svc y)\<lparr>conns := ct\<rparr>" by (auto simp: accept_grows_def)
  have wf: "gm_wf (conns s)"
    using st inv by (auto simp: lan_inv_def conns_ok_def conns_add_def elim!: accept_stepE)
  have pc: "pc_ok (serve_at y) (with_loop i pc s y)"
    using inv i by (cases "serve_at y") (auto simp: lan_inv_def with_loop_def nth_list_update)
  have "\<forall>j < length (listeners y). listener_ok (with_loop i pc s y) j (listeners (with_loop i pc s y) ! j)"
    using inv ci open_i ended
    by (auto simp: lan_inv_def listener_ok_def with_loop_def nth_list_update)
  moreover have "check_ok (with_loop i pc s y)"
    using inv by (simp add: lan_inv_def check_ok_def with_loop_def ct lan_snapshot_def GetState_def)
  moreover have "conns_ok (with_loop i pc s y)"
    using inv s wf ci by (auto simp: lan_inv_def conns_ok_def with_loop_def accept_grows_def)
  ultimately show ?thesis
    using inv pc by (simp add: lan_inv_def) (simp add: with_loop_def)
qed

lemma lan_step_inv: "lan_step laddr y y' \<Longrightarrow> lan_inv y \<Longrightarrow> lan_inv y'"
  by (induction rule: lan_step.induct)
    (auto intro: inv_head inv_close inv_switch inv_done inv_check inv_retry inv_ended inv_final
      inv_loop inv_env)

lemma lan_reach_inv:
  "lan_reach laddr s0 y \<Longrightarrow> gm_wf (conns s0) \<Longrightarrow> (\<And>c. gm_get (conns s0) c \<noteq> Some True) \<Longrightarrow> lan_inv y"
  by (induction rule: lan_reach.induct) (auto intro: lan_inv_start lan_step_inv)

lemma lan_reach_New: "lan_reach laddr (New o1) y \<Longrightarrow> lan_inv y"
  by (erule lan_reach_inv) (simp_all add: New_def newConnTracker_def)

section \<open>Shutting down\<close>

text \<open>
  Steps of \<open>serveLAN\<close> and its accept loops that add no connection: the ones a shutdown needs.
  Nothing outside takes part in them: no listener is closed by something else, \<open>Accept\<close> on an
  open listener does not fail, the context, the status and the registry stay as they are, and no
  check is sent.
\<close>

definition own_svc :: "service \<Rightarrow> service \<Rightarrow> bool" where
  "own_svc s s' \<longleftrightarrow> clients s' = clients s \<and> opts s' = opts s \<and> ciscoReady s' = ciscoReady s
     \<and> (lanCheck s' \<longrightarrow> lanCheck s)
     \<and> status s' = (status s)\<lparr>ProxyStarted := ProxyStarted (status s')\<rparr>"

lemma own_svc_refl [simp]: "own_svc s s"
  by (simp add: own_svc_def)

definition loops_undisturbed :: "lan_sys \<Rightarrow> lan_sys \<Rightarrow> bool" where
  "loops_undisturbed y y' \<longleftrightarrow> (\<forall>i < length (listeners y). accept_undisturbed
     (l_open (listeners y ! i)) (l_loop (listeners y ! i)) (l_loop (listeners y' ! i)))"

lemma loops_undisturbed_same: "listeners y' = listeners y \<Longrightarrow> loops_undisturbed y y'"
  by (simp add: loops_undisturbed_def)

lemma nth_update_in: "j < length xs \<Longrightarrow> xs[i := x] ! j = (if i = j then x else xs ! j)"
  by simp

lemma loops_undisturbed_ops:
  "loops_undisturbed y (serve_head y)" "loops_undisturbed y (serve_switch ok want y)"
  "loops_undisturbed y (select_done y)" "loops_undisturbed y (serve_closed want y)"
  "loops_undisturbed y (select_check y)"
  by (auto simp: loops_undisturbed_def lan_op_defs nth_append nth_update_in split: option.split)

definition calm_step :: "string \<Rightarrow> lan_sys \<Rightarrow> lan_sys \<Rightarrow> bool" where
  "calm_step laddr y y' \<longleftrightarrow> lan_step laddr y y' \<and> ctx_done y' = ctx_done y
     \<and> ext_closed y' = ext_closed y \<and> notify_due y' = notify_due y
     \<and> own_svc (svc y) (svc y') \<and> status (svc y') = status (svc y)
     \<and> (\<forall>c b. gm_get (conns (svc y')) c = Some b \<longrightarrow> gm_get (conns (svc y)) c = Some b)
     \<and> loops_undisturbed y y'"

abbreviation calm_run :: "string \<Rightarrow> lan_sys \<Rightarrow> lan_sys \<Rightarrow> bool" where
  "calm_run laddr \<equiv> (calm_step laddr)\<^sup>*\<^sup>*"

lemma calm_run_inv: "calm_run laddr y y' \<Longrightarrow> lan_inv y \<Longrightarrow> lan_inv y' \<and> ctx_done y' = ctx_done y"
  by (induction rule: rtranclp_induct) (auto simp: calm_step_def intro: lan_step_inv)

lemma calm_step_same_svc:
  "lan_step laddr y y' \<Longrightarrow> ctx_done y' = ctx_done y \<Longrightarrow> ext_closed y' = ext_closed y \<Longrightarrow>
   notify_due y' = notify_due y \<Longrightarrow> svc y' = svc y \<Longrightarrow> loops_undisturbed y y' \<Longrightarrow> calm_step laddr y y'"
  by (simp add: calm_step_def)

text \<open>A closed listener's loop ends, and the waiting \<open>serveLAN\<close> is as it was.\<close>

lemma calm_loop_ends:
  assumes "i < length (listeners y)" "l_cancelled (listeners y ! i)" "\<not> l_open (listeners y ! i)"
  shows "\<exists>y1 r. calm_run laddr y y1 \<and> cur y1 = cur y \<and> serve_at y1 = serve_at y
     \<and> l_loop (listeners y1 ! i) = Ended r"
proof (cases "\<exists>r. l_loop (listeners y ! i) = Ended r")
  case True
  then show ?thesis by blast
next
  case False
  have "lan_step laddr y (with_loop i (Ended None) (svc y) y)"
    by (rule lan_step.loop [OF assms(1)], rule accept_step_can_end) (use assms False in auto)
  then have "calm_step laddr y (with_loop i (Ended None) (svc y) y)"
    by (rule calm_step_same_svc)
      (use assms(3) in \<open>auto simp: with_loop_def loops_undisturbed_def nth_update_in\<close>)
  then have "calm_run laddr y (with_loop i (Ended None) (svc y) y)" by (rule r_into_rtranclp)
  with assms(1) show ?thesis
    by (intro exI [of _ "with_loop i (Ended None) (svc y) y"]) (auto simp: with_loop_def)
qed

lemma calm_close:
  assumes "lan_inv y" "serve_at y = Closing want"
  shows "\<exists>y'. calm_run laddr y y' \<and> serve_at y' = Switch want"
proof -
  from assms obtain i where i: "cur y = Some i" "i < length (listeners y)"
    "l_cancelled (listeners y ! i)" "\<not> l_open (listeners y ! i)" by (auto simp: lan_inv_def)
  from calm_loop_ends [OF i(2-4), of laddr] obtain y1 r where
    y1: "calm_run laddr y y1" "cur y1 = Some i" "serve_at y1 = Closing want" "l_loop (listeners y1 ! i) = Ended r"
    using i(1) assms(2) by auto
  have wf: "gm_wf (conns (svc y1))"
    using calm_run_inv [OF y1(1) assms(1)] by (simp add: lan_inv_def conns_ok_def)
  have "lan_step laddr y1 (serve_closed want y1)" by (rule lan_step.at_close [OF y1(3,2,4)])
  then have "calm_step laddr y1 (serve_closed want y1)"
    using get_closeLAN [OF wf] loops_undisturbed_ops(4) [of y1 want]
    by (simp add: calm_step_def) (simp add: serve_closed_def own_svc_def)
  with y1(1) have "calm_run laddr y (serve_closed want y1)" by (rule rtranclp.rtrancl_into_rtrancl)
  then show ?thesis by (intro exI [of _ "serve_closed want y1"]) (simp add: serve_closed_def)
qed

lemma calm_final:
  assumes "lan_inv y" "serve_at y = FinalClose"
  shows "\<exists>y'. calm_run laddr y y' \<and> serve_at y' = Finished None"
proof -
  from assms obtain i where i: "cur y = Some i" "i < length (listeners y)"
    "l_cancelled (listeners y ! i)" "\<not> l_open (listeners y ! i)" by (auto simp: lan_inv_def)
  from calm_loop_ends [OF i(2-4), of laddr] obtain y1 r where
    y1: "calm_run laddr y y1" "cur y1 = Some i" "serve_at y1 = FinalClose" "l_loop (listeners y1 ! i) = Ended r"
    using i(1) assms(2) by auto
  have "lan_step laddr y1 (y1\<lparr>cur := None, serve_at := Finished None\<rparr>)"
    by (rule lan_step.at_final [OF y1(3,2,4)])
  then have "calm_step laddr y1 (y1\<lparr>cur := None, serve_at := Finished None\<rparr>)"
    by (rule calm_step_same_svc) (simp_all add: loops_undisturbed_same)
  with y1(1) have "calm_run laddr y (y1\<lparr>cur := None, serve_at := Finished None\<rparr>)"
    by (rule rtranclp.rtrancl_into_rtrancl)
  then show ?thesis by (intro exI [of _ "y1\<lparr>cur := None, serve_at := Finished None\<rparr>"]) simp
qed

lemma calm_select:
  assumes "lan_inv y" "serve_at y = Select want" "ctx_done y"
  shows "\<exists>y'. calm_run laddr y y' \<and> serve_at y' = Finished None"
proof -
  have st: "lan_step laddr y (select_done y)" by (rule lan_step.sel_ctx [OF assms(2,3)])
  then have c: "calm_step laddr y (select_done y)"
    by (rule calm_step_same_svc [OF _ _ _ _ _ loops_undisturbed_ops(3)])
      (auto simp: select_done_def close_listener_def split: option.splits)
  have inv: "lan_inv (select_done y)" by (rule lan_step_inv [OF st assms(1)])
  consider "serve_at (select_done y) = Finished None" | "serve_at (select_done y) = FinalClose"
    by (cases "cur y") (auto simp: select_done_def)
  then show ?thesis
  proof cases
    case 1
    with c show ?thesis by (blast intro: r_into_rtranclp)
  next
    case 2
    from calm_final [OF inv 2, of laddr] c show ?thesis by (blast intro: converse_rtranclp_into_rtranclp)
  qed
qed

lemma calm_switch:
  assumes "lan_inv y" "serve_at y = Switch want" "ctx_done y"
  shows "\<exists>y' r. calm_run laddr y y' \<and> serve_at y' = Finished r"
proof -
  let ?y1 = "serve_switch True want y"
  have st: "lan_step laddr y ?y1" by (rule lan_step.at_switch [OF assms(2)])
  then have c: "calm_step laddr y ?y1"
    by (rule calm_step_same_svc [OF _ _ _ _ _ loops_undisturbed_ops(2)]) (simp_all add: serve_switch_def openLAN_def)
  have "serve_at ?y1 = Select want" "ctx_done ?y1"
    using assms(3) by (simp_all add: serve_switch_def openLAN_def)
  from calm_select [OF lan_step_inv [OF st assms(1)] this, of laddr] c
  show ?thesis by (blast intro: converse_rtranclp_into_rtranclp)
qed

lemma calm_closing:
  assumes "lan_inv y" "serve_at y = Closing want" "ctx_done y"
  shows "\<exists>y' r. calm_run laddr y y' \<and> serve_at y' = Finished r"
proof -
  from calm_close [OF assms(1,2), of laddr] obtain y1 where
    y1: "calm_run laddr y y1" "serve_at y1 = Switch want" by blast
  with calm_run_inv [OF y1(1) assms(1)] assms(3) calm_switch [of y1 want laddr]
  show ?thesis by (blast intro: rtranclp_trans)
qed

lemma calm_stops:
  assumes "lan_inv y" "ctx_done y"
  shows "\<exists>y' r. calm_run laddr y y' \<and> serve_at y' = Finished r"
proof (cases "serve_at y")
  case Head
  have st: "lan_step laddr y (serve_head y)" by (rule lan_step.at_head [OF Head])
  then have c: "calm_step laddr y (serve_head y)"
    by (rule calm_step_same_svc [OF _ _ _ _ _ loops_undisturbed_ops(1)])
      (auto simp: serve_head_def close_listener_def Let_def split: option.splits)
  have inv: "lan_inv (serve_head y)" "ctx_done (serve_head y)"
    using lan_step_inv [OF st assms(1)] assms(2) c by (simp_all add: calm_step_def)
  have "serve_at (serve_head y) = Closing (lan_snapshot (svc y))
      \<or> serve_at (serve_head y) = Switch (lan_snapshot (svc y))"
    by (auto simp: serve_head_def Let_def split: option.splits if_splits)
  then have "\<exists>y' r. calm_run laddr (serve_head y) y' \<and> serve_at y' = Finished r"
    using calm_switch [OF inv(1) _ inv(2)] calm_closing [OF inv(1) _ inv(2)] by blast
  with c show ?thesis by (blast intro: converse_rtranclp_into_rtranclp)
next
  case (Closing want)
  with assms show ?thesis by (intro calm_closing)
next
  case (Switch want)
  with assms show ?thesis by (intro calm_switch)
next
  case (Select want)
  with assms show ?thesis using calm_select by blast
next
  case FinalClose
  with assms show ?thesis using calm_final by blast
qed (blast intro: rtranclp.rtrancl_refl)

section \<open>Properties\<close>

text \<open>
  C13: at most one listener serves the LAN. In every reachable state the accept loop of every
  listener but the current one has ended and, while \<open>serveLAN\<close> runs, its socket is closed. Once
  \<open>serveLAN\<close> has returned there is no current listener: every loop has ended, and under a live
  context every socket is closed, too.
\<close>

theorem one_lan_listener:
  assumes "lan_reach laddr (New o1) y" and "i < length (listeners y)"
  shows "if cur y = Some i then \<forall>r. serve_at y \<noteq> Finished r
     else (\<exists>r. l_loop (listeners y ! i) = Ended r)
       \<and> (if ctx_done y \<and> (\<exists>r. serve_at y = Finished r) then True else \<not> l_open (listeners y ! i))"
  using lan_reach_New [OF assms(1)] assms(2) by (auto simp: lan_inv_def listener_ok_def)

text \<open>
  C11: no lost update. Whenever \<open>serveLAN\<close> waits in its select with no check pending and none about
  to be sent, the LAN it wants is the LAN of the status, an existing listener is bound to
  exactly that LAN, and a missing one on a known LAN has its retry timer set.
\<close>

theorem no_lost_lan_update:
  assumes "lan_reach laddr (New o1) y" and "serve_at y = Select want"
    and "\<not> lanCheck (svc y)" and "\<not> notify_due y"
  shows "want = lan_snapshot (svc y)
     \<and> (case cur y of Some i \<Rightarrow> bound (listeners y ! i) = lan_snapshot (svc y)
        | None \<Rightarrow> retry_armed want y \<or> LANInterface (status (svc y)) = [])"
  using lan_reach_New [OF assms(1)] assms(2-4)
  by (auto simp: lan_inv_def check_ok_def retry_armed_def lan_snapshot_zero_iff split: option.splits)

text \<open>
  \<open>serveLAN\<close> returns an error only if something other than it closed a listener, and returns
  without one only at shutdown: a change of the LAN, a failed bind or accept errors never end it.
\<close>

theorem serveLAN_result:
  assumes "lan_reach laddr (New o1) y" and "serve_at y = Finished r"
  shows "cur y = None \<and> (if r = None then ctx_done y else ext_closed y)"
  using lan_reach_New [OF assms(1)] assms(2) by (simp add: lan_inv_def)

text \<open>
  C14: a connection from the LAN that is still tracked was accepted by the current listener while
  \<open>serveLAN\<close> runs; so the connections of an old network are gone before the new listener opens.
\<close>

theorem lan_conns_current:
  assumes "lan_reach laddr (New o1) y" and "gm_get (conns (svc y)) c = Some True"
  shows "\<exists>i. owners y c = Some i \<and> (if \<exists>r. serve_at y = Finished r then True else cur y = Some i)"
  using lan_reach_New [OF assms(1)] assms(2) by (auto simp: lan_inv_def conns_ok_def)

text \<open>
  C12: closing a listener cannot hang, and a shutdown completes. Where \<open>serveLAN\<close> waits for the
  accept loop of a listener it closed, its own steps and the loop's can take it past the wait; and
  from any state under a done context they can take it to its return. Nothing outside takes part:
  no client, no other closing of a listener, and no failure of \<open>Accept\<close> on an open listener, so a
  loop that waits in \<open>Accept\<close> is woken by the closing of its own listener or not at all.
\<close>

theorem serveLAN_progress:
  assumes "lan_reach laddr (New o1) y"
  shows "(case serve_at y of
       Closing want \<Rightarrow> \<exists>y'. calm_run laddr y y' \<and> serve_at y' = Switch want
     | _ \<Rightarrow> True)
   \<and> (if ctx_done y then \<exists>y' r. calm_run laddr y y' \<and> serve_at y' = Finished r else True)"
  using calm_close [OF lan_reach_New [OF assms(1)], of _ laddr]
    calm_stops [OF lan_reach_New [OF assms(1)], of laddr] by (auto split: serve_pc.split)

subsection \<open>A run\<close>

text \<open>
  The sample service starts on no LAN; the supervisor finds one, the listener is opened, its
  accept loop backs off from an error, and the shutdown comes.
\<close>

definition run_found :: lan_sys where
  "run_found = (serveLAN_start (New sample_opts))
     \<lparr>svc := (svc (serveLAN_start (New sample_opts)))
        \<lparr>clients := clients (New sample_opts), status := sample_lan_state\<rparr>, notify_due := True\<rparr>"

definition run_waiting :: lan_sys where
  "run_waiting = serve_switch True (lan_snapshot (svc run_found)) (serve_head run_found)"

lemma run_found_reach: "lan_reach laddr (New sample_opts) run_found"
  unfolding run_found_def by (rule lan_reach.step [OF lan_reach.start]) (rule lan_step.env_lan)

lemma run_found_simps:
  "serve_at run_found = Head" "cur run_found = None" "listeners run_found = []" "notify_due run_found"
  "lan_snapshot (svc run_found) = \<lparr>snap_subnet = Prefix (V4 0xC0A80000) (Some 24), snap_iface = ''en0''\<rparr>"
  by (simp_all add: run_found_def serveLAN_start_def lan_snapshot_def GetState_def sample_lan_state_def)

lemma run_waiting_eq:
  "run_waiting = run_found\<lparr>serve_at := Select (lan_snapshot (svc run_found)), cur := Some 0,
     listeners := [\<lparr>bound = lan_snapshot (svc run_found), l_open = True, l_cancelled = False,
       l_loop = Accepting\<rparr>]\<rparr>"
  by (simp add: run_waiting_def serve_switch_def serve_head_def openLAN_def run_found_simps Let_def)

lemma run_waiting_reach: "lan_reach laddr (New sample_opts) run_waiting"
proof -
  have "lan_reach laddr (New sample_opts) (serve_head run_found)"
    by (rule lan_reach.step [OF run_found_reach], rule lan_step.at_head) (rule run_found_simps)
  then show ?thesis
    unfolding run_waiting_def
    by (rule lan_reach.step, intro lan_step.at_switch) (simp add: serve_head_def run_found_simps Let_def)
qed

theorem one_lan_listener_witness:
  "l_open (listeners run_waiting ! 0) \<and> (\<forall>r. serve_at run_waiting \<noteq> Finished r)"
proof -
  have "0 < length (listeners run_waiting)" "l_open (listeners run_waiting ! 0)" "cur run_waiting = Some 0"
    by (simp_all add: run_waiting_eq)
  from one_lan_listener [OF run_waiting_reach this(1)] this(2,3) show ?thesis by simp
qed

theorem no_lost_lan_update_witness:
  "bound (listeners (run_waiting\<lparr>svc := notifyLANCheck (svc run_waiting), notify_due := False\<rparr>) ! 0)
     = lan_snapshot (svc run_waiting)"
proof -
  let ?y1 = "run_waiting\<lparr>svc := notifyLANCheck (svc run_waiting), notify_due := False\<rparr>"
  let ?y2 = "serve_switch True (lan_snapshot (svc run_waiting)) (serve_head (select_check ?y1))"
  have r1: "lan_reach laddr (New sample_opts) ?y1" for laddr
    by (rule lan_reach.step [OF run_waiting_reach], rule lan_step.env_notify)
      (simp add: run_waiting_eq run_found_simps)
  have r2: "lan_reach laddr (New sample_opts) (select_check ?y1)" for laddr
    by (rule lan_reach.step [OF r1], rule lan_step.sel_check) (simp_all add: run_waiting_eq)
  have r3: "lan_reach laddr (New sample_opts) (serve_head (select_check ?y1))" for laddr
    by (rule lan_reach.step [OF r2], rule lan_step.at_head) (simp add: select_check_def)
  have sn: "lan_snapshot (svc (select_check ?y1)) = lan_snapshot (svc run_waiting)"
    by (simp add: select_check_def lan_snapshot_def GetState_def)
  have h: "serve_head (select_check ?y1) = (select_check ?y1)\<lparr>serve_at := Switch (lan_snapshot (svc run_waiting))\<rparr>"
    unfolding serve_head_def sn Let_def by (simp add: select_check_def run_waiting_eq)
  have r4: "lan_reach laddr (New sample_opts) ?y2" for laddr
    by (rule lan_reach.step [OF r3], rule lan_step.at_switch) (simp add: h)
  have y2: "serve_at ?y2 = Select (lan_snapshot (svc run_waiting))" "\<not> lanCheck (svc ?y2)" "\<not> notify_due ?y2"
    "cur ?y2 = Some 0" "listeners ?y2 = listeners run_waiting"
    unfolding h serve_switch_def by (simp_all add: select_check_def run_waiting_eq)
  from no_lost_lan_update [OF r4 y2(1-3)] y2(4,5) show ?thesis by simp
qed

text \<open>A client connects; then the network changes and the check is taken.\<close>

definition sample_conn :: conn where
  "sample_conn = \<lparr>conn_id = 1, RemoteAddr = TCPAddr (V4 0xC0A8002A) 50000\<rparr>"

definition run_conn :: lan_sys where
  "run_conn = with_loop 0 Accepting
     ((svc run_waiting)\<lparr>conns := conns_add sample_conn True (conns (svc run_waiting))\<rparr>) run_waiting"

lemma run_waiting_conns: "conns (svc run_waiting) = []"
  by (simp add: run_waiting_eq run_found_def serveLAN_start_def New_def newConnTracker_def)

lemma run_conn_reach: "lan_reach laddr (New sample_opts) run_conn"
proof -
  have "accept_step True laddr True False (Accepting, svc run_waiting)
      (Accepting, (svc run_waiting)\<lparr>conns := conns_add sample_conn True (conns (svc run_waiting))\<rparr>)"
    by (rule accept_step.accept_conn) (simp_all add: run_waiting_conns)
  then show ?thesis
    unfolding run_conn_def
    by (intro lan_reach.step [OF run_waiting_reach] lan_step.loop)
      (simp_all add: run_waiting_eq run_found_def serveLAN_start_def)
qed

theorem lan_conns_current_witness:
  "owners run_conn sample_conn = Some 0 \<and> cur run_conn = Some 0"
proof -
  have "gm_get (conns (svc run_conn)) sample_conn = Some True"
    by (simp add: run_conn_def with_loop_def conns_add_def)
  from lan_conns_current [OF run_conn_reach this] show ?thesis
    by (auto simp: run_conn_def with_loop_def run_waiting_eq)
qed

definition run_moved :: lan_sys where
  "run_moved = (let y = run_waiting\<lparr>svc := (svc run_waiting)\<lparr>clients := [], status := zero_State\<rparr>,
       notify_due := True\<rparr>
     in y\<lparr>svc := notifyLANCheck (svc y), notify_due := False\<rparr>)"

lemma run_moved_reach: "lan_reach laddr (New sample_opts) (serve_head (select_check run_moved))"
proof -
  have "lan_reach laddr (New sample_opts) run_moved"
    unfolding run_moved_def Let_def
    by (rule lan_reach.step [OF lan_reach.step [OF run_waiting_reach lan_step.env_lan]],
        rule lan_step.env_notify) simp
  then have "lan_reach laddr (New sample_opts) (select_check run_moved)"
    by (rule lan_reach.step, intro lan_step.sel_check)
      (simp_all add: run_moved_def Let_def run_waiting_eq)
  then show ?thesis
    by (rule lan_reach.step, intro lan_step.at_head) (simp add: select_check_def)
qed

theorem serveLAN_progress_witness:
  "\<exists>y'. calm_run ''0.0.0.0:8080'' (serve_head (select_check run_moved)) y' \<and> serve_at y' = Switch zero_snapshot"
proof -
  have "lan_snapshot (svc (select_check run_moved)) = zero_snapshot"
    by (simp add: select_check_def run_moved_def Let_def lan_snapshot_def GetState_def zero_State_def
        zero_snapshot_def)
  moreover have "bound (listeners (select_check run_moved) ! 0) \<noteq> zero_snapshot"
    "cur (select_check run_moved) = Some 0"
    by (simp_all add: select_check_def run_moved_def run_waiting_eq run_found_simps zero_snapshot_def Let_def)
  ultimately have c: "serve_at (serve_head (select_check run_moved)) = Closing zero_snapshot"
    by (simp add: serve_head_def)
  from serveLAN_progress [OF run_moved_reach, of "''0.0.0.0:8080''"] c show ?thesis by auto
qed

text \<open>The shutdown during a backoff: the accept loop returns on its own.\<close>

definition run_backoff :: lan_sys where
  "run_backoff = (with_loop 0 BackingOff (svc run_waiting) run_waiting)\<lparr>ctx_done := True\<rparr>"

definition run_ended :: lan_sys where
  "run_ended = with_loop 0 (Ended None) (svc run_backoff) run_backoff"

lemma run_ended_reach: "lan_reach laddr (New sample_opts) run_ended"
proof -
  have "after_error False laddr (Msg ''too many open files'') = BackingOff"
    by (simp add: after_error_def ErrClosed_def)
  then have "accept_step True laddr True False (Accepting, svc run_waiting) (BackingOff, svc run_waiting)"
    using accept_step.accept_error [of "Msg ''too many open files''" True True laddr False]
    by (simp add: ErrClosed_def)
  then have "lan_reach laddr (New sample_opts) (with_loop 0 BackingOff (svc run_waiting) run_waiting)"
    by (intro lan_reach.step [OF run_waiting_reach] lan_step.loop)
      (simp_all add: run_waiting_eq run_found_def serveLAN_start_def)
  then have b: "lan_reach laddr (New sample_opts) run_backoff"
    unfolding run_backoff_def by (rule lan_reach.step) (rule lan_step.env_cancel)
  then show ?thesis
    unfolding run_ended_def
    by (rule lan_reach.step, intro lan_step.loop)
      (simp_all add: run_backoff_def with_loop_def run_waiting_eq accept_step.backoff_done)
qed

lemma run_ended_simps:
  "serve_at run_ended = Select (lan_snapshot (svc run_found))" "cur run_ended = Some 0"
  "l_loop (listeners run_ended ! 0) = Ended None" "ctx_done run_ended"
  by (simp_all add: run_ended_def run_backoff_def with_loop_def run_waiting_eq)

theorem serveLAN_result_witness:
  "serve_at (select_ended 0 None run_ended) = Finished None \<and> ctx_done (select_ended 0 None run_ended)"
proof -
  have r: "lan_reach laddr (New sample_opts) (select_ended 0 None run_ended)" for laddr
    by (rule lan_reach.step [OF run_ended_reach], rule lan_step.sel_ended [OF run_ended_simps(1-3)])
  have f: "serve_at (select_ended 0 None run_ended) = Finished None" by (simp add: select_ended_def)
  from serveLAN_result [OF r f] f show ?thesis by simp
qed

text \<open>
  A listener can outlive the proxy. There is a run, a shutdown while the accept loop is in
  its backoff, in which the select takes the loop's result: \<open>serveLAN\<close> then returns without an
  error and leaves the listener open, since that arm closes nothing.
\<close>

theorem listener_leak:
  "\<exists>y. lan_reach laddr (New sample_opts) y \<and> serve_at y = Finished None \<and> l_open (listeners y ! 0)"
proof (intro exI conjI)
  show "lan_reach laddr (New sample_opts) (select_ended 0 None run_ended)"
    by (rule lan_reach.step [OF run_ended_reach], rule lan_step.sel_ended [OF run_ended_simps(1-3)])
qed (simp_all add: select_ended_def run_ended_def run_backoff_def with_loop_def run_waiting_eq)

end
