(* ===== verification/Proxy.thy ===== *)
theory Proxy
  imports Lan_Listener
begin

text \<open>
  \<open>startProxy\<close> of \<open>proxy.go\<close>: it waits for the VPN, listens on loopback and runs three
  goroutines in an error group, the loopback accept loop, \<open>serveLAN\<close> and the watch for a lost
  VPN. The machine here runs the machine of \<open>Lan_Listener\<close> inside; the context of that machine
  is the context of the group.
\<close>

section \<open>The watch for a lost VPN\<close>

definition vpnWatchInterval :: duration where "vpnWatchInterval = 2 * second"

text \<open>One tick of \<open>dropConnsOnVPNLoss\<close>: the new memory, the closed connections, the service.\<close>

definition vpn_tick :: "bool \<Rightarrow> service \<Rightarrow> bool \<times> conn list \<times> service" where
  "vpn_tick wasConnected s =
     (let connected = CiscoConnected (GetState s) in
      if wasConnected \<and> \<not> connected
      then (case closeAll (conns s) of (n, closed, ct) \<Rightarrow> (connected, closed, s\<lparr>conns := ct\<rparr>))
      else (connected, [], s))"

section \<open>State\<close>

definition loopback_addr :: string where "loopback_addr = ''127.0.0.1:8080''"
definition lan_addr :: string where "lan_addr = ''0.0.0.0:8080''"

text \<open>The watch: not yet run, between two ticks with the last value it saw, returned.\<close>

datatype watch_pc = WatchStart | Watching bool | WatchReturned

datatype proxy_pc = Waiting | Serving | ProxyReturned "go_error option"

text \<open>
  \<open>watch\<close> is where the watch stands; \<open>group_err\<close> the first error
  of the group. \<open>loop_ext\<close> observes whether something else closed the loopback listener.
\<close>

record proxy_sys =
  lan :: lan_sys
  main :: proxy_pc
  parent_done :: bool
  loop_open :: bool
  loop_pc :: accept_pc
  watch :: watch_pc
  group_err :: "go_error option"
  loop_ext :: bool

definition startProxy :: "service \<Rightarrow> proxy_sys" where
  "startProxy s = \<lparr>lan = serveLAN_start s, main = Waiting, parent_done = False, loop_open = False,
     loop_pc = Accepting, watch = WatchStart, group_err = None, loop_ext = False\<rparr>"

abbreviation psvc :: "proxy_sys \<Rightarrow> service" where "psvc p \<equiv> svc (lan p)"

definition with_svc :: "service \<Rightarrow> proxy_sys \<Rightarrow> proxy_sys" where
  "with_svc s p = p\<lparr>lan := (lan p)\<lparr>svc := s\<rparr>\<rparr>"

definition proxy_started :: "bool \<Rightarrow> service \<Rightarrow> service" where
  "proxy_started b s = setStatus (\<lambda>st. st\<lparr>ProxyStarted := b\<rparr>) s"

text \<open>A goroutine of the group has returned an error: the first one is kept and cancels.\<close>

definition group_return :: "go_error option \<Rightarrow> proxy_sys \<Rightarrow> proxy_sys" where
  "group_return r p =
     (case r of
        None \<Rightarrow> p
      | Some e \<Rightarrow>
          p\<lparr>group_err := (if group_err p = None then Some e else group_err p),
            lan := (lan p)\<lparr>ctx_done := True\<rparr>\<rparr>)"

definition start_serving :: "proxy_sys \<Rightarrow> proxy_sys" where
  "start_serving p =
     (let s = proxy_started True (psvc p) in
      p\<lparr>lan := (serveLAN_start s)\<lparr>ctx_done := parent_done p\<rparr>, main := Serving, loop_open := True,
        loop_pc := Accepting, watch := WatchStart, group_err := None\<rparr>)"

text \<open>The return after \<open>Wait\<close>, with the deferred calls.\<close>

definition proxy_return :: "proxy_sys \<Rightarrow> proxy_sys" where
  "proxy_return p =
     (with_svc (proxy_started False ((psvc p)\<lparr>conns := snd (snd (closeAll (conns (psvc p))))\<rparr>)) p)
       \<lparr>main := ProxyReturned (map_option (\<lambda>e. Wrap ''proxy: '' e []) (group_err p))\<rparr>"

definition finished :: "proxy_sys \<Rightarrow> bool" where
  "finished p = ((\<exists>r. loop_pc p = Ended r) \<and> (\<exists>r. serve_at (lan p) = Finished r) \<and> watch p = WatchReturned)"

text \<open>
  What the rest of the program does not do in a step: unclose \<open>ciscoReady\<close>, write the mark of the
  proxy, or add a connection of the loopback listener.
\<close>

definition proxy_frame :: "service \<Rightarrow> service \<Rightarrow> bool" where
  "proxy_frame s s' \<longleftrightarrow> ProxyStarted (status s') = ProxyStarted (status s)
     \<and> (ciscoReady s \<longrightarrow> ciscoReady s')
     \<and> (\<forall>c. gm_get (conns s') c = Some False \<longrightarrow> gm_get (conns s) c = Some False)"

section \<open>Transitions\<close>

inductive proxy_step :: "proxy_sys \<Rightarrow> proxy_sys \<Rightarrow> bool" where
  wait_cancelled: "main p = Waiting \<Longrightarrow> parent_done p \<Longrightarrow>
    proxy_step p ((with_svc (proxy_started False (psvc p)) p)\<lparr>main := ProxyReturned None\<rparr>)"
| listen_failed: "main p = Waiting \<Longrightarrow> ciscoReady (psvc p) \<Longrightarrow>
    proxy_step p ((with_svc (proxy_started False (psvc p)) p)
      \<lparr>main := ProxyReturned (Some (Wrap ''failed to listen on loopback: '' err []))\<rparr>)"
| listening: "main p = Waiting \<Longrightarrow> ciscoReady (psvc p) \<Longrightarrow> proxy_step p (start_serving p)"
| loopback: "main p = Serving \<Longrightarrow>
    accept_step False loopback_addr (loop_open p) (ctx_done (lan p)) (loop_pc p, psvc p) (pc, s) \<Longrightarrow>
    proxy_step p (group_return (case pc of Ended r \<Rightarrow> r | _ \<Rightarrow> None) ((with_svc s p)\<lparr>loop_pc := pc\<rparr>))"
| lan_step: "main p = Serving \<Longrightarrow> lan_step lan_addr (lan p) y \<Longrightarrow> ctx_done y = ctx_done (lan p) \<Longrightarrow>
    proxy_frame (psvc p) (svc y) \<Longrightarrow>
    proxy_step p (group_return (case serve_at y of Finished r \<Rightarrow> r | _ \<Rightarrow> None) (p\<lparr>lan := y\<rparr>))"
| watch_begin: "main p = Serving \<Longrightarrow> watch p = WatchStart \<Longrightarrow>
    proxy_step p (p\<lparr>watch := Watching (CiscoConnected (GetState (psvc p)))\<rparr>)"
| watch_tick: "main p = Serving \<Longrightarrow> watch p = Watching was \<Longrightarrow> vpn_tick was (psvc p) = (now, closed, s) \<Longrightarrow>
    proxy_step p ((with_svc s p)\<lparr>watch := Watching now\<rparr>)"
| watch_done: "main p = Serving \<Longrightarrow> watch p = Watching was \<Longrightarrow> ctx_done (lan p) \<Longrightarrow>
    proxy_step p (p\<lparr>watch := WatchReturned\<rparr>)"
| close_loopback: "main p = Serving \<Longrightarrow> ctx_done (lan p) \<Longrightarrow> proxy_step p (p\<lparr>loop_open := False\<rparr>)"
| wait_returns: "main p = Serving \<Longrightarrow> finished p \<Longrightarrow> proxy_step p (proxy_return p)"
| cancel: "proxy_step p (p\<lparr>parent_done := True, lan := (lan p)\<lparr>ctx_done := True\<rparr>\<rparr>)"
| loopback_lost: "main p = Serving \<Longrightarrow> proxy_step p (p\<lparr>loop_open := False, loop_ext := True\<rparr>)"
| others: "main p \<noteq> Serving \<Longrightarrow> proxy_frame (psvc p) s \<Longrightarrow> conns s = conns (psvc p) \<Longrightarrow>
    proxy_step p (with_svc s p)"

inductive_cases proxy_stepE: "proxy_step p p'"

inductive proxy_reach :: "service \<Rightarrow> proxy_sys \<Rightarrow> bool" for s0 where
  start: "proxy_reach s0 (startProxy s0)"
| step: "proxy_reach s0 p \<Longrightarrow> proxy_step p p' \<Longrightarrow> proxy_reach s0 p'"

section \<open>Lemmas\<close>

lemma with_svc_simps [simp]:
  "lan (with_svc s p) = (lan p)\<lparr>svc := s\<rparr>" "main (with_svc s p) = main p"
  "parent_done (with_svc s p) = parent_done p" "loop_open (with_svc s p) = loop_open p"
  "loop_pc (with_svc s p) = loop_pc p" "watch (with_svc s p) = watch p"
  "group_err (with_svc s p) = group_err p" "loop_ext (with_svc s p) = loop_ext p"
  by (simp_all add: with_svc_def)

lemma proxy_started_simps [simp]:
  "conns (proxy_started b s) = conns s" "ciscoReady (proxy_started b s) = ciscoReady s"
  "lanCheck (proxy_started b s) = lanCheck s"
  "ProxyStarted (status (proxy_started b s)) = b"
  "CiscoConnected (status (proxy_started b s)) = CiscoConnected (status s)"
  "lan_snapshot (proxy_started b s) = lan_snapshot s"
  by (simp_all add: proxy_started_def lan_snapshot_def GetState_def)

lemma vpn_tick_cases:
  "vpn_tick was s = (CiscoConnected (status s), if was \<and> \<not> CiscoConnected (status s) then map fst (conns s) else [],
     if was \<and> \<not> CiscoConnected (status s) then s\<lparr>conns := []\<rparr> else s)"
  by (simp add: vpn_tick_def closeAll_def GetState_def Let_def)

lemma quiet_started: "gm_wf (conns s) \<Longrightarrow> lan_quiet s (proxy_started b s)"
  by (simp add: lan_quiet_def)

lemma quiet_closed: "lan_quiet s (s\<lparr>conns := []\<rparr>)"
  by (simp add: lan_quiet_def lan_snapshot_def GetState_def)

lemma quiet_tick: "gm_wf (conns s) \<Longrightarrow> vpn_tick was s = (now, closed, s') \<Longrightarrow> lan_quiet s s'"
  using quiet_closed [of s] by (auto simp: vpn_tick_cases lan_quiet_def split: if_splits)

lemma quiet_accept:
  "gm_wf (conns s) \<Longrightarrow> accept_step False laddr opened is_done (pc, s) (pc', s') \<Longrightarrow> lan_quiet s s'"
  by (drule accept_step_state)
    (auto simp: lan_quiet_def conns_add_def lan_snapshot_def GetState_def split: if_splits)

lemma lan_step_mono:
  "lan_step laddr y y' \<Longrightarrow> (ext_closed y \<longrightarrow> ext_closed y') \<and> (ctx_done y \<longrightarrow> ctx_done y')"
  by (induction rule: lan_step.induct) (auto simp: lan_op_defs split: option.splits)

subsection \<open>Refinement of the LAN machine\<close>

text \<open>
  While the proxy serves, its LAN part is in a state the LAN machine reaches on its own, so that
  the theorems about that machine hold inside the proxy.
\<close>

definition lan_runs :: "lan_sys \<Rightarrow> bool" where
  "lan_runs y \<longleftrightarrow> (\<exists>s1. conns s1 = [] \<and> lan_reach lan_addr s1 y)"

lemma lan_runs_inv: "lan_runs y \<Longrightarrow> lan_inv y"
  by (auto simp: lan_runs_def intro: lan_reach_inv)

lemma lan_runs_step: "lan_runs y \<Longrightarrow> lan_step lan_addr y y' \<Longrightarrow> lan_runs y'"
  by (auto simp: lan_runs_def intro: lan_reach.step)

lemma lan_runs_wf: "lan_runs y \<Longrightarrow> gm_wf (conns (svc y))"
  using lan_runs_inv by (auto simp: lan_inv_def conns_ok_def)

lemma lan_runs_svc: "lan_runs y \<Longrightarrow> lan_quiet (svc y) s \<Longrightarrow> lan_runs (y\<lparr>svc := s\<rparr>)"
  by (erule lan_runs_step) (rule lan_step.env_other)

lemma lan_runs_cancel: "lan_runs y \<Longrightarrow> lan_runs (y\<lparr>ctx_done := True\<rparr>)"
  by (erule lan_runs_step) (rule lan_step.env_cancel)

lemma lan_runs_start: "conns s = [] \<Longrightarrow> lan_runs ((serveLAN_start s)\<lparr>ctx_done := b\<rparr>)"
proof -
  assume "conns s = []"
  then have r: "lan_runs (serveLAN_start s)" by (auto simp: lan_runs_def intro: lan_reach.start)
  show ?thesis
  proof (cases b)
    case True
    with lan_runs_cancel [OF r] show ?thesis by simp
  next
    case False
    moreover have "(serveLAN_start s)\<lparr>ctx_done := False\<rparr> = serveLAN_start s"
      by (simp add: serveLAN_start_def)
    ultimately show ?thesis using r by simp
  qed
qed

lemma lan_runs_group: "lan_runs (lan p) \<Longrightarrow> lan_runs (lan (group_return r p))"
  by (auto simp: group_return_def intro: lan_runs_cancel split: option.splits)

subsection \<open>The invariant\<close>

definition result_ok :: "go_error option \<Rightarrow> proxy_sys \<Rightarrow> bool" where
  "result_ok r p \<longleftrightarrow>
     (case r of
        None \<Rightarrow> parent_done p
      | Some e \<Rightarrow> (\<exists>err. e = Wrap ''failed to listen on loopback: '' err [])
          \<or> (loop_ext p \<or> ext_closed (lan p)) \<and> (\<exists>err. e = Wrap ''proxy: '' err []))"

definition proxy_inv :: "proxy_sys \<Rightarrow> bool" where
  "proxy_inv p \<longleftrightarrow>
     (ProxyStarted (status (psvc p)) \<longleftrightarrow> main p = Serving)
     \<and> (main p \<noteq> Serving \<longrightarrow> conns (psvc p) = [])
     \<and> (\<forall>r. main p = ProxyReturned r \<longrightarrow> result_ok r p)
     \<and> (main p = Serving \<longrightarrow> lan_runs (lan p) \<and> ciscoReady (psvc p)
          \<and> (parent_done p \<longrightarrow> ctx_done (lan p))
          \<and> (ctx_done (lan p) \<longrightarrow> parent_done p \<or> group_err p \<noteq> None)
          \<and> (group_err p \<noteq> None \<longrightarrow> ctx_done (lan p) \<and> (loop_ext p \<or> ext_closed (lan p)))
          \<and> (loop_open p \<or> ctx_done (lan p) \<or> loop_ext p)
          \<and> (\<forall>e. serve_at (lan p) = Finished (Some e) \<longrightarrow> group_err p \<noteq> None))"

lemma proxy_inv_start: "conns s = [] \<Longrightarrow> \<not> ProxyStarted (status s) \<Longrightarrow> proxy_inv (startProxy s)"
  by (simp add: proxy_inv_def startProxy_def serveLAN_start_def)

lemma inv_listening: "proxy_inv p \<Longrightarrow> main p = Waiting \<Longrightarrow> ciscoReady (psvc p) \<Longrightarrow> proxy_inv (start_serving p)"
  by (simp add: proxy_inv_def start_serving_def Let_def lan_runs_start)
    (simp add: serveLAN_start_def)

lemma inv_loopback:
  assumes "proxy_inv p" "main p = Serving"
    and st: "accept_step False loopback_addr (loop_open p) (ctx_done (lan p)) (loop_pc p, psvc p) (pc, s)"
  shows "proxy_inv (group_return (case pc of Ended r \<Rightarrow> r | _ \<Rightarrow> None) ((with_svc s p)\<lparr>loop_pc := pc\<rparr>))"
proof -
  have r: "lan_runs (lan p)" using assms by (simp add: proxy_inv_def)
  have q: "lan_quiet (psvc p) s" by (rule quiet_accept [OF lan_runs_wf [OF r] st])
  have g: "accept_grows False (psvc p) s" by (rule accept_step_grows [OF st])
  then have f: "ProxyStarted (status s) = ProxyStarted (status (psvc p))" "ciscoReady s = ciscoReady (psvc p)"
    by (auto simp: accept_grows_def)
  have e: "if ctx_done (lan p) then r = None else r \<noteq> None \<and> \<not> loop_open p" if "pc = Ended r" for r
    using accept_step_result [OF st [unfolded that]] ..
  show ?thesis
    using assms(1,2) lan_runs_svc [OF r q] f e
    by (cases pc) (auto simp: proxy_inv_def group_return_def intro: lan_runs_cancel split: option.splits if_splits)
qed

lemma inv_lan:
  assumes "proxy_inv p" "main p = Serving" and st: "lan_step lan_addr (lan p) y"
    and same: "ctx_done y = ctx_done (lan p)" "proxy_frame (psvc p) (svc y)"
  shows "proxy_inv (group_return (case serve_at y of Finished r \<Rightarrow> r | _ \<Rightarrow> None) (p\<lparr>lan := y\<rparr>))"
proof -
  have r: "lan_runs y" using lan_runs_step [OF _ st] assms(1,2) by (simp add: proxy_inv_def)
  then have "pc_ok (serve_at y) y" using lan_runs_inv by (simp add: lan_inv_def)
  then have e: "ext_closed y" if "serve_at y = Finished (Some e)" for e
    using that by simp
  show ?thesis
    using assms(1,2) r e same lan_step_mono [OF st]
    by (auto simp: proxy_inv_def group_return_def proxy_frame_def intro: lan_runs_cancel
        split: option.splits serve_pc.splits)
qed

lemma inv_tick:
  assumes "proxy_inv p" "main p = Serving" "vpn_tick was (psvc p) = (now, closed, s)"
  shows "proxy_inv ((with_svc s p)\<lparr>watch := Watching now\<rparr>)"
proof -
  have r: "lan_runs (lan p)" using assms by (simp add: proxy_inv_def)
  show ?thesis
    using assms lan_runs_svc [OF r quiet_tick [OF lan_runs_wf [OF r] assms(3)]]
    by (auto simp: proxy_inv_def vpn_tick_cases split: if_splits)
qed

lemma inv_return:
  assumes "proxy_inv p" "main p = Serving" "finished p"
  shows "proxy_inv (proxy_return p)"
proof -
  from assms have r: "lan_runs (lan p)" by (simp add: proxy_inv_def)
  from assms(3) obtain q where q: "serve_at (lan p) = Finished q" by (auto simp: finished_def)
  have "if q = None then ctx_done (lan p) else ext_closed (lan p)"
    using lan_runs_inv [OF r] q by (simp add: lan_inv_def)
  then have "parent_done p" if "group_err p = None"
    using that assms(1,2) q by (cases q) (auto simp: proxy_inv_def)
  then have "result_ok (map_option (\<lambda>e. Wrap ''proxy: '' e []) (group_err p)) (proxy_return p)"
    using assms(1,2) by (auto simp: proxy_inv_def proxy_return_def result_ok_def split: option.splits)
  then show ?thesis
    by (simp add: proxy_inv_def proxy_return_def closeAll_def)
qed

lemma proxy_inv_misc:
  "proxy_inv p \<Longrightarrow> main p = Waiting \<Longrightarrow> parent_done p \<Longrightarrow>
     proxy_inv ((with_svc (proxy_started False (psvc p)) p)\<lparr>main := ProxyReturned None\<rparr>)"
  "proxy_inv p \<Longrightarrow> main p = Waiting \<Longrightarrow>
     proxy_inv ((with_svc (proxy_started False (psvc p)) p)
       \<lparr>main := ProxyReturned (Some (Wrap ''failed to listen on loopback: '' err []))\<rparr>)"
  "proxy_inv p \<Longrightarrow> proxy_inv (p\<lparr>watch := v\<rparr>)"
  "proxy_inv p \<Longrightarrow> ctx_done (lan p) \<Longrightarrow> proxy_inv (p\<lparr>loop_open := False\<rparr>)"
  "proxy_inv p \<Longrightarrow> proxy_inv (p\<lparr>loop_open := False, loop_ext := True\<rparr>)"
  "proxy_inv p \<Longrightarrow> proxy_inv (p\<lparr>parent_done := True, lan := (lan p)\<lparr>ctx_done := True\<rparr>\<rparr>)"
  "proxy_inv p \<Longrightarrow> main p \<noteq> Serving \<Longrightarrow> proxy_frame (psvc p) s \<Longrightarrow> conns s = conns (psvc p) \<Longrightarrow>
     proxy_inv (with_svc s p)"
  by (auto simp: proxy_inv_def result_ok_def proxy_frame_def intro: lan_runs_cancel split: option.splits)

lemma proxy_step_inv: "proxy_step p p' \<Longrightarrow> proxy_inv p \<Longrightarrow> proxy_inv p'"
  by (induction rule: proxy_step.induct)
    (auto intro: inv_listening inv_loopback inv_lan inv_tick inv_return proxy_inv_misc)

lemma proxy_reach_inv: "proxy_reach (New o1) p \<Longrightarrow> proxy_inv p"
  by (induction rule: proxy_reach.induct)
    (auto intro: proxy_step_inv proxy_inv_start simp: New_def newConnTracker_def zero_State_def)

subsection \<open>Shutting down\<close>

text \<open>
  The steps of the proxy itself: nothing outside closes a listener, cancels the context or
  writes to the service.
\<close>

definition proxy_own :: "proxy_sys \<Rightarrow> proxy_sys \<Rightarrow> bool" where
  "proxy_own p p' \<longleftrightarrow> proxy_step p p' \<and> parent_done p' = parent_done p \<and> loop_ext p' = loop_ext p
     \<and> (ext_closed (lan p') \<longrightarrow> ext_closed (lan p)) \<and> (notify_due (lan p') \<longrightarrow> notify_due (lan p))
     \<and> own_svc (psvc p) (psvc p')"

lemma proxy_own_step: "proxy_own p p' \<Longrightarrow> proxy_step p p'"
  by (simp add: proxy_own_def)

text \<open>And without an error of \<open>Accept\<close> on an open listener: a loop ends only when its listener is closed.\<close>

definition accepts_undisturbed :: "proxy_sys \<Rightarrow> proxy_sys \<Rightarrow> bool" where
  "accepts_undisturbed p p' \<longleftrightarrow>
     (if main p = Serving
      then accept_undisturbed (loop_open p) (loop_pc p) (loop_pc p') \<and> loops_undisturbed (lan p) (lan p')
      else True)"

lemma accepts_undisturbed_same:
  "loop_pc p' = loop_pc p \<Longrightarrow> listeners (lan p') = listeners (lan p) \<Longrightarrow> accepts_undisturbed p p'"
  by (simp add: accepts_undisturbed_def loops_undisturbed_same)

definition proxy_alone :: "proxy_sys \<Rightarrow> proxy_sys \<Rightarrow> bool" where
  "proxy_alone p p' \<longleftrightarrow> proxy_own p p' \<and> accepts_undisturbed p p'"

abbreviation proxy_run :: "proxy_sys \<Rightarrow> proxy_sys \<Rightarrow> bool" where
  "proxy_run \<equiv> proxy_alone\<^sup>*\<^sup>*"

lemma proxy_alone_same:
  "proxy_own p p' \<Longrightarrow> loop_pc p' = loop_pc p \<Longrightarrow> listeners (lan p') = listeners (lan p) \<Longrightarrow> proxy_alone p p'"
  by (simp add: proxy_alone_def accepts_undisturbed_same)

text \<open>The steps the LAN machine needs to stop are steps of the proxy.\<close>

lemma proxy_calm:
  "calm_run lan_addr (lan p) y \<Longrightarrow> main p = Serving \<Longrightarrow> ctx_done (lan p) \<Longrightarrow>
   \<exists>p'. proxy_run p p' \<and> lan p' = y \<and> main p' = Serving \<and> ctx_done y \<and> loop_pc p' = loop_pc p \<and> watch p' = watch p"
proof (induction rule: rtranclp_induct)
  case base
  then show ?case by blast
next
  case (step y z)
  then obtain p1 where p1: "proxy_run p p1" "lan p1 = y" "main p1 = Serving" "ctx_done y"
    "loop_pc p1 = loop_pc p" "watch p1 = watch p" by blast
  let ?p2 = "group_return (case serve_at z of Finished r \<Rightarrow> r | _ \<Rightarrow> None) (p1\<lparr>lan := z\<rparr>)"
  have cs: "calm_step lan_addr y z" by (rule step.hyps(2))
  have st: "lan_step lan_addr (lan p1) z" "ctx_done z = ctx_done (lan p1)" "proxy_frame (psvc p1) (svc z)"
    using cs p1(2) by (simp_all add: calm_step_def proxy_frame_def own_svc_def)
  have "proxy_step p1 ?p2" by (rule proxy_step.lan_step [OF p1(3) st])
  then have "proxy_own p1 ?p2"
    using cs p1(2) by (simp add: proxy_own_def group_return_def calm_step_def split: option.split)
  then have "proxy_alone p1 ?p2"
    using cs p1(2)
    by (simp add: proxy_alone_def accepts_undisturbed_def loops_undisturbed_def group_return_def calm_step_def
        split: option.split)
  with p1(1) have r: "proxy_run p ?p2" by (rule rtranclp.rtrancl_into_rtrancl)
  have d: "ctx_done z" using st(2) p1(2,4) by simp
  have self: "z\<lparr>ctx_done := True\<rparr> = z" using d by simp
  have "lan ?p2 = z \<and> main ?p2 = Serving \<and> loop_pc ?p2 = loop_pc p \<and> watch ?p2 = watch p"
    using p1(3,5,6) self by (simp add: group_return_def split: option.split)
  with r d show ?case by blast
qed

text \<open>The loopback loop ends once its listener is closed.\<close>

lemma proxy_loop_ends:
  assumes "main p = Serving" "ctx_done (lan p)"
  shows "\<exists>p' r. proxy_run p p' \<and> main p' = Serving \<and> ctx_done (lan p') \<and> lan p' = lan p \<and> loop_pc p' = Ended r"
proof (cases "\<exists>r. loop_pc p = Ended r")
  case True
  with assms show ?thesis by blast
next
  case False
  let ?p1 = "p\<lparr>loop_open := False\<rparr>"
  let ?p2 = "(with_svc (psvc ?p1) ?p1)\<lparr>loop_pc := Ended None\<rparr>"
  have s1: "proxy_step p ?p1" by (rule proxy_step.close_loopback [OF assms])
  have "accept_step False loopback_addr (loop_open ?p1) (ctx_done (lan ?p1)) (loop_pc ?p1, psvc ?p1)
      (Ended None, psvc ?p1)"
    by (rule accept_step_can_end) (use assms False in auto)
  from proxy_step.loopback [OF _ this] have "proxy_step ?p1 ?p2"
    using assms(1) by (simp add: group_return_def)
  with s1 have "proxy_alone p ?p1" "proxy_alone ?p1 ?p2"
    by (simp_all add: proxy_own_def proxy_alone_def accepts_undisturbed_def loops_undisturbed_def)
  then have "proxy_run p ?p2" by (meson converse_rtranclp_into_rtranclp r_into_rtranclp)
  with assms show ?thesis by (intro exI [of _ ?p2] exI [of _ None]) simp
qed

text \<open>The watch returns under a done context, once it runs.\<close>

lemma proxy_watch_ends:
  assumes "main p = Serving" "ctx_done (lan p)"
  shows "proxy_run p (p\<lparr>watch := WatchReturned\<rparr>)"
proof (cases "watch p")
  case WatchStart
  let ?p1 = "p\<lparr>watch := Watching (CiscoConnected (GetState (psvc p)))\<rparr>"
  have "proxy_alone p ?p1" "proxy_alone ?p1 (?p1\<lparr>watch := WatchReturned\<rparr>)"
    using proxy_step.watch_begin [OF assms(1) WatchStart] proxy_step.watch_done [of ?p1] assms
    by (simp_all add: proxy_alone_same proxy_own_def)
  then have "proxy_run p (?p1\<lparr>watch := WatchReturned\<rparr>)"
    by (meson converse_rtranclp_into_rtranclp r_into_rtranclp)
  then show ?thesis by simp
next
  case (Watching was)
  with proxy_step.watch_done [OF assms(1) _ assms(2)] show ?thesis
    by (intro r_into_rtranclp proxy_alone_same) (simp_all add: proxy_own_def)
next
  case WatchReturned
  then have "p\<lparr>watch := WatchReturned\<rparr> = p" by simp
  then show ?thesis by (metis rtranclp.rtrancl_refl)
qed

lemma proxy_shutdown:
  assumes "proxy_inv p" and "main p = Serving" and "ctx_done (lan p)"
  shows "\<exists>p' r. proxy_run p p' \<and> main p' = ProxyReturned r
     \<and> \<not> ProxyStarted (status (psvc p')) \<and> conns (psvc p') = []"
proof -
  have "lan_runs (lan p)" using assms(1,2) by (simp add: proxy_inv_def)
  from calm_stops [OF lan_runs_inv [OF this] assms(3), of lan_addr] obtain y r where
    y: "calm_run lan_addr (lan p) y" "serve_at y = Finished r" by blast
  from proxy_calm [OF y(1) assms(2,3)] obtain p1 where
    p1: "proxy_run p p1" "lan p1 = y" "main p1 = Serving" "ctx_done (lan p1)" by auto
  from proxy_loop_ends [OF p1(3,4)] obtain p2 q where
    p2: "proxy_run p1 p2" "main p2 = Serving" "ctx_done (lan p2)" "lan p2 = y" "loop_pc p2 = Ended q"
    using p1(2) by auto
  let ?p3 = "p2\<lparr>watch := WatchReturned\<rparr>"
  have "proxy_step ?p3 (proxy_return ?p3)"
    by (rule proxy_step.wait_returns) (use p2 y(2) in \<open>auto simp: finished_def\<close>)
  then have "proxy_own ?p3 (proxy_return ?p3)"
    by (simp add: proxy_own_def proxy_return_def own_svc_def proxy_started_def)
  then have "proxy_alone ?p3 (proxy_return ?p3)"
    by (rule proxy_alone_same) (simp_all add: proxy_return_def)
  with proxy_watch_ends [OF p2(2,3)] have "proxy_run p (proxy_return ?p3)"
    using p1(1) p2(1) by (meson rtranclp.rtrancl_into_rtrancl rtranclp_trans)
  then show ?thesis
    by (intro exI [of _ "proxy_return ?p3"]) (simp add: proxy_return_def closeAll_def)
qed

section \<open>Properties\<close>

text \<open>
  The mark and the tracker. The proxy is marked as started exactly while it serves; it
  serves only once \<open>ciscoReady\<close> is closed; and before it serves and after it has returned no
  connection is tracked.
\<close>

theorem proxy_serves:
  assumes "proxy_reach (New o1) p"
  shows "ProxyStarted (status (psvc p)) = (main p = Serving)
     \<and> (if main p = Serving then ciscoReady (psvc p) else conns (psvc p) = [])"
  using proxy_reach_inv [OF assms] by (simp add: proxy_inv_def)

definition ready_proxy :: proxy_sys where
  "ready_proxy = with_svc ((New sample_opts)\<lparr>ciscoReady := True\<rparr>) (startProxy (New sample_opts))"

lemma ready_proxy_reach: "proxy_reach (New sample_opts) ready_proxy"
  unfolding ready_proxy_def
  by (rule proxy_reach.step [OF proxy_reach.start], rule proxy_step.others)
    (simp_all add: startProxy_def proxy_frame_def serveLAN_start_def)

lemma serving_proxy_reach: "proxy_reach (New sample_opts) (start_serving ready_proxy)"
  by (rule proxy_reach.step [OF ready_proxy_reach], rule proxy_step.listening)
    (simp_all add: ready_proxy_def startProxy_def)

theorem proxy_serves_witness:
  "ProxyStarted (status (psvc (start_serving ready_proxy)))"
  using proxy_serves [OF serving_proxy_reach] by (simp add: start_serving_def Let_def)

text \<open>
  C18: why the proxy returns. Without an error only after a cancellation of its context; with one
  only if the loopback port could not be bound, or if something else closed one of its
  listeners. No accept error, LAN change or VPN loss ends it.
\<close>

theorem proxy_result:
  assumes "proxy_reach (New o1) p" and "main p = ProxyReturned r"
  shows "case r of
     None \<Rightarrow> parent_done p
   | Some e \<Rightarrow> (\<exists>err. e = Wrap ''failed to listen on loopback: '' err [])
       \<or> (loop_ext p \<or> ext_closed (lan p)) \<and> (\<exists>err. e = Wrap ''proxy: '' err [])"
  using proxy_reach_inv [OF assms(1)] assms(2) by (simp add: proxy_inv_def result_ok_def)

theorem proxy_result_witness:
  "\<exists>p. proxy_reach (New sample_opts) p \<and> main p = ProxyReturned None \<and> parent_done p"
proof -
  let ?p1 = "ready_proxy\<lparr>parent_done := True, lan := (lan ready_proxy)\<lparr>ctx_done := True\<rparr>\<rparr>"
  let ?p2 = "(with_svc (proxy_started False (psvc ?p1)) ?p1)\<lparr>main := ProxyReturned None\<rparr>"
  have r: "proxy_reach (New sample_opts) ?p2"
    by (rule proxy_reach.step [OF proxy_reach.step [OF ready_proxy_reach proxy_step.cancel]],
        rule proxy_step.wait_cancelled) (simp_all add: ready_proxy_def startProxy_def)
  have m: "main ?p2 = ProxyReturned None" by simp
  from proxy_result [OF r m] have "parent_done ?p2" by simp
  with r m show ?thesis by blast
qed

text \<open>
  Inside the proxy the LAN listener behaves as on its own. While the proxy serves, the state
  of its LAN part is one that \<open>serveLAN\<close> reaches by itself from a service without connections,
  so everything shown of that machine holds in the proxy.
\<close>

theorem proxy_refines_lan:
  assumes "proxy_reach (New o1) p" and "main p = Serving"
  shows "\<exists>s1. conns s1 = [] \<and> lan_reach lan_addr s1 (lan p)"
  using proxy_reach_inv [OF assms(1)] assms(2) by (simp add: proxy_inv_def lan_runs_def)

theorem proxy_refines_lan_witness:
  "\<exists>s1. conns s1 = [] \<and> lan_reach lan_addr s1 (lan (start_serving ready_proxy))"
  by (rule proxy_refines_lan [OF serving_proxy_reach]) (simp add: start_serving_def Let_def)

text \<open>
  C17: a shutdown of the proxy completes. From every state in which it serves under a done
  context, be it cancelled or ended by an error of one of its goroutines, its own steps can take it
  to its return, with the mark removed and no connection tracked. Nothing outside takes part: no
  listener is closed by something else and no \<open>Accept\<close> on an open listener fails, so both accept
  loops have to be ended by the proxy itself closing their listeners.
\<close>

theorem proxy_stops:
  assumes "proxy_reach (New o1) p" and "main p = Serving" and "ctx_done (lan p)"
  shows "\<exists>p' r. proxy_run p p' \<and> main p' = ProxyReturned r
     \<and> \<not> ProxyStarted (status (psvc p')) \<and> conns (psvc p') = []"
  by (rule proxy_shutdown [OF proxy_reach_inv [OF assms(1)] assms(2,3)])

theorem proxy_stops_witness:
  "\<exists>p p' r. proxy_run p p' \<and> main p = Serving \<and> main p' = ProxyReturned r"
proof -
  let ?p = "(start_serving ready_proxy)\<lparr>parent_done := True,
    lan := (lan (start_serving ready_proxy))\<lparr>ctx_done := True\<rparr>\<rparr>"
  have r: "proxy_reach (New sample_opts) ?p"
    by (rule proxy_reach.step [OF serving_proxy_reach proxy_step.cancel])
  have m: "main ?p = Serving" "ctx_done (lan ?p)" by (simp_all add: start_serving_def Let_def)
  from proxy_stops [OF r m] m(1) show ?thesis by blast
qed

text \<open>
  A tick of the watch that finds the VPN down after it was up closes every tracked
  connection, of either listener, and forgets it; any other tick closes nothing. In particular
  a VPN that is up at two ticks in a row has kept its connections whatever it did in between.
\<close>

theorem vpn_tick_drops:
  "case vpn_tick was s of (now, closed, s') \<Rightarrow>
     now = CiscoConnected (status s)
     \<and> (\<forall>c. c \<in> set closed \<longleftrightarrow> was \<and> \<not> now \<and> c \<in> dom (gm_get (conns s)))
     \<and> (\<forall>c. gm_get (conns s') c = (if was \<and> \<not> now then None else gm_get (conns s) c))"
  by (auto simp: vpn_tick_cases dom_map_of_conv_image_fst)

end
