(* ===== verification/Config.thy ===== *)
theory Config
  imports Service Pinner
begin

text \<open>
  \<open>cmd/config.go\<close>: the configuration, its validation and the options made from it. The
  environment, the user database, the file and the YAML decoder are parameters; an error is a
  constructor, its text is not modelled.
\<close>

section \<open>Data\<close>

record Config =
  cfg_user :: string
  cfg_password :: string
  cfg_profile :: string
  cfg_socks_user :: string
  cfg_socks_password :: string
  cfg_dns_servers :: "string list"
  cfg_lan_clients :: "LANClient list"
  cfg_lan_discovery :: bool
  noTUI :: bool
  debug :: bool

definition zero_Config :: Config where
  "zero_Config = \<lparr>cfg_user = [], cfg_password = [], cfg_profile = [], cfg_socks_user = [],
     cfg_socks_password = [], cfg_dns_servers = [], cfg_lan_clients = [], cfg_lan_discovery = False,
     noTUI = False, debug = False\<rparr>"

datatype config_error =
    NoSudoUser | UserLookup string go_error | ReadConfig go_error | ParseConfig go_error
  | UserRequired | PasswordRequired | ProfileRequired | DNSRequired
  | InvalidDNS nat string | InvalidIPv4 nat string | InvalidMAC nat string | SocksPair

section \<open>Validation\<close>

fun check_dns :: "nat \<Rightarrow> string list \<Rightarrow> config_error option" where
  "check_dns i [] = None"
| "check_dns i (srv # srvs) =
     (if ParseIP srv = None then Some (InvalidDNS i srv) else check_dns (Suc i) srvs)"

definition valid_ipv4 :: "string \<Rightarrow> bool" where
  "valid_ipv4 s = (case ParseIP s of None \<Rightarrow> False | Some ip \<Rightarrow> ip16_to4 ip \<noteq> None)"

fun check_clients :: "nat \<Rightarrow> LANClient list \<Rightarrow> config_error option" where
  "check_clients i [] = None"
| "check_clients i (lc # lcs) =
     (if \<not> valid_ipv4 (lc_ip lc) then Some (InvalidIPv4 i (lc_ip lc))
      else if lc_mac lc = [] then check_clients (Suc i) lcs
      else if ParseMAC (lc_mac lc) = None then Some (InvalidMAC i (lc_mac lc))
      else check_clients (Suc i) lcs)"

definition validate :: "Config \<Rightarrow> config_error option" where
  "validate c =
     (if cfg_user c = [] then Some UserRequired
      else if cfg_password c = [] then Some PasswordRequired
      else if cfg_profile c = [] then Some ProfileRequired
      else if cfg_dns_servers c = [] then Some DNSRequired
      else case check_dns 0 (cfg_dns_servers c) of
        Some e \<Rightarrow> Some e
      | None \<Rightarrow>
          (case check_clients 0 (cfg_lan_clients c) of
             Some e \<Rightarrow> Some e
           | None \<Rightarrow>
               if (cfg_socks_user c = []) \<noteq> (cfg_socks_password c = []) then Some SocksPair
               else None))"

text \<open>The decoder fills in the configuration that already holds the flags.\<close>

definition loadConfig ::
  "bool \<Rightarrow> bool \<Rightarrow> string option \<Rightarrow> (string \<Rightarrow> go_error + string) \<Rightarrow> (string \<Rightarrow> go_error + string)
     \<Rightarrow> (string \<Rightarrow> Config \<Rightarrow> go_error + Config) \<Rightarrow> config_error + Config" where
  "loadConfig no_tui dbg sudo_user lookup_home read_config unmarshal =
     (let cfg = zero_Config\<lparr>noTUI := no_tui, debug := dbg\<rparr> in
      case sudo_user of
        None \<Rightarrow> Inl NoSudoUser
      | Some name \<Rightarrow>
          if name = [] then Inl NoSudoUser
          else (case lookup_home name of
            Inl err \<Rightarrow> Inl (UserLookup name err)
          | Inr home \<Rightarrow>
              (case read_config home of
                 Inl err \<Rightarrow> Inl (ReadConfig err)
               | Inr text \<Rightarrow>
                   (case unmarshal text cfg of
                      Inl err \<Rightarrow> Inl (ParseConfig err)
                    | Inr cfg1 \<Rightarrow>
                        (case validate cfg1 of Some e \<Rightarrow> Inl e | None \<Rightarrow> Inr cfg1)))))"

definition serviceOptions :: "Config \<Rightarrow> Options" where
  "serviceOptions c =
     \<lparr>CiscoUser = cfg_user c, CiscoPassword = cfg_password c, CiscoProfile = cfg_profile c,
      SocksUser = cfg_socks_user c, SocksPassword = cfg_socks_password c,
      DNSServers = cfg_dns_servers c, LANClients = cfg_lan_clients c,
      LANDiscovery = cfg_lan_discovery c\<rparr>"

section \<open>Lemmas\<close>

lemma ParseIP_v4_string: "ParseIP (v4_string w) \<noteq> None"
  by (simp add: ParseIP_def)

lemma valid_ipv4_string: "valid_ipv4 (v4_string w)"
proof -
  have "is_4in6 (push_bit 32 0xFFFF OR ucast w)"
    unfolding is_4in6_def by (rule bit_word_eqI) (auto simp: bit_simps dest: bit_imp_le_length)
  then show ?thesis by (simp add: valid_ipv4_def ParseIP_def ip16_to4_def)
qed

lemma check_dns_None: "check_dns i srvs = None \<longleftrightarrow> (\<forall>s \<in> set srvs. ParseIP s \<noteq> None)"
  by (induction i srvs rule: check_dns.induct) auto

lemma check_dns_Some: "check_dns i srvs = Some e \<Longrightarrow>
    \<exists>j s. e = InvalidDNS j s \<and> i \<le> j \<and> j < i + length srvs \<and> srvs ! (j - i) = s \<and> ParseIP s = None"
proof (induction i srvs rule: check_dns.induct)
  case (2 i srv srvs)
  show ?case
  proof (cases "ParseIP srv = None")
    case True
    with "2.prems" show ?thesis by auto
  next
    case False
    with "2.IH" "2.prems" obtain j s where "e = InvalidDNS j s" "Suc i \<le> j" "j < Suc i + length srvs"
      "srvs ! (j - Suc i) = s" "ParseIP s = None" by auto
    then show ?thesis by (intro exI [of _ j] exI [of _ s]) (auto simp: nth_Cons')
  qed
qed simp

lemma check_clients_None:
  "check_clients i lcs = None \<longleftrightarrow>
     (\<forall>lc \<in> set lcs. valid_ipv4 (lc_ip lc) \<and> (lc_mac lc = [] \<or> ParseMAC (lc_mac lc) \<noteq> None))"
  by (induction i lcs rule: check_clients.induct) auto

lemma check_clients_error:
  "check_clients i lcs = Some e \<Longrightarrow> \<exists>j s. e = InvalidIPv4 j s \<or> e = InvalidMAC j s"
  by (induction i lcs rule: check_clients.induct) (auto split: if_splits)

text \<open>A MAC the configuration accepts is one \<open>CanonicalMAC\<close> accepts: no octet is padded.\<close>

lemma hex_value_separators: "hex_value c = Some n \<Longrightarrow> c \<noteq> CHR '':''"
  by (auto simp: hex_value_def split: if_splits)

lemma xtoi2_Some:
  "xtoi2 s e = Some v \<Longrightarrow> \<exists>a b rest. s = a # b # rest \<and> hex_value a \<noteq> None \<and> hex_value b \<noteq> None
     \<and> (rest = [] \<or> hd rest = e)"
  by (induction s e rule: xtoi2.induct) (auto split: list.splits option.splits if_splits)

lemma mac_pairs_colon_parts:
  "mac_pairs n CHR '':'' s = Some hw \<Longrightarrow> length s + 1 = 3 * n \<Longrightarrow> \<forall>p \<in> set (split_on CHR '':'' s). length p = 2"
proof (induction n arbitrary: s hw)
  case 0
  then show ?case by simp
next
  case (Suc n)
  from Suc.prems(1) obtain v hw' where v: "xtoi2 s CHR '':'' = Some v"
    and r: "mac_pairs n CHR '':'' (drop 3 s) = Some hw'" by (auto split: option.splits)
  from xtoi2_Some [OF v] obtain a b rest where s: "s = a # b # rest" and h: "hex_value a \<noteq> None"
    "hex_value b \<noteq> None" "rest = [] \<or> hd rest = CHR '':''" by blast
  then have ab: "CHR '':'' \<notin> set [a, b]" using hex_value_separators by auto
  show ?case
  proof (cases rest)
    case Nil
    have "split_on CHR '':'' [a, b] = [[a, b]]" by (rule split_on_no_sep [OF ab])
    with s Nil show ?thesis by simp
  next
    case (Cons c t)
    with h(3) s have s': "s = [a, b] @ CHR '':'' # t" by simp
    have "length t + 1 = 3 * n" using Suc.prems(2) s' by simp
    moreover have "mac_pairs n CHR '':'' t = Some hw'" using r s' by simp
    ultimately have "\<forall>p \<in> set (split_on CHR '':'' t). length p = 2" by (rule Suc.IH [rotated])
    then show ?thesis unfolding s' split_on_append [OF ab] by simp
  qed
qed

lemma mac_pairs_no_colon:
  "mac_pairs n e s = Some hw \<Longrightarrow> length s + 1 = 3 * n \<Longrightarrow> e \<noteq> CHR '':'' \<Longrightarrow> CHR '':'' \<notin> set s"
proof (induction n arbitrary: s hw)
  case (Suc n)
  from Suc.prems(1) obtain v hw' where v: "xtoi2 s e = Some v"
    and r: "mac_pairs n e (drop 3 s) = Some hw'" by (auto split: option.splits)
  from xtoi2_Some [OF v] obtain a b rest where s: "s = a # b # rest" and h: "hex_value a \<noteq> None"
    "hex_value b \<noteq> None" "rest = [] \<or> hd rest = e" by blast
  show ?case
  proof (cases rest)
    case Nil
    with s h(1,2) hex_value_separators show ?thesis by auto
  next
    case (Cons c t)
    then have "CHR '':'' \<notin> set t" using Suc.IH [of t hw'] Suc.prems(2,3) r s by simp
    with Cons s h hex_value_separators Suc.prems(3) show ?thesis by auto
  qed
qed simp

lemma mac_quads_no_colon:
  "mac_quads n s = Some hw \<Longrightarrow> length s + 1 = 5 * n \<Longrightarrow> CHR '':'' \<notin> set s"
proof (induction n arbitrary: s hw)
  case (Suc n)
  from Suc.prems(1) obtain v u hw' where v: "xtoi2 (take 2 s) CHR 0x00 = Some v"
    and u: "xtoi2 (drop 2 s) CHR ''.'' = Some u" and r: "mac_quads n (drop 5 s) = Some hw'"
    by (auto split: option.splits)
  from xtoi2_Some [OF v] obtain a b x where x: "take 2 s = a # b # x" and h: "hex_value a \<noteq> None"
    "hex_value b \<noteq> None" by blast
  from xtoi2_Some [OF u] obtain c d rest where y: "drop 2 s = c # d # rest" and k: "hex_value c \<noteq> None"
    "hex_value d \<noteq> None" "rest = [] \<or> hd rest = CHR ''.''" by blast
  have "length (take 2 s) \<le> 2" by simp
  then have "x = []" by (simp add: x)
  then have s: "s = a # b # c # d # rest" using x y append_take_drop_id [of 2 s] by simp
  show ?case
  proof (cases rest)
    case Nil
    with s h k hex_value_separators show ?thesis by auto
  next
    case (Cons z t)
    then have "CHR '':'' \<notin> set t" using Suc.IH [of t hw'] Suc.prems(2) r s by simp
    with Cons s h k hex_value_separators show ?thesis by auto
  qed
qed simp

lemma pad_octet_id: "\<forall>p \<in> set ps. length p \<noteq> 1 \<Longrightarrow> map pad_octet ps = ps"
  by (induction ps) (auto simp: pad_octet_def)

lemma ParseMAC_canonical: "ParseMAC m = Some hw \<Longrightarrow> CanonicalMAC m = (hw_string hw, True)"
proof -
  assume p: "ParseMAC m = Some hw"
  have "\<forall>q \<in> set (split_on CHR '':'' m). length q \<noteq> 1"
  proof (cases "m ! 2 = CHR '':''")
    case True
    with p have "mac_pairs ((length m + 1) div 3) CHR '':'' m = Some hw" "length m + 1 = 3 * ((length m + 1) div 3)"
      by (auto simp: ParseMAC_def Let_def split: if_splits)
    from mac_pairs_colon_parts [OF this] show ?thesis by auto
  next
    case False
    have "CHR '':'' \<notin> set m"
    proof (cases "m ! 2 = CHR ''-''")
      case True
      with p have "mac_pairs ((length m + 1) div 3) CHR ''-'' m = Some hw" "length m + 1 = 3 * ((length m + 1) div 3)"
        by (auto simp: ParseMAC_def Let_def split: if_splits)
      from mac_pairs_no_colon [OF this] show ?thesis by simp
    next
      case False
      with p \<open>m ! 2 \<noteq> CHR '':''\<close> have q: "mac_quads (2 * (length m + 1) div 5 div 2) m = Some hw" "(length m + 1) mod 5 = 0"
        by (auto simp: ParseMAC_def Let_def split: if_splits)
      from q(2) obtain k where k: "length m + 1 = 5 * k" by auto
      have "2 * (5 * k) div 5 div 2 = k" by (simp add: div_mult2_eq [symmetric])
      then have "mac_quads k m = Some hw" using q(1) by (simp only: k)
      then show ?thesis using k by (rule mac_quads_no_colon)
    qed
    moreover have "14 \<le> length m" using p by (auto simp: ParseMAC_def split: if_splits)
    ultimately show ?thesis by (auto simp: split_on_no_sep)
  qed
  then have "map pad_octet (split_on CHR '':'' m) = split_on CHR '':'' m" by (rule pad_octet_id)
  then show ?thesis by (simp add: CanonicalMAC_def join_split p)
qed

lemma validate_credentials:
  "validate c = None \<Longrightarrow> (cfg_socks_user c = []) = (cfg_socks_password c = [])"
  by (auto simp: validate_def split: if_splits option.splits)

section \<open>Properties\<close>

text \<open>
  C35: what a configuration must satisfy. It is accepted exactly when user, password, profile and
  at least one DNS server are given, every DNS server is an IP address, every client has an
  address with an IPv4 form and a MAC that parses or none, and the SOCKS user and password are
  both given or both missing.
\<close>

theorem validate_accepts:
  "validate c = None \<longleftrightarrow>
     cfg_user c \<noteq> [] \<and> cfg_password c \<noteq> [] \<and> cfg_profile c \<noteq> [] \<and> cfg_dns_servers c \<noteq> []
     \<and> list_all (\<lambda>s. ParseIP s \<noteq> None) (cfg_dns_servers c)
     \<and> list_all (\<lambda>lc. valid_ipv4 (lc_ip lc) \<and> (if lc_mac lc = [] then True else ParseMAC (lc_mac lc) \<noteq> None))
         (cfg_lan_clients c)
     \<and> (cfg_socks_user c = []) = (cfg_socks_password c = [])"
  using check_dns_None [of 0 "cfg_dns_servers c"] check_clients_None [of 0 "cfg_lan_clients c"]
  by (auto simp: validate_def list_all_iff split: option.splits)

text \<open>
  No configured MAC is lost on the way into the registry: after validation every client
  with a MAC has an entry with a canonical MAC, the last one given for its address, although
  the validation and the registry use different parsers.
\<close>

theorem valid_macs_registered:
  assumes "validate c = None" and "cfg_lan_clients c = before @ lc # after"
    and "lc_mac lc \<noteq> []" and "lc_ip lc \<notin> lc_ip ` set after"
  shows "\<exists>hw. ParseMAC (lc_mac lc) = Some hw
     \<and> gm_get (snapshot (clients (New (serviceOptions c)))) (lc_ip lc) = Some (hw_string hw)
     \<and> static_ips (clients (New (serviceOptions c))) = lc_ip ` set (cfg_lan_clients c)"
proof -
  from assms(1-3) obtain hw where hw: "ParseMAC (lc_mac lc) = Some hw"
    using check_clients_None [of 0 "cfg_lan_clients c"]
    by (auto simp: validate_def split: if_splits option.splits)
  have rest: "lc_ip lc \<notin> lc_ip ` set lcs \<Longrightarrow>
      gm_get (fold (\<lambda>lc r. gm_put (lc_ip lc) (static_entry lc) r) lcs r) (lc_ip lc) = gm_get r (lc_ip lc)" for lcs r
    by (induction lcs arbitrary: r) auto
  have "gm_get (newClientRegistry (cfg_lan_clients c)) (lc_ip lc) = Some (static_entry lc)"
    by (simp add: newClientRegistry_def assms(2) rest [OF assms(4)])
  moreover have "entry_mac (static_entry lc) = hw_string hw"
    by (simp add: static_entry_def ParseMAC_canonical [OF hw] zero_clientEntry_def)
  moreover have "static_ips (newClientRegistry (cfg_lan_clients c)) = lc_ip ` set (cfg_lan_clients c)"
    using static_ips_new .
  ultimately show ?thesis
    using hw by (simp add: New_def serviceOptions_def get_snapshot)
qed

definition sample_config :: Config where
  "sample_config = zero_Config\<lparr>cfg_user := ''u'', cfg_password := ''p'', cfg_profile := ''vpn'',
     cfg_dns_servers := [''10.0.0.1''],
     cfg_lan_clients := [\<lparr>lc_ip = ''192.168.0.42'', lc_mac = ''72-CE-39-12-45-0F''\<rparr>]\<rparr>"

lemma sample_config_valid: "validate sample_config = None"
proof -
  have "decimal 192 = ''192''" "decimal 168 = ''168''" "decimal 0 = ''0''" "decimal 42 = ''42''"
    "decimal 10 = ''10''" "decimal 1 = ''1''" by code_simp+
  then have "v4_string 0xC0A8002A = ''192.168.0.42''" "v4_string 0x0A000001 = ''10.0.0.1''"
    by (simp_all add: v4_string_def v4_octets_def Let_def)
  then have "valid_ipv4 ''192.168.0.42''" "ParseIP ''10.0.0.1'' \<noteq> None"
    using valid_ipv4_string [of "0xC0A8002A"] ParseIP_v4_string [of "0x0A000001"] by simp_all
  moreover have "ParseMAC ''72-CE-39-12-45-0F'' \<noteq> None" by code_simp
  ultimately show ?thesis by (simp add: sample_config_def zero_Config_def validate_def)
qed

theorem valid_macs_registered_witness:
  "\<exists>hw. ParseMAC ''72-CE-39-12-45-0F'' = Some hw
     \<and> gm_get (snapshot (clients (New (serviceOptions sample_config)))) ''192.168.0.42'' = Some (hw_string hw)"
  using valid_macs_registered [OF sample_config_valid, of "[]"
      "\<lparr>lc_ip = ''192.168.0.42'', lc_mac = ''72-CE-39-12-45-0F''\<rparr>" "[]"]
  unfolding sample_config_def zero_Config_def Config.simps by auto

lemma mapped_addr: "ParseAddr ''::ffff:1.2.3.4'' = Some (V6 0xFFFF01020304 [])"
proof -
  have v: "hex_value CHR ''f'' = Some 15" "hex_value CHR ''1'' = Some 1" "hex_value CHR ''2'' = Some 2"
    "hex_value CHR ''3'' = Some 3" "hex_value CHR ''4'' = Some 4" "hex_value CHR ''.'' = None"
    "hex_value CHR '':'' = None" "dec_value CHR ''1'' = Some 1" "dec_value CHR ''2'' = Some 2"
    "dec_value CHR ''3'' = Some 3" "dec_value CHR ''4'' = Some 4"
    by code_simp+
  have "parse6_loop [] (Some 0) ''ffff:1.2.3.4'' = parse6_loop [65535] (Some 0) ''1.2.3.4''"
    by (subst parse6_loop.simps) (simp add: hex_field_def v)
  also have "\<dots> = Some ([65535, 258, 772], Some 0, [])"
    by (subst parse6_loop.simps) (simp add: hex_field_def v parse_v4_fields_def parse_octet_def)
  moreover have "replicate 5 (0 :: nat) = [0, 0, 0, 0, 0]" by (simp add: numeral_eq_Suc)
  ultimately show ?thesis
    by (simp add: ParseAddr_def parse_v6_def cut_def v6_of_groups_def)
qed

text \<open>
  An IPv4 address in IPv6 spelling passes the validation and is then never pinned: in no
  state with an IPv4 LAN is it in the pinner's scope.
\<close>

theorem mapped_client_never_pinned:
  "valid_ipv4 ''::ffff:1.2.3.4'' \<and>
   (case LANSubnet st of Prefix (V4 a) b \<Rightarrow> \<not> in_scope st ''::ffff:1.2.3.4'' | _ \<Rightarrow> True)"
proof
  show "valid_ipv4 ''::ffff:1.2.3.4''"
    by (simp add: valid_ipv4_def ParseIP_def mapped_addr ip16_to4_def is_4in6_def)
  have "\<not> Contains (Prefix (V4 a) b) (V6 w z)" for a b w z
    using Contains_V4_is4 [of "Prefix (V4 a) b" a "V6 w z"] by (auto simp: is4_def)
  then show "case LANSubnet st of Prefix (V4 a) b \<Rightarrow> \<not> in_scope st ''::ffff:1.2.3.4'' | _ \<Rightarrow> True"
    by (auto simp: in_scope_def mapped_addr split: netip_prefix.splits addr.splits)
qed

text \<open>
  A loaded configuration is a valid one, and every failure on the way is reported as the
  step that failed; the flags survive unless the decoder changes them.
\<close>

theorem loadConfig_valid:
  "case loadConfig no_tui dbg sudo_user lookup_home read_config unmarshal of
     Inr cfg \<Rightarrow> validate cfg = None
       \<and> (\<exists>name home text. sudo_user = Some name \<and> name \<noteq> [] \<and> lookup_home name = Inr home
            \<and> read_config home = Inr text
            \<and> unmarshal text (zero_Config\<lparr>noTUI := no_tui, debug := dbg\<rparr>) = Inr cfg)
   | Inl NoSudoUser \<Rightarrow> sudo_user = None \<or> sudo_user = Some []
   | Inl (UserLookup name err) \<Rightarrow> sudo_user = Some name \<and> lookup_home name = Inl err
   | _ \<Rightarrow> sudo_user \<noteq> None \<and> sudo_user \<noteq> Some []"
proof -
  have v: "validate cfg \<noteq> Some NoSudoUser" "validate cfg \<noteq> Some (UserLookup name err)" for cfg name err
    using check_dns_Some [of 0 "cfg_dns_servers cfg"] check_clients_error [of 0 "cfg_lan_clients cfg"]
    by (auto simp: validate_def split: if_splits option.splits)
  show ?thesis
    using v by (auto simp: loadConfig_def Let_def split: option.splits sum.splits config_error.splits)
qed

end
