(* ===== verification/Dns.thy ===== *)
theory Dns
  imports Config
begin

text \<open>
  The DNS forwarder of \<open>internal/service/dns.go\<close>. Messages and the client belong to the
  miekg/dns library: they are a type parameter with the operations the code uses as a record.
\<close>

section \<open>The library\<close>

record ('m, 'rr, 'w) dns_lib =
  IsEdns0 :: "'m \<Rightarrow> bool"
  SetEdns0 :: "nat \<Rightarrow> bool \<Rightarrow> 'm \<Rightarrow> 'm"
  Exchange :: "string \<Rightarrow> duration \<Rightarrow> 'm \<Rightarrow> string \<Rightarrow> 'w \<Rightarrow> (go_error + 'm) \<times> 'w"
  Extra :: "'m \<Rightarrow> 'rr list"
  set_Extra :: "'rr list \<Rightarrow> 'm \<Rightarrow> 'm"
  Rrtype :: "'rr \<Rightarrow> nat"
  SetRcode :: "'m \<Rightarrow> nat \<Rightarrow> 'm"

definition TypeOPT :: nat where "TypeOPT = 41"
definition RcodeServerFailure :: nat where "RcodeServerFailure = 2"

section \<open>Forwarding\<close>

definition dnsListenAddr :: string where "dnsListenAddr = ''127.0.0.1:53''"
definition dnsUpstreamTimeout :: duration where "dnsUpstreamTimeout = 5 * second"
definition dnsUpstreamUDPSize :: nat where "dnsUpstreamUDPSize = 4096"

text \<open>\<open>net.JoinHostPort\<close> brackets a host with a colon or a percent sign.\<close>

definition JoinHostPort :: "string \<Rightarrow> string \<Rightarrow> string" where
  "JoinHostPort host port =
     (if CHR '':'' \<in> set host \<or> CHR ''%'' \<in> set host
      then ''['' @ host @ '']:'' @ port else host @ '':'' @ port)"

text \<open>Formatting a nil error with the wrapping verb wraps nothing.\<close>

definition all_failed :: "go_error option \<Rightarrow> go_error" where
  "all_failed last_err =
     (case last_err of
        Some e \<Rightarrow> Wrap ''all dns servers failed: '' e []
      | None \<Rightarrow> Msg ''all dns servers failed: %!w(<nil>)'')"

definition strip_opt :: "('m, 'rr, 'w) dns_lib \<Rightarrow> 'm \<Rightarrow> 'm" where
  "strip_opt lib resp =
     set_Extra lib (filter (\<lambda>rr. Rrtype lib rr \<noteq> TypeOPT) (Extra lib resp)) resp"

fun try_servers ::
  "('m, 'rr, 'w) dns_lib \<Rightarrow> bool \<Rightarrow> 'm \<Rightarrow> string list \<Rightarrow> go_error option \<Rightarrow> 'w \<Rightarrow> (go_error + 'm) \<times> 'w" where
  "try_servers lib clientEDNS req [] last_err w = (Inl (all_failed last_err), w)"
| "try_servers lib clientEDNS req (server # servers) last_err w =
     (case Exchange lib ''udp'' dnsUpstreamTimeout req (JoinHostPort server ''53'') w of
        (Inl err, w1) \<Rightarrow> try_servers lib clientEDNS req servers (Some err) w1
      | (Inr resp, w1) \<Rightarrow>
          (Inr (if \<not> clientEDNS then strip_opt lib resp else resp), w1))"

text \<open>The request the client sent is copied before the buffer size is set on it.\<close>

definition upstream_request :: "('m, 'rr, 'w) dns_lib \<Rightarrow> 'm \<Rightarrow> 'm" where
  "upstream_request lib r =
     (if \<not> IsEdns0 lib r then SetEdns0 lib dnsUpstreamUDPSize False r else r)"

definition forwardDNS ::
  "('m, 'rr, 'w) dns_lib \<Rightarrow> service \<Rightarrow> 'm \<Rightarrow> 'w \<Rightarrow> (go_error + 'm) \<times> 'w" where
  "forwardDNS lib s r w =
     try_servers lib (IsEdns0 lib r) (upstream_request lib r) (DNSServers (opts s)) None w"

text \<open>The handler: the message it writes to the client.\<close>

definition dns_handler ::
  "('m, 'rr, 'w) dns_lib \<Rightarrow> service \<Rightarrow> 'm \<Rightarrow> 'w \<Rightarrow> 'm \<times> 'w" where
  "dns_handler lib s r w =
     (case forwardDNS lib s r w of
        (Inl err, w1) \<Rightarrow> (SetRcode lib r RcodeServerFailure, w1)
      | (Inr resp, w1) \<Rightarrow> (resp, w1))"

section \<open>The server\<close>

text \<open>
  \<open>startDNS\<close>: \<open>ready\<close> is the branch of the first select; \<open>listen\<close> opens the port, \<open>activate\<close>
  serves until the listener is shut down. The result is the service with the marks it had
  while serving, and what is returned.
\<close>

definition dns_started :: "bool \<Rightarrow> service \<Rightarrow> service" where
  "dns_started b s = setStatus (\<lambda>st. st\<lparr>DNSStarted := b\<rparr>) s"

definition startDNS ::
  "bool \<Rightarrow> 'w os \<Rightarrow> go_ctx \<Rightarrow> (string \<Rightarrow> 'w \<Rightarrow> go_error option \<times> 'w)
     \<Rightarrow> (service \<times> 'w \<Rightarrow> go_error option \<times> service \<times> 'w) \<Rightarrow> service \<times> 'w
     \<Rightarrow> go_error option \<times> service \<times> 'w" where
  "startDNS ready os ctx listen activate sw =
     (case sw of (s, w) \<Rightarrow>
      if \<not> ready then (None, dns_started False s, w)
      else (case listen dnsListenAddr w of
        (Some err, w1) \<Rightarrow> (Some (Wrap ''dns listen: '' err []), dns_started False s, w1)
      | (None, w1) \<Rightarrow>
          (case activate (dns_started True s, w1) of
             (res, s2, w2) \<Rightarrow>
               (case res of
                  Some err \<Rightarrow>
                    if \<not> os_ctx_err os ctx w2
                    then (Some (Wrap ''dns server error: '' err []), dns_started False s2, w2)
                    else (None, dns_started False s2, w2)
                | None \<Rightarrow> (None, dns_started False s2, w2)))))"

section \<open>Lemmas\<close>

text \<open>The world after a list of servers was asked.\<close>

fun asked :: "('m, 'rr, 'w) dns_lib \<Rightarrow> 'm \<Rightarrow> string list \<Rightarrow> 'w \<Rightarrow> 'w" where
  "asked lib req [] w = w"
| "asked lib req (server # servers) w =
     asked lib req servers
       (snd (Exchange lib ''udp'' dnsUpstreamTimeout req (JoinHostPort server ''53'') w))"

text \<open>All of them failed, each in the world the ones before left.\<close>

fun all_fail :: "('m, 'rr, 'w) dns_lib \<Rightarrow> 'm \<Rightarrow> string list \<Rightarrow> 'w \<Rightarrow> bool" where
  "all_fail lib req [] w = True"
| "all_fail lib req (server # servers) w =
     ((case fst (Exchange lib ''udp'' dnsUpstreamTimeout req (JoinHostPort server ''53'') w) of
         Inl _ \<Rightarrow> True | Inr _ \<Rightarrow> False)
      \<and> all_fail lib req servers
         (snd (Exchange lib ''udp'' dnsUpstreamTimeout req (JoinHostPort server ''53'') w)))"

lemma try_servers_fails:
  "(\<exists>e w'. try_servers lib ce req servers le w = (Inl e, w')) = all_fail lib req servers w"
  by (induction servers arbitrary: le w) (auto split: prod.splits sum.splits)

lemma try_servers_answer:
  "try_servers lib ce req servers le w = (Inr resp, w') \<Longrightarrow>
   \<exists>pre srv post raw. servers = pre @ srv # post \<and> all_fail lib req pre w
     \<and> Exchange lib ''udp'' dnsUpstreamTimeout req (JoinHostPort srv ''53'') (asked lib req pre w) = (Inr raw, w')
     \<and> resp = (if ce then raw else strip_opt lib raw)"
proof (induction servers arbitrary: le w)
  case Nil
  then show ?case by simp
next
  case (Cons srv servers)
  obtain res w1 where ex: "Exchange lib ''udp'' dnsUpstreamTimeout req (JoinHostPort srv ''53'') w = (res, w1)"
    by (metis surj_pair)
  show ?case
  proof (cases res)
    case (Inl err)
    with Cons.prems ex have "try_servers lib ce req servers (Some err) w1 = (Inr resp, w')" by simp
    from Cons.IH [OF this] obtain pre s2 post raw where h: "servers = pre @ s2 # post" "all_fail lib req pre w1"
      "Exchange lib ''udp'' dnsUpstreamTimeout req (JoinHostPort s2 ''53'') (asked lib req pre w1) = (Inr raw, w')"
      "resp = (if ce then raw else strip_opt lib raw)" by blast
    show ?thesis
      by (intro exI [of _ "srv # pre"] exI [of _ s2] exI [of _ post] exI [of _ raw])
        (use h ex Inl in simp)
  next
    case (Inr raw)
    with Cons.prems ex show ?thesis
      by (intro exI [of _ "[]"] exI [of _ srv] exI [of _ servers] exI [of _ raw]) auto
  qed
qed

section \<open>Properties\<close>

text \<open>
  C33: the answer a client gets is that of the first configured server that answers, every one
  before it having been asked and failed; only if all of them fail does the client get a
  server failure, built from its own query.
\<close>

theorem dns_first_answer:
  "case dns_handler lib s r w of (msg, w') \<Rightarrow>
     let req = upstream_request lib r in
     if all_fail lib req (DNSServers (opts s)) w then msg = SetRcode lib r RcodeServerFailure
     else \<exists>pre srv post raw. DNSServers (opts s) = pre @ srv # post \<and> all_fail lib req pre w
       \<and> Exchange lib ''udp'' (5 * second) req (JoinHostPort srv ''53'') (asked lib req pre w) = (Inr raw, w')
       \<and> msg = (if IsEdns0 lib r then raw else strip_opt lib raw)"
proof -
  obtain res w' where f: "forwardDNS lib s r w = (res, w')" by (metis surj_pair)
  show ?thesis
  proof (cases res)
    case (Inl e)
    with f try_servers_fails [of lib "IsEdns0 lib r" "upstream_request lib r" "DNSServers (opts s)" None w]
    show ?thesis by (auto simp: dns_handler_def forwardDNS_def Let_def)
  next
    case (Inr resp)
    with f have t: "try_servers lib (IsEdns0 lib r) (upstream_request lib r) (DNSServers (opts s)) None w
        = (Inr resp, w')" by (simp add: forwardDNS_def)
    then have "\<not> all_fail lib (upstream_request lib r) (DNSServers (opts s)) w"
      using try_servers_fails [of lib "IsEdns0 lib r" "upstream_request lib r" "DNSServers (opts s)" None w]
      by auto
    with f Inr try_servers_answer [OF t] show ?thesis
      by (auto simp: dns_handler_def Let_def dnsUpstreamTimeout_def)
  qed
qed

text \<open>
  The reference for a forwarder that does nothing of its own: it relays a query to the servers in
  their order and passes the first answer on.
\<close>

fun relay :: "('m, 'rr, 'w) dns_lib \<Rightarrow> 'm \<Rightarrow> string list \<Rightarrow> 'w \<Rightarrow> 'm option \<times> 'w" where
  "relay lib q [] w = (None, w)"
| "relay lib q (server # servers) w =
     (case Exchange lib ''udp'' (5 * second) q (JoinHostPort server ''53'') w of
        (Inr answer, w1) \<Rightarrow> (Some answer, w1)
      | (Inl err, w1) \<Rightarrow> relay lib q servers w1)"

text \<open>What the library documents of the additional section: it is read as it was set, and set as a whole.\<close>

definition extra_ok :: "('m, 'rr, 'w) dns_lib \<Rightarrow> bool" where
  "extra_ok lib \<longleftrightarrow> (\<forall>rrs m. Extra lib (set_Extra lib rrs m) = rrs)
     \<and> (\<forall>rrs rrs' m. set_Extra lib rrs (set_Extra lib rrs' m) = set_Extra lib rrs m)"

lemma try_servers_relay:
  "snd (try_servers lib ce q servers le w) = snd (relay lib q servers w)
   \<and> (case fst (relay lib q servers w) of
        None \<Rightarrow> \<exists>e. fst (try_servers lib ce q servers le w) = Inl e
      | Some raw \<Rightarrow> fst (try_servers lib ce q servers le w) = Inr (if \<not> ce then strip_opt lib raw else raw))"
proof (induction servers arbitrary: le w)
  case Nil
  show ?case by simp
next
  case (Cons srv servers)
  obtain res w1 where ex: "Exchange lib ''udp'' (5 * second) q (JoinHostPort srv ''53'') w = (res, w1)"
    by (metis surj_pair)
  show ?case
  proof (cases res)
    case (Inl err)
    then have "try_servers lib ce q (srv # servers) le w = try_servers lib ce q servers (Some err) w1"
      "relay lib q (srv # servers) w = relay lib q servers w1" using ex by (simp_all add: dnsUpstreamTimeout_def)
    then show ?thesis using Cons.IH [where le = "Some err" and w = w1] by (simp only:)
  next
    case (Inr raw)
    with ex show ?thesis by (simp add: dnsUpstreamTimeout_def)
  qed
qed

text \<open>
  C34: The larger buffer is invisible to the client, whichever server answers. A client that used EDNS
  itself has its query relayed to the servers and the first answer returned, both untouched. For
  any other every server is asked with the buffer size on the query, and the client gets the first
  answer without its OPT records, every other record kept in order and the rest of the message as
  it was. If none answers, the failure is built from the query as the client sent it.
\<close>

theorem dns_edns_transparent:
  assumes "extra_ok lib"
  shows "case relay lib (if IsEdns0 lib r then r else SetEdns0 lib 4096 False r) (DNSServers (opts s)) w of
     (None, w1) \<Rightarrow> dns_handler lib s r w = (SetRcode lib r 2, w1)
   | (Some raw, w1) \<Rightarrow>
       (case dns_handler lib s r w of (msg, w2) \<Rightarrow> w2 = w1
          \<and> (if IsEdns0 lib r then msg = raw
             else Extra lib msg = filter (\<lambda>rr. Rrtype lib rr \<noteq> 41) (Extra lib raw)
               \<and> (\<forall>rrs. set_Extra lib rrs msg = set_Extra lib rrs raw)))"
proof -
  let ?q = "if IsEdns0 lib r then r else SetEdns0 lib 4096 False r"
  have q: "upstream_request lib r = ?q" by (simp add: upstream_request_def dnsUpstreamUDPSize_def)
  obtain res w1 where rl: "relay lib ?q (DNSServers (opts s)) w = (res, w1)" by (metis surj_pair)
  obtain t tw where t: "try_servers lib (IsEdns0 lib r) ?q (DNSServers (opts s)) None w = (t, tw)" by (metis surj_pair)
  note same = try_servers_relay [of lib "IsEdns0 lib r" ?q "DNSServers (opts s)" None w, unfolded rl t fst_conv snd_conv]
  show ?thesis
  proof (cases res)
    case None
    then obtain e where "try_servers lib (IsEdns0 lib r) ?q (DNSServers (opts s)) None w = (Inl e, w1)"
      using same t by auto
    then have "dns_handler lib s r w = (SetRcode lib r 2, w1)"
      by (simp add: dns_handler_def forwardDNS_def q RcodeServerFailure_def)
    with None show ?thesis by (simp only: rl prod.case option.case)
  next
    case (Some raw)
    then have "try_servers lib (IsEdns0 lib r) ?q (DNSServers (opts s)) None w
        = (Inr (if \<not> IsEdns0 lib r then strip_opt lib raw else raw), w1)"
      using same t by simp
    then have h: "dns_handler lib s r w = (if \<not> IsEdns0 lib r then strip_opt lib raw else raw, w1)"
      by (simp add: dns_handler_def forwardDNS_def q)
    have "Extra lib (strip_opt lib raw) = filter (\<lambda>rr. Rrtype lib rr \<noteq> 41) (Extra lib raw)"
      "\<forall>rrs. set_Extra lib rrs (strip_opt lib raw) = set_Extra lib rrs raw"
      using assms by (simp_all add: extra_ok_def strip_opt_def TypeOPT_def)
    with Some show ?thesis by (simp only: rl h prod.case option.case if_True if_False) simp
  qed
qed

text \<open>
  A library whose messages are lists of record types; the first server does not answer, the others
  answer with one OPT record.
\<close>

definition tiny_lib :: "(nat list, nat, unit) dns_lib" where
  "tiny_lib = \<lparr>IsEdns0 = (\<lambda>m. 41 \<in> set m), SetEdns0 = (\<lambda>n d m. m @ [41]),
     Exchange = (\<lambda>net t m srv w. (if srv = ''10.0.0.1:53'' then Inl (Msg ''timeout'') else Inr (m @ [28]), w)),
     Extra = (\<lambda>m. m), set_Extra = (\<lambda>rrs m. rrs), Rrtype = (\<lambda>rr. rr), SetRcode = (\<lambda>m c. [])\<rparr>"

theorem dns_edns_transparent_witness:
  "Extra tiny_lib (fst (dns_handler tiny_lib
     (sample_service\<lparr>opts := (opts sample_service)\<lparr>DNSServers := [''10.0.0.1'', ''10.0.0.2'']\<rparr>\<rparr>) [1] ())) = [1, 28]"
proof -
  have "extra_ok tiny_lib" by (simp add: extra_ok_def tiny_lib_def)
  from dns_edns_transparent [OF this, where r = "[1]" and w = "()" and
      s = "sample_service\<lparr>opts := (opts sample_service)\<lparr>DNSServers := [''10.0.0.1'', ''10.0.0.2'']\<rparr>\<rparr>"]
  show ?thesis by (simp add: tiny_lib_def JoinHostPort_def split: prod.splits)
qed

text \<open>
  The forwarder is marked as started only while it serves, it fails loudly when the port is
  taken, and an error of the server counts only while the context is alive: when it returns
  the mark is gone, and it returned an error exactly in these two cases.
\<close>

theorem startDNS_result:
  "case startDNS ready os ctx listen activate (s, w) of (err, s', w') \<Rightarrow>
     \<not> DNSStarted (status s')
     \<and> (err \<noteq> None \<longleftrightarrow> ready \<and>
          (fst (listen dnsListenAddr w) \<noteq> None
           \<or> fst (activate (dns_started True s, snd (listen dnsListenAddr w))) \<noteq> None
               \<and> \<not> os_ctx_err os ctx w'))"
  by (auto simp: startDNS_def dns_started_def split: prod.splits option.splits)

end
