(* ===== verification/System.thy ===== *)
theory System
  imports Steps Proxy Dns
begin

text \<open>
  \<open>Service.Start\<close>: the five goroutines of the error group over the one service, with the
  goroutines of the connections beside them. A step of the system is one access of one
  goroutine to the shared state, so every interleaving of them is a run. The proxy is the
  machine of \<open>Proxy\<close>; here its environment is the rest of the program.
\<close>

section \<open>The DNS goroutine\<close>

text \<open>
  Where \<open>startDNS\<close> stands: in its select, in \<open>ActivateAndServe\<close>, there with the listener closed by
  the goroutine that waits for the context, returned. The server returns without an error only
  after that goroutine has shut it down; an error of it counts only under a live context.
\<close>

datatype dns_pc = DnsWait | DnsServing | DnsClosed | DnsReturned "go_error option"

fun dns_running :: "dns_pc \<Rightarrow> bool" where
  "dns_running DnsServing = True"
| "dns_running DnsClosed = True"
| "dns_running _ = False"

inductive dns_step :: "bool \<Rightarrow> dns_pc \<times> service \<Rightarrow> dns_pc \<times> service \<Rightarrow> bool" for is_done where
  dns_cancelled: "is_done \<Longrightarrow> dns_step is_done (DnsWait, s) (DnsReturned None, dns_started False s)"
| dns_listen_failed: "ciscoReady s \<Longrightarrow>
    dns_step is_done (DnsWait, s) (DnsReturned (Some (Wrap ''dns listen: '' err [])), dns_started False s)"
| dns_listening: "ciscoReady s \<Longrightarrow> dns_step is_done (DnsWait, s) (DnsServing, dns_started True s)"
| dns_shutdown: "is_done \<Longrightarrow> dns_step is_done (DnsServing, s) (DnsClosed, s)"
| dns_stopped: "dns_step is_done (DnsClosed, s) (DnsReturned None, dns_started False s)"
| dns_broke: "is_done \<Longrightarrow> dns_step is_done (DnsServing, s) (DnsReturned None, dns_started False s)"
| dns_failed: "\<not> is_done \<Longrightarrow>
    dns_step is_done (DnsServing, s)
      (DnsReturned (Some (Wrap ''dns server error: '' err [])), dns_started False s)"

inductive_cases dns_stepE: "dns_step is_done (pc, s) (pc', s')"

text \<open>The sequential \<open>startDNS\<close> is a run of these steps: the first select, then the two writes of the mark.\<close>

lemma startDNS_steps:
  assumes "startDNS (ciscoReady s) os ctx listen (\<lambda>(s1, w1). (res, s1, w1)) (s, w) = (err, s', w')"
    and "if ciscoReady s then is_done = os_ctx_err os ctx w' else is_done"
    and "res = None \<Longrightarrow> is_done"
  shows "(dns_step is_done)\<^sup>*\<^sup>* (DnsWait, s) (DnsReturned err, s')"
proof (cases "ciscoReady s")
  case False
  with assms have "dns_step is_done (DnsWait, s) (DnsReturned err, s')"
    by (auto simp: startDNS_def intro: dns_step.intros)
  then show ?thesis by (rule r_into_rtranclp)
next
  case True
  show ?thesis
  proof (cases "fst (listen dnsListenAddr w)")
    case (Some e)
    with True assms(1) have "err = Some (Wrap ''dns listen: '' e [])" "s' = dns_started False s"
      by (auto simp: startDNS_def split: prod.splits)
    with True show ?thesis by (auto intro: r_into_rtranclp dns_step.intros)
  next
    case None
    have "dns_step is_done (DnsWait, s) (DnsServing, dns_started True s)"
      using True by (rule dns_step.dns_listening)
    moreover have "dns_step is_done (DnsServing, dns_started True s) (DnsReturned err, s')"
      using True None assms
      by (auto simp: startDNS_def intro: dns_step.intros split: prod.splits option.splits if_splits)
    ultimately show ?thesis by (meson converse_rtranclp_into_rtranclp r_into_rtranclp)
  qed
qed

section \<open>State\<close>

text \<open>
  The proxy holds the service. \<open>in_flight\<close> are the discovery hooks of connections that have read
  the status or looked their peer up and not recorded it yet; \<open>start_err\<close> is the error the group keeps; \<open>signalled\<close>
  observes whether the context of the program was cancelled from outside.
\<close>

record 'w sys =
  px :: proxy_sys
  sup_at :: sup_pc
  supv :: ciscoSupervisor
  pin_at :: pin_pc
  sniff_at :: sniff_pc
  dns_at :: dns_pc
  in_flight :: "hook_pc list"
  world :: 'w
  start_err :: "go_error option"
  signalled :: bool
  panicked :: bool

abbreviation shared :: "'w sys \<Rightarrow> service" where "shared y \<equiv> psvc (px y)"

definition Start :: "Options \<Rightarrow> 'w \<Rightarrow> 'w sys" where
  "Start o1 w = \<lparr>px = startProxy (New o1), sup_at = SupSleep 0, supv = new_supervisor,
     pin_at = PinWait, sniff_at = SniffStart, dns_at = DnsWait, in_flight = [], world = w,
     start_err = None, signalled = False, panicked = False\<rparr>"

definition cancel_group :: "proxy_sys \<Rightarrow> proxy_sys" where
  "cancel_group p = p\<lparr>parent_done := True, lan := (lan p)\<lparr>ctx_done := True\<rparr>\<rparr>"

text \<open>A goroutine of the group has returned: the first error is kept and cancels the others.\<close>

definition start_return :: "go_error option \<Rightarrow> 'w sys \<Rightarrow> 'w sys" where
  "start_return r y =
     (case r of
        None \<Rightarrow> y
      | Some e \<Rightarrow>
          y\<lparr>start_err := (if start_err y = None then Some e else start_err y), px := cancel_group (px y)\<rparr>)"

text \<open>
  The supervisor's write of the LAN and the check it sends afterwards, as \<open>Lan_Listener\<close> sees
  them; every other access leaves the observation \<open>notify_due\<close> alone.
\<close>

definition sup_put :: "sup_pc \<Rightarrow> service \<Rightarrow> proxy_sys \<Rightarrow> proxy_sys" where
  "sup_put pc s p =
     (if main p \<noteq> Serving then with_svc s p
      else case pc of
        SupWrite _ _ _ \<Rightarrow> p\<lparr>lan := (lan p)\<lparr>svc := s, notify_due := True\<rparr>\<rparr>
      | SupNotify \<Rightarrow> p\<lparr>lan := (lan p)\<lparr>svc := s, notify_due := False\<rparr>\<rparr>
      | _ \<Rightarrow> with_svc s p)"

fun proxy_error :: "proxy_pc \<Rightarrow> go_error option" where
  "proxy_error (ProxyReturned r) = r"
| "proxy_error _ = None"

fun dns_error :: "dns_pc \<Rightarrow> go_error option" where
  "dns_error (DnsReturned r) = r"
| "dns_error _ = None"

text \<open>\<open>Wait\<close> returns once all five have.\<close>

definition all_returned :: "'w sys \<Rightarrow> bool" where
  "all_returned y \<longleftrightarrow> sup_at y = SupReturned \<and> (\<exists>r. main (px y) = ProxyReturned r)
     \<and> (\<exists>r. dns_at y = DnsReturned r) \<and> pin_at y = PinReturned \<and> sniff_at y = SniffReturned"

section \<open>Transitions\<close>

inductive sys_step :: "'w os \<Rightarrow> go_ctx \<Rightarrow> 'w pinOps \<Rightarrow> 'w sys \<Rightarrow> 'w sys \<Rightarrow> bool" for os ctx ops where
  sup_wake: "sup_at y = SupSleep d \<Longrightarrow> sys_step os ctx ops y (y\<lparr>sup_at := SupTick\<rparr>)"
| sup_stop: "sup_at y = SupSleep d \<Longrightarrow> parent_done (px y) \<Longrightarrow>
    shutdown os ctx (supv y, shared y, world y) = (s, w) \<Longrightarrow>
    sys_step os ctx ops y (y\<lparr>sup_at := SupReturned, px := with_svc s (px y), world := w\<rparr>)"
| sup_work: "sup_stage os ctx (sup_at y, supv y, shared y, world y) = Some (pc, sv, s, w) \<Longrightarrow>
    sys_step os ctx ops y (y\<lparr>sup_at := pc, supv := sv, px := sup_put (sup_at y) s (px y), world := w\<rparr>)"
| sup_panic: "sup_stage os ctx (sup_at y, supv y, shared y, world y) = None \<Longrightarrow>
    sys_step os ctx ops y (y\<lparr>panicked := True\<rparr>)"
| proxy: "(\<forall>r. main (px y) \<noteq> ProxyReturned r) \<Longrightarrow> proxy_own (px y) p \<Longrightarrow>
    sys_step os ctx ops y (start_return (proxy_error (main p)) (y\<lparr>px := p\<rparr>))"
| dns: "dns_step (parent_done (px y)) (dns_at y, shared y) (pc, s) \<Longrightarrow>
    sys_step os ctx ops y (start_return (dns_error pc) (y\<lparr>dns_at := pc, px := with_svc s (px y)\<rparr>))"
| pin_ready: "pin_at y = PinWait \<Longrightarrow> ciscoReady (shared y) \<Longrightarrow>
    sys_step os ctx ops y (y\<lparr>pin_at := PinSleep 0\<rparr>)"
| pin_cancelled: "pin_at y = PinWait \<Longrightarrow> parent_done (px y) \<Longrightarrow>
    sys_step os ctx ops y (y\<lparr>pin_at := PinReturned\<rparr>)"
| pin_wake: "pin_at y = PinSleep le \<Longrightarrow> sys_step os ctx ops y (y\<lparr>pin_at := PinTick le\<rparr>)"
| pin_stop: "pin_at y = PinSleep le \<Longrightarrow> parent_done (px y) \<Longrightarrow>
    sys_step os ctx ops y (y\<lparr>pin_at := PinReturned\<rparr>)"
| pin_work: "pin_stage (os_now os) ops (pin_at y, shared y, world y) = (pc, s, w) \<Longrightarrow>
    sys_step os ctx ops y (y\<lparr>pin_at := pc, px := with_svc s (px y), world := w\<rparr>)"
| sniff: "sniff_step os ctx ops (parent_done (px y)) (sniff_at y, shared y, world y) (pc, s, w) \<Longrightarrow>
    sys_step os ctx ops y (y\<lparr>sniff_at := pc, px := with_svc s (px y), world := w\<rparr>)"
| hook: "discoveryEnabled (shared y) \<Longrightarrow>
    sys_step os ctx ops y (y\<lparr>in_flight := hook_state c (shared y) @ in_flight y\<rparr>)"
| hook_work: "in_flight y = hs1 @ h # hs2 \<Longrightarrow> hook_stage (os_now os) ops h (shared y, world y) = (next, s, w) \<Longrightarrow>
    sys_step os ctx ops y (y\<lparr>in_flight := hs1 @ next @ hs2, px := with_svc s (px y), world := w\<rparr>)"
| conn_ends: "sys_step os ctx ops y
    (y\<lparr>px := with_svc ((shared y)\<lparr>conns := conns_remove c (conns (shared y))\<rparr>) (px y)\<rparr>)"
| signal: "sys_step os ctx ops y (y\<lparr>px := cancel_group (px y), signalled := True\<rparr>)"
| loopback_closed: "main (px y) = Serving \<Longrightarrow>
    sys_step os ctx ops y (y\<lparr>px := (px y)\<lparr>loop_open := False, loop_ext := True\<rparr>\<rparr>)"
| lan_closed: "main (px y) = Serving \<Longrightarrow> i < length (listeners (lan (px y))) \<Longrightarrow>
    sys_step os ctx ops y (y\<lparr>px := (px y)\<lparr>lan := (lan (px y))
      \<lparr>listeners := (listeners (lan (px y)))[i := (listeners (lan (px y)) ! i)\<lparr>l_open := False\<rparr>],
       ext_closed := True\<rparr>\<rparr>\<rparr>)"

inductive_cases sys_stepE: "sys_step os ctx ops y y'"

inductive sys_reach :: "'w os \<Rightarrow> go_ctx \<Rightarrow> 'w pinOps \<Rightarrow> Options \<Rightarrow> 'w sys \<Rightarrow> bool" for os ctx ops o1 where
  start: "sys_reach os ctx ops o1 (Start o1 w)"
| step: "sys_reach os ctx ops o1 y \<Longrightarrow> sys_step os ctx ops y y' \<Longrightarrow> sys_reach os ctx ops o1 y'"

section \<open>The proxy in its environment\<close>

text \<open>
  The theorems on the proxy and on the LAN listener assume an environment. These lemmas show that
  the rest of the program is one: each of its accesses is a step those machines allow.
\<close>

lemma cancel_group_simps [simp]:
  "psvc (cancel_group p) = psvc p" "main (cancel_group p) = main p" "parent_done (cancel_group p)"
  by (simp_all add: cancel_group_def)

lemma cancel_group_step: "proxy_step p (cancel_group p)"
  unfolding cancel_group_def by (rule proxy_step.cancel)

lemma px_env:
  assumes "proxy_inv p" and "main p = Serving" and "lan_step lan_addr (lan p) y"
    and "serve_at y = serve_at (lan p)" and "ctx_done y = ctx_done (lan p)" and "proxy_frame (psvc p) (svc y)"
  shows "proxy_step p (p\<lparr>lan := y\<rparr>)"
proof -
  have self: "y\<lparr>ctx_done := True\<rparr> = y" if "ctx_done y" using that by simp
  have "group_return (case serve_at y of Finished r \<Rightarrow> r | _ \<Rightarrow> None) (p\<lparr>lan := y\<rparr>) = p\<lparr>lan := y\<rparr>"
    using assms(1,2,4,5) self
    by (auto simp: group_return_def proxy_inv_def split: serve_pc.splits option.splits)
  with proxy_step.lan_step [OF assms(2,3,5,6)] show ?thesis by simp
qed

lemma px_wf: "proxy_inv p \<Longrightarrow> gm_wf (conns (psvc p))"
  by (cases "main p = Serving") (auto simp: proxy_inv_def dest: lan_runs_wf)

lemma px_quiet:
  assumes "proxy_inv p" and "lan_quiet (psvc p) s" and "proxy_frame (psvc p) s"
    and "main p \<noteq> Serving \<longrightarrow> conns s = conns (psvc p)"
  shows "proxy_step p (with_svc s p)"
proof (cases "main p = Serving")
  case True
  have "proxy_step p (p\<lparr>lan := (lan p)\<lparr>svc := s\<rparr>\<rparr>)"
    by (rule px_env [OF assms(1) True lan_step.env_other [OF assms(2)]]) (simp_all add: assms(3))
  then show ?thesis by (simp add: with_svc_def)
next
  case False
  with assms show ?thesis by (intro proxy_step.others) simp_all
qed

lemma px_keeps_conns:
  assumes "proxy_inv p" and "conns s = conns (psvc p)" and "lan_snapshot s = lan_snapshot (psvc p)"
    and "lanCheck s = lanCheck (psvc p)" and "ProxyStarted (status s) = ProxyStarted (status (psvc p))"
    and "ciscoReady (psvc p) \<longrightarrow> ciscoReady s"
  shows "proxy_step p (with_svc s p)"
  using assms px_wf [OF assms(1)]
  by (intro px_quiet) (simp_all add: lan_quiet_def proxy_frame_def)

lemma px_clients: "proxy_inv p \<Longrightarrow> proxy_step p (with_svc ((psvc p)\<lparr>clients := r\<rparr>) p)"
  by (rule px_keeps_conns) (simp_all add: lan_snapshot_def GetState_def)

lemma px_conn_ends:
  assumes "proxy_inv p"
  shows "proxy_step p (with_svc ((psvc p)\<lparr>conns := conns_remove c (conns (psvc p))\<rparr>) p)"
proof (rule px_quiet [OF assms])
  have wf: "gm_wf (conns (psvc p))" by (rule px_wf [OF assms])
  have get: "gm_get (conns_remove c (conns (psvc p))) d = (if d = c then None else gm_get (conns (psvc p)) d)" for d
    using wf by (simp add: conns_remove_def)
  show "lan_quiet (psvc p) ((psvc p)\<lparr>conns := conns_remove c (conns (psvc p))\<rparr>)"
    using conns_wf(2) [OF wf] by (simp add: lan_quiet_def get lan_snapshot_def GetState_def)
  show "proxy_frame (psvc p) ((psvc p)\<lparr>conns := conns_remove c (conns (psvc p))\<rparr>)"
    by (simp add: proxy_frame_def get)
  show "main p \<noteq> Serving \<longrightarrow> conns ((psvc p)\<lparr>conns := conns_remove c (conns (psvc p))\<rparr>) = conns (psvc p)"
    using assms by (simp add: proxy_inv_def conns_remove_def gm_del_def)
qed

lemma px_supervisor:
  assumes inv: "proxy_inv p" and fr: "sup_frame pc (psvc p) s"
  shows "proxy_step p (sup_put pc s p)"
proof -
  have only: "proxy_step p (with_svc s p)" if "status_only (psvc p) s"
    using that by (intro px_keeps_conns [OF inv]) (simp_all add: status_only_def)
  show ?thesis
  proof (cases "main p = Serving")
    case False
    then have c: "conns (psvc p) = []" using inv by (simp add: proxy_inv_def)
    have "proxy_step p (with_svc s p)"
      using False c fr
      by (cases pc) (auto simp: sup_frame_def proxy_frame_def status_only_def intro!: proxy_step.others)
    with False show ?thesis by (simp add: sup_put_def)
  next
    case True
    show ?thesis
    proof (cases pc)
      case (SupReset q a i)
      with fr True px_clients [OF inv, of "resetNetwork (clients (psvc p))"] show ?thesis
        by (simp add: sup_frame_def sup_put_def)
    next
      case (SupWrite q a i)
      let ?y = "(lan p)\<lparr>svc := (psvc p)\<lparr>clients := clients (psvc p), status := with_lan q a i (status (psvc p))\<rparr>,
        notify_due := True\<rparr>"
      have "proxy_step p (p\<lparr>lan := ?y\<rparr>)"
        by (rule px_env [OF inv True lan_step.env_lan]) (simp_all add: proxy_frame_def)
      with SupWrite fr True show ?thesis by (simp add: sup_frame_def sup_put_def)
    next
      case SupNotify
      have "proxy_step p (p\<lparr>lan := (lan p)\<lparr>svc := notifyLANCheck (psvc p), notify_due := False\<rparr>\<rparr>)"
      proof (cases "notify_due (lan p)")
        case True': True
        show ?thesis
          by (rule px_env [OF inv True lan_step.env_notify [OF True']]) (simp_all add: proxy_frame_def)
      next
        case False
        have "lan_quiet (psvc p) (notifyLANCheck (psvc p))"
          using px_wf [OF inv] by (simp add: lan_quiet_def lan_snapshot_def GetState_def)
        then have "proxy_step p (p\<lparr>lan := (lan p)\<lparr>svc := notifyLANCheck (psvc p)\<rparr>\<rparr>)"
          by (intro px_env [OF inv True lan_step.env_other]) (simp_all add: proxy_frame_def)
        moreover have "(lan p)\<lparr>svc := notifyLANCheck (psvc p), notify_due := False\<rparr>
            = (lan p)\<lparr>svc := notifyLANCheck (psvc p)\<rparr>"
          using False by (cases "lan p") simp
        ultimately show ?thesis by simp
      qed
      with SupNotify fr True show ?thesis by (simp add: sup_frame_def sup_put_def)
    qed (use fr True only in \<open>simp_all add: sup_frame_def sup_put_def\<close>)
  qed
qed

lemma px_lan_closed:
  assumes "proxy_inv p" and "main p = Serving" and "i < length (listeners (lan p))"
  shows "proxy_step p (p\<lparr>lan := (lan p)\<lparr>listeners := (listeners (lan p))
     [i := (listeners (lan p) ! i)\<lparr>l_open := False\<rparr>], ext_closed := True\<rparr>\<rparr>)"
  by (rule px_env [OF assms(1,2) lan_step.env_close [OF assms(3)]]) (simp_all add: proxy_frame_def)

end
