(* ===== verification/System_Safety.thy ===== *)
theory System_Safety
  imports System
begin

text \<open>
  What holds in every reachable state of the whole service: the invariant of the system, one
  lemma per goroutine that keeps it, the refinement of the proxy's machine by the system, and
  a run of the sample configuration up to the serving proxy.
\<close>

section \<open>The invariant\<close>

text \<open>What the goroutines other than the supervisor leave of the service as it is.\<close>

definition peer_frame :: "service \<Rightarrow> service \<Rightarrow> bool" where
  "peer_frame s s' \<longleftrightarrow> opts s' = opts s \<and> ciscoReady s' = ciscoReady s
     \<and> (reg_wf (clients s) \<longrightarrow> reg_wf (clients s') \<and> static_ips (clients s') = static_ips (clients s))
     \<and> (\<exists>a b. status s' = (status s)\<lparr>ProxyStarted := a, DNSStarted := b\<rparr>)"

lemma lan_ok_marks [simp]: "lan_ok (st\<lparr>ProxyStarted := a, DNSStarted := b\<rparr>) = lan_ok st"
  by (simp add: lan_ok_def)

lemma peer_status:
  assumes "status s' = (status s)\<lparr>ProxyStarted := a, DNSStarted := b\<rparr>"
  shows "status_ok (status s') = status_ok (status s)" "LANSubnet (status s') = LANSubnet (status s)"
    "LANInterface (status s') = LANInterface (status s)" "CiscoConnected (status s') = CiscoConnected (status s)"
  by (simp_all add: assms status_ok_def)

lemma sup_safe_peer:
  assumes "sup_safe pc sv s" and "peer_frame s s'"
  shows "sup_safe pc sv s'"
proof -
  obtain a b where st: "status s' = (status s)\<lparr>ProxyStarted := a, DNSStarted := b\<rparr>"
    using assms(2) by (auto simp: peer_frame_def)
  note eq = peer_status [OF st]
  have "sup_inv sv s'"
    using assms by (simp add: sup_safe_def sup_inv_def peer_frame_def eq(1))
  moreover have "sup_ok pc sv s'"
    using assms(1) by (cases pc) (simp_all add: sup_safe_def eq(2-4))
  ultimately show ?thesis
    using assms by (simp add: sup_safe_def peer_frame_def eq(4))
qed

fun pin_running :: "pin_pc \<Rightarrow> bool" where
  "pin_running PinWait = False"
| "pin_running PinReturned = False"
| "pin_running _ = True"

definition ended_quietly :: "sup_pc \<Rightarrow> pin_pc \<Rightarrow> dns_pc \<Rightarrow> bool" where
  "ended_quietly sp pp dp \<longleftrightarrow> sp = SupReturned \<or> pp = PinReturned \<or> dp = DnsClosed \<or> dp = DnsReturned None"

lemma ended_quietly_changes:
  "sp' \<noteq> SupReturned \<or> sp = SupReturned \<Longrightarrow> ended_quietly sp' pp dp \<Longrightarrow> ended_quietly sp pp dp"
  "pp' \<noteq> PinReturned \<or> pp = PinReturned \<Longrightarrow> ended_quietly sp pp' dp \<Longrightarrow> ended_quietly sp pp dp"
  by (auto simp: ended_quietly_def)

text \<open>
  The group: its context is done exactly when a signal or an error has come; the error it keeps
  is that of a goroutine that has returned it; and the goroutines that return without an error do so
  only under a done context.
\<close>

definition group_inv :: "'w sys \<Rightarrow> bool" where
  "group_inv y \<longleftrightarrow> parent_done (px y) = (signalled y \<or> start_err y \<noteq> None)
     \<and> (proxy_error (main (px y)) \<noteq> None \<or> dns_error (dns_at y) \<noteq> None \<longrightarrow> start_err y \<noteq> None)
     \<and> (\<forall>e. start_err y = Some e \<longrightarrow> proxy_error (main (px y)) = Some e \<or> dns_error (dns_at y) = Some e)
     \<and> (ended_quietly (sup_at y) (pin_at y) (dns_at y) \<longrightarrow> parent_done (px y))"

definition svc_inv :: "Options \<Rightarrow> 'w sys \<Rightarrow> bool" where
  "svc_inv o1 y \<longleftrightarrow> sup_safe (sup_at y) (supv y) (shared y)
     \<and> opts (shared y) = o1 \<and> static_ips (clients (shared y)) = lc_ip ` set (LANClients o1)
     \<and> DNSStarted (status (shared y)) = dns_running (dns_at y)
     \<and> pin_ok (pin_at y) \<and> sniff_ok (sniff_at y) \<and> list_all hook_ok (in_flight y)
     \<and> (dns_running (dns_at y) \<or> pin_running (pin_at y) \<longrightarrow> ciscoReady (shared y))"

definition sys_inv :: "Options \<Rightarrow> 'w sys \<Rightarrow> bool" where
  "sys_inv o1 y \<longleftrightarrow> \<not> panicked y \<and> svc_inv o1 y \<and> group_inv y \<and> proxy_inv (px y)"

lemma sys_inv_start: "sys_inv o1 (Start o1 w)"
proof -
  have "sup_safe (SupSleep 0) new_supervisor (New o1)"
    using sup_inv_start [of "New o1"]
    by (simp add: sup_safe_def New_def status_ok_none reg_wf_new) (simp add: zero_State_def)
  moreover have "proxy_inv (startProxy (New o1))"
    by (rule proxy_inv_start) (simp_all add: New_def newConnTracker_def zero_State_def)
  ultimately show ?thesis
    by (simp add: sys_inv_def svc_inv_def group_inv_def ended_quietly_def Start_def startProxy_def serveLAN_start_def)
      (simp add: New_def static_ips_new zero_State_def)
qed

text \<open>An access of a goroutine other than the supervisor, by its effect on the service.\<close>

lemma svc_inv_peer:
  assumes "svc_inv o1 y" and "peer_frame (shared y) (shared y')"
    and same: "sup_at y' = sup_at y" "supv y' = supv y" "dns_at y' = dns_at y"
      "DNSStarted (status (shared y')) = DNSStarted (status (shared y))"
    and "list_all hook_ok (in_flight y')"
    and "pin_ok (pin_at y')" and "sniff_ok (sniff_at y')"
    and "pin_running (pin_at y') \<longrightarrow> ciscoReady (shared y)"
  shows "svc_inv o1 y'"
proof -
  have safe: "sup_safe (sup_at y') (supv y') (shared y')"
    using sup_safe_peer [OF _ assms(2), of "sup_at y" "supv y"] assms(1) same by (simp add: svc_inv_def)
  have wf: "reg_wf (clients (shared y))"
    using assms(1) by (simp add: svc_inv_def sup_safe_def sup_inv_def)
  have fr: "opts (shared y') = opts (shared y)" "ciscoReady (shared y') = ciscoReady (shared y)"
    "static_ips (clients (shared y')) = static_ips (clients (shared y))"
    using assms(2) wf by (simp_all add: peer_frame_def)
  show ?thesis
    using assms(1,7-10) safe unfolding svc_inv_def fr same by auto
qed

lemma status_marks: "\<exists>a b. st = st\<lparr>ProxyStarted := a, DNSStarted := b\<rparr>"
  by (rule exI [of _ "ProxyStarted st"], rule exI [of _ "DNSStarted st"]) simp

lemma peer_frame_refl [simp]: "peer_frame s s"
  using status_marks by (simp add: peer_frame_def)

lemma peer_clients:
  "(reg_wf (clients s) \<Longrightarrow> reg_wf r \<and> static_ips r = static_ips (clients s)) \<Longrightarrow> peer_frame s (s\<lparr>clients := r\<rparr>)"
  using status_marks by (simp add: peer_frame_def)

lemma peer_conns: "peer_frame s (s\<lparr>conns := ct\<rparr>)"
  using status_marks by (simp add: peer_frame_def)

lemma peer_dns: "peer_frame s (dns_started b s)"
proof -
  have "\<exists>a b'. (status s)\<lparr>DNSStarted := b\<rparr> = (status s)\<lparr>ProxyStarted := a, DNSStarted := b'\<rparr>"
    by (rule exI [of _ "ProxyStarted (status s)"], rule exI [of _ b]) simp
  then show ?thesis by (simp add: peer_frame_def dns_started_def)
qed

lemma peer_own:
  assumes "own_svc s s'"
  shows "peer_frame s s' \<and> DNSStarted (status s') = DNSStarted (status s)"
proof -
  obtain a where st: "status s' = (status s)\<lparr>ProxyStarted := a\<rparr>" using assms by (auto simp: own_svc_def)
  have "\<exists>a' b. (status s)\<lparr>ProxyStarted := a\<rparr> = (status s)\<lparr>ProxyStarted := a', DNSStarted := b\<rparr>"
    by (rule exI [of _ a], rule exI [of _ "DNSStarted (status s)"]) simp
  then show ?thesis
    using assms by (simp add: peer_frame_def st) (simp add: own_svc_def)
qed

section \<open>Every step keeps it\<close>

lemma sys_invD:
  assumes "sys_inv o1 y"
  shows "\<not> panicked y" "svc_inv o1 y" "group_inv y" "proxy_inv (px y)"
    "sup_safe (sup_at y) (supv y) (shared y)" "reg_wf (clients (shared y))"
  using assms by (simp_all add: sys_inv_def svc_inv_def sup_safe_def sup_inv_def)

lemma inv_start_return:
  assumes "\<not> panicked y" and "svc_inv o1 y" and "proxy_inv (px y)"
    and "parent_done (px y) = (signalled y \<or> start_err y \<noteq> None)"
    and "proxy_error (main (px y)) \<noteq> None \<or> dns_error (dns_at y) \<noteq> None \<longrightarrow> start_err y \<noteq> None \<or> r \<noteq> None"
    and "\<forall>e. start_err y = Some e \<or> r = Some e \<longrightarrow> proxy_error (main (px y)) = Some e \<or> dns_error (dns_at y) = Some e"
    and "ended_quietly (sup_at y) (pin_at y) (dns_at y) \<longrightarrow> parent_done (px y)"
  shows "sys_inv o1 (start_return r y)"
proof (cases r)
  case None
  with assms show ?thesis by (simp add: sys_inv_def group_inv_def start_return_def)
next
  case (Some e)
  have "proxy_inv (cancel_group (px y))"
    using assms(3) by (rule proxy_step_inv [OF cancel_group_step])
  with assms Some show ?thesis
    by (simp add: sys_inv_def group_inv_def svc_inv_def start_return_def)
qed

lemma sup_put_simps [simp]:
  "psvc (sup_put pc s p) = s" "main (sup_put pc s p) = main p" "parent_done (sup_put pc s p) = parent_done p"
  by (simp_all add: sup_put_def split: sup_pc.split)

lemma sup_stage_returned: "sup_stage os ctx (pc, st) = Some (SupReturned, st') \<Longrightarrow> pc = SupReturned"
  by (cases "(os, ctx, (pc, st))" rule: sup_stage.cases)
    (auto simp: sup_detect_def sup_switch_def Let_def split: prod.splits sum.splits if_splits)

lemma sup_frame_peers:
  assumes "sup_frame pc s s'" and "reg_wf (clients s)"
  shows "opts s' = opts s" "static_ips (clients s') = static_ips (clients s)"
    "DNSStarted (status s') = DNSStarted (status s)" "ciscoReady s \<longrightarrow> ciscoReady s'"
proof -
  have "static_ips (resetNetwork (clients s)) = static_ips (clients s)"
    using reg_step_static [of "clients s" ResetNetwork] assms(2) by (simp add: reg_wf_def)
  then show "opts s' = opts s" "static_ips (clients s') = static_ips (clients s)"
    "DNSStarted (status s') = DNSStarted (status s)" "ciscoReady s \<longrightarrow> ciscoReady s'"
    using assms(1) by (auto simp: sup_frame_def status_only_def split: sup_pc.splits)
qed

lemma inv_sup_work:
  assumes "sys_inv o1 y" and "sup_stage os ctx (sup_at y, supv y, shared y, world y) = Some (pc, sv, s, w)"
  shows "sys_inv o1 (y\<lparr>sup_at := pc, supv := sv, px := sup_put (sup_at y) s (px y), world := w\<rparr>)
     \<and> proxy_step (px y) (sup_put (sup_at y) s (px y))"
proof -
  note inv = sys_invD [OF assms(1)]
  obtain pc' sv' s' w' where st: "sup_stage os ctx (sup_at y, supv y, shared y, world y) = Some (pc', sv', s', w')"
    "sup_safe pc' sv' s'" "sup_frame (sup_at y) (shared y) s'"
    by (rule sup_stage_safe [OF inv(5)])
  with assms(2) have safe: "sup_safe pc sv s" and fr: "sup_frame (sup_at y) (shared y) s" by simp_all
  have step: "proxy_step (px y) (sup_put (sup_at y) s (px y))" by (rule px_supervisor [OF inv(4) fr])
  have "pc = SupReturned \<longrightarrow> sup_at y = SupReturned" using assms(2) by (auto dest: sup_stage_returned)
  then have "ended_quietly pc (pin_at y) (dns_at y) \<longrightarrow> parent_done (px y)"
    using ended_quietly_changes(1) inv(3) by (auto simp: group_inv_def)
  with inv(1-3) safe sup_frame_peers [OF fr inv(6)] proxy_step_inv [OF step inv(4)] step
  show ?thesis by (auto simp: sys_inv_def svc_inv_def group_inv_def)
qed

lemma inv_sup_stop:
  assumes "sys_inv o1 y" and "sup_at y = SupSleep d" and "parent_done (px y)"
    and "shutdown os ctx (supv y, shared y, world y) = (s, w)"
  shows "sys_inv o1 (y\<lparr>sup_at := SupReturned, px := with_svc s (px y), world := w\<rparr>)
     \<and> proxy_step (px y) (with_svc s (px y))"
proof -
  note inv = sys_invD [OF assms(1)]
  have s: "s = setConnected False (shared y)"
    using assms(4) by (auto simp: shutdown_def Let_def split: if_splits)
  have step: "proxy_step (px y) (with_svc s (px y))"
    unfolding s by (rule px_keeps_conns [OF inv(4)]) (simp_all add: lan_snapshot_def GetState_def)
  have "sup_safe SupReturned (supv y) s"
    using inv(5) by (auto simp: s sup_safe_def intro: sup_inv_setConnected)
  with inv(1-3) assms(2,3) s proxy_step_inv [OF step inv(4)] step show ?thesis
    by (auto simp: sys_inv_def svc_inv_def group_inv_def)
qed

lemma inv_proxy:
  assumes "sys_inv o1 y" and "\<forall>r. main (px y) \<noteq> ProxyReturned r" and "proxy_own (px y) p"
  shows "sys_inv o1 (start_return (proxy_error (main p)) (y\<lparr>px := p\<rparr>))"
proof -
  note inv = sys_invD [OF assms(1)]
  have own: "own_svc (shared y) (psvc p)" "parent_done p = parent_done (px y)" "proxy_inv p"
    using assms(3) proxy_step_inv [OF proxy_own_step inv(4)] by (simp_all add: proxy_own_def)
  note peer = peer_own [OF own(1)]
  have svc: "svc_inv o1 (y\<lparr>px := p\<rparr>)"
    using inv(2) peer by (intro svc_inv_peer [OF inv(2)]) (simp_all add: svc_inv_def)
  have "proxy_error (main (px y)) = None" using assms(2) by (cases "main (px y)") simp_all
  with inv(1,3) svc own show ?thesis
    by (intro inv_start_return) (auto simp: group_inv_def)
qed

lemma dns_step_keeps:
  assumes "dns_step d (pc0, s0) (pc, s)" and "DNSStarted (status s0) = dns_running pc0"
    and "dns_running pc0 \<longrightarrow> ciscoReady s0" and "pc0 = DnsClosed \<longrightarrow> d"
  shows "DNSStarted (status s) = dns_running pc" and "dns_running pc \<longrightarrow> ciscoReady s0"
    and "dns_error pc0 = None" and "pc = DnsClosed \<or> pc = DnsReturned None \<longrightarrow> d"
    and "s = s0 \<or> (\<exists>b. s = dns_started b s0)"
proof -
  have "DNSStarted (status s) = dns_running pc \<and> (dns_running pc \<longrightarrow> ciscoReady s0) \<and> dns_error pc0 = None
      \<and> (pc = DnsClosed \<or> pc = DnsReturned None \<longrightarrow> d) \<and> (s = s0 \<or> (\<exists>b. s = dns_started b s0))"
    using assms(1)
  proof cases
    case dns_shutdown
    with assms(2,3) show ?thesis by simp
  next
    case dns_stopped
    with assms(4) show ?thesis by (auto simp: dns_started_def)
  qed (auto simp: dns_started_def)
  then show "DNSStarted (status s) = dns_running pc" "dns_running pc \<longrightarrow> ciscoReady s0" "dns_error pc0 = None"
    "pc = DnsClosed \<or> pc = DnsReturned None \<longrightarrow> d" "s = s0 \<or> (\<exists>b. s = dns_started b s0)" by blast+
qed

lemma inv_dns:
  assumes "sys_inv o1 y" and "dns_step (parent_done (px y)) (dns_at y, shared y) (pc, s)"
  shows "sys_inv o1 (start_return (dns_error pc) (y\<lparr>dns_at := pc, px := with_svc s (px y)\<rparr>))
     \<and> proxy_step (px y) (with_svc s (px y))"
proof -
  note inv = sys_invD [OF assms(1)]
  have self: "shared y = dns_started (DNSStarted (status (shared y))) (shared y)" by (simp add: dns_started_def)
  have dns: "DNSStarted (status (shared y)) = dns_running (dns_at y)"
    "dns_running (dns_at y) \<longrightarrow> ciscoReady (shared y)" "dns_at y = DnsClosed \<longrightarrow> parent_done (px y)"
    using inv(2,3) by (auto simp: svc_inv_def group_inv_def ended_quietly_def)
  note keeps = dns_step_keeps [OF assms(2) dns]
  obtain b where s: "s = dns_started b (shared y)" using keeps(5) self by metis
  have step: "proxy_step (px y) (with_svc s (px y))"
    unfolding s by (rule px_keeps_conns [OF inv(4)]) (simp_all add: dns_started_def lan_snapshot_def GetState_def)
  have "sup_safe (sup_at y) (supv y) s"
    using sup_safe_peer [OF inv(5) peer_dns] s by simp
  then have "svc_inv o1 (y\<lparr>dns_at := pc, px := with_svc s (px y)\<rparr>)"
    using inv(2) keeps(1,2) s by (auto simp: svc_inv_def dns_started_def)
  moreover have "ended_quietly (sup_at y) (pin_at y) pc \<longrightarrow> parent_done (px y)"
    using keeps(4) inv(3) by (auto simp: group_inv_def ended_quietly_def)
  ultimately show ?thesis
    using inv(1,3) keeps(3) proxy_step_inv [OF step inv(4)] step
    by (auto intro!: inv_start_return simp: group_inv_def)
qed

text \<open>Accesses of the pinner, the sniffer and the connections: to the registry and the tracker.\<close>

lemma inv_peer:
  assumes "sys_inv o1 y" and "peer_frame (shared y) s" and "DNSStarted (status s) = DNSStarted (status (shared y))"
    and "proxy_step (px y) (with_svc s (px y))"
    and same: "px y' = with_svc s (px y)" "sup_at y' = sup_at y" "supv y' = supv y" "dns_at y' = dns_at y"
      "start_err y' = start_err y" "signalled y' = signalled y" "panicked y' = panicked y"
    and "list_all hook_ok (in_flight y')" and "pin_ok (pin_at y')" and "sniff_ok (sniff_at y')"
    and "pin_running (pin_at y') \<longrightarrow> ciscoReady (shared y)"
    and "pin_at y' = PinReturned \<longrightarrow> pin_at y = PinReturned"
  shows "sys_inv o1 y'"
proof -
  note inv = sys_invD [OF assms(1)]
  have "svc_inv o1 y'"
    by (rule svc_inv_peer [OF inv(2)]) (use assms in simp_all)
  moreover have "ended_quietly (sup_at y') (pin_at y') (dns_at y') \<longrightarrow> parent_done (px y)"
    using ended_quietly_changes(2) assms(16) inv(3) same by (auto simp: group_inv_def)
  ultimately show ?thesis using inv(1,3) assms(11) same proxy_step_inv [OF assms(4) inv(4)]
    by (auto simp: sys_inv_def group_inv_def)
qed

lemma inv_pin:
  assumes "sys_inv o1 y" and "arp_sound ops"
    and "pin_stage (os_now os) ops (pin_at y, shared y, world y) = (pc, s, w)"
  shows "sys_inv o1 (y\<lparr>pin_at := pc, px := with_svc s (px y), world := w\<rparr>)
     \<and> proxy_step (px y) (with_svc s (px y))"
proof -
  note inv = sys_invD [OF assms(1)]
  obtain r where s: "s = (shared y)\<lparr>clients := r\<rparr>"
    using pin_stage_frame [of "os_now os" ops "pin_at y" "shared y" "world y"] assms(3) by auto
  have ok: "pin_ok (pin_at y)" using inv(2) by (simp add: svc_inv_def)
  have r: "reg_wf r" "static_ips r = static_ips (clients (shared y))" "pin_ok pc"
    using pin_stage_wf [OF inv(6) ok, of "os_now os" ops "world y"]
      pin_stage_static [OF inv(6), of "os_now os" ops "pin_at y" "world y"]
      pin_stage_ok [OF assms(2) ok, of "os_now os" "shared y" "world y"] assms(3) by (simp_all add: s)
  have pc: "pin_running pc = pin_running (pin_at y)" "pc = PinReturned \<longrightarrow> pin_at y = PinReturned"
    using assms(3)
    by (cases "(os_now os, ops, (pin_at y, shared y, world y))" rule: pin_stage.cases;
        auto simp: Let_def split: prod.splits if_splits)+
  have step: "proxy_step (px y) (with_svc s (px y))" unfolding s by (rule px_clients [OF inv(4)])
  have "sys_inv o1 (y\<lparr>pin_at := pc, px := with_svc s (px y), world := w\<rparr>)"
    by (rule inv_peer [OF assms(1), of s]) (use inv(2) r pc step in \<open>simp_all add: s peer_clients svc_inv_def\<close>)
  with step show ?thesis by blast
qed

lemma inv_sniff:
  assumes "sys_inv o1 y"
    and st: "sniff_step os ctx ops (parent_done (px y)) (sniff_at y, shared y, world y) (pc, s, w)"
  shows "sys_inv o1 (y\<lparr>sniff_at := pc, px := with_svc s (px y), world := w\<rparr>)
     \<and> proxy_step (px y) (with_svc s (px y))"
proof -
  note inv = sys_invD [OF assms(1)]
  obtain r where s: "s = (shared y)\<lparr>clients := r\<rparr>" using sniff_step_frame [OF st] by blast
  have ok: "sniff_ok (sniff_at y)" using inv(2) by (simp add: svc_inv_def)
  have r: "reg_wf r" "sniff_ok pc" "static_ips r = static_ips (clients (shared y))"
    using sniff_step_wf [OF st inv(6) ok] by (simp_all add: s)
  have step: "proxy_step (px y) (with_svc s (px y))" unfolding s by (rule px_clients [OF inv(4)])
  have "sys_inv o1 (y\<lparr>sniff_at := pc, px := with_svc s (px y), world := w\<rparr>)"
    by (rule inv_peer [OF assms(1), of s]) (use inv(2) r step in \<open>simp_all add: s peer_clients svc_inv_def\<close>)
  with step show ?thesis by blast
qed

lemma inv_hook:
  "sys_inv o1 y \<Longrightarrow> sys_inv o1 (y\<lparr>in_flight := hook_state c (shared y) @ in_flight y\<rparr>)"
  by (auto simp: sys_inv_def svc_inv_def group_inv_def hook_state_ok)

lemma inv_hook_work:
  assumes "sys_inv o1 y" and "arp_sound ops" and fl: "in_flight y = hs1 @ h # hs2"
    and st: "hook_stage (os_now os) ops h (shared y, world y) = (next, s, w)"
  shows "sys_inv o1 (y\<lparr>in_flight := hs1 @ next @ hs2, px := with_svc s (px y), world := w\<rparr>)
     \<and> proxy_step (px y) (with_svc s (px y))"
proof -
  note inv = sys_invD [OF assms(1)]
  obtain r where s: "s = (shared y)\<lparr>clients := r\<rparr>"
    using hook_stage_frame [of "os_now os" ops h "shared y" "world y"] st by auto
  have hs: "list_all hook_ok (hs1 @ h # hs2)" using inv(2) fl by (simp add: svc_inv_def)
  then have r: "reg_wf r" "list_all hook_ok next" "static_ips r = static_ips (clients (shared y))"
    using hook_stage_wf [OF st assms(2) inv(6)] by (simp_all add: s)
  have step: "proxy_step (px y) (with_svc s (px y))" unfolding s by (rule px_clients [OF inv(4)])
  have "sys_inv o1 (y\<lparr>in_flight := hs1 @ next @ hs2, px := with_svc s (px y), world := w\<rparr>)"
    by (rule inv_peer [OF assms(1), of s]) (use inv(2) r hs step in \<open>simp_all add: s peer_clients svc_inv_def\<close>)
  with step show ?thesis by blast
qed

lemma inv_conn_ends:
  assumes "sys_inv o1 y"
  shows "sys_inv o1 (y\<lparr>px := with_svc ((shared y)\<lparr>conns := conns_remove c (conns (shared y))\<rparr>) (px y)\<rparr>)"
  by (rule inv_peer [OF assms peer_conns _ px_conn_ends [OF sys_invD(4) [OF assms]]])
    (use sys_invD(2) [OF assms] in \<open>simp_all add: svc_inv_def\<close>)

lemma inv_external:
  assumes "sys_inv o1 y" and "proxy_step (px y) p" and "psvc p = shared y" and "main p = main (px y)"
    and "parent_done p = parent_done (px y)"
  shows "sys_inv o1 (y\<lparr>px := p\<rparr>)"
  using assms proxy_step_inv [OF assms(2)] by (auto simp: sys_inv_def svc_inv_def group_inv_def)

lemma inv_signal:
  assumes "sys_inv o1 y"
  shows "sys_inv o1 (y\<lparr>px := cancel_group (px y), signalled := True\<rparr>)"
  using assms proxy_step_inv [OF cancel_group_step, of "px y"]
  by (auto simp: sys_inv_def svc_inv_def group_inv_def)

lemma inv_pin_pc:
  assumes "sys_inv o1 y" and "pin_running pc \<longrightarrow> ciscoReady (shared y)" and "pin_ok pc"
    and "pc = PinReturned \<longrightarrow> parent_done (px y)"
  shows "sys_inv o1 (y\<lparr>pin_at := pc\<rparr>)"
proof -
  have "ended_quietly (sup_at y) pc (dns_at y) \<longrightarrow> parent_done (px y)"
    using assms(1,4) ended_quietly_changes(2) by (auto simp: sys_inv_def group_inv_def)
  with assms(1-3) show ?thesis by (auto simp: sys_inv_def svc_inv_def group_inv_def)
qed

lemma inv_sup_wake:
  "sys_inv o1 y \<Longrightarrow> sup_at y = SupSleep d \<Longrightarrow> sys_inv o1 (y\<lparr>sup_at := SupTick\<rparr>)"
  using ended_quietly_changes(1) [of SupTick "sup_at y" "pin_at y" "dns_at y"]
  by (auto simp: sys_inv_def svc_inv_def group_inv_def sup_safe_def)

lemma no_panic:
  assumes "sys_inv o1 y"
  shows "sup_stage os ctx (sup_at y, supv y, shared y, world y) \<noteq> None"
  by (rule sup_stage_safe [OF sys_invD(5) [OF assms], of os ctx "world y"]) simp

lemma sys_step_inv:
  assumes "sys_step os ctx ops y y'" and "arp_sound ops" and "sys_inv o1 y"
  shows "sys_inv o1 y'"
  using assms(1)
proof cases
  case (loopback_closed)
  then show ?thesis
    using inv_external [OF assms(3), OF proxy_step.loopback_lost] by simp
next
  case (lan_closed i)
  then show ?thesis
    using inv_external [OF assms(3), OF px_lan_closed [OF sys_invD(4) [OF assms(3)]]] by simp
next
  case (sup_panic)
  with no_panic [OF assms(3)] show ?thesis by blast
next
  case (pin_ready)
  with inv_pin_pc [OF assms(3)] show ?thesis by simp
next
  case (pin_cancelled)
  with inv_pin_pc [OF assms(3)] show ?thesis by simp
next
  case (pin_wake le)
  with inv_pin_pc [OF assms(3)] sys_invD(2) [OF assms(3)] show ?thesis by (simp add: svc_inv_def)
next
  case (pin_stop le)
  with inv_pin_pc [OF assms(3)] show ?thesis by simp
next
  case (sup_wake d)
  with inv_sup_wake [OF assms(3)] show ?thesis by simp
next
  case (sup_stop d s w)
  with inv_sup_stop [OF assms(3)] show ?thesis by blast
next
  case (sup_work pc sv s w)
  with inv_sup_work [OF assms(3)] show ?thesis by blast
next
  case (proxy p)
  with inv_proxy [OF assms(3)] show ?thesis by blast
next
  case (dns pc s)
  with inv_dns [OF assms(3)] show ?thesis by blast
next
  case (pin_work pc s w)
  with inv_pin [OF assms(3,2)] show ?thesis by blast
next
  case (sniff pc s w)
  with inv_sniff [OF assms(3)] show ?thesis by blast
next
  case (hook c)
  with inv_hook [OF assms(3)] show ?thesis by blast
next
  case (hook_work hs1 h hs2 hs s w)
  with inv_hook_work [OF assms(3,2)] show ?thesis by blast
next
  case (conn_ends c)
  with inv_conn_ends [OF assms(3)] show ?thesis by blast
next
  case signal
  with inv_signal [OF assms(3)] show ?thesis by blast
qed

lemma sys_reach_inv: "sys_reach os ctx ops o1 y \<Longrightarrow> arp_sound ops \<Longrightarrow> sys_inv o1 y"
  by (induction rule: sys_reach.induct) (auto intro: sys_inv_start sys_step_inv)

section \<open>Refinement of the proxy\<close>

lemma start_return_px: "px (start_return r y) = px y \<or> px (start_return r y) = cancel_group (px y)"
  by (simp add: start_return_def split: option.split)

lemma sys_step_sim:
  assumes "sys_step os ctx ops y y'" and "arp_sound ops" and "sys_inv o1 y"
  shows "proxy_step\<^sup>*\<^sup>* (px y) (px y')"
proof -
  have ret: "proxy_step\<^sup>*\<^sup>* (px y) (px (start_return r z))" if "proxy_step (px y) (px z)" for r and z :: "'a sys"
    using start_return_px [of r z] that cancel_group_step [of "px z"]
    by (metis r_into_rtranclp rtranclp.rtrancl_into_rtrancl)
  have "px y' = px y \<or> proxy_step (px y) (px y') \<or> (\<exists>r z. y' = start_return r z \<and> proxy_step (px y) (px z))"
    using assms(1)
  proof cases
    case (proxy p)
    then show ?thesis
      by (intro disjI2 exI [of _ "proxy_error (main p)"] exI [of _ "y\<lparr>px := p\<rparr>"]) (simp add: proxy_own_step)
  next
    case (dns pc s)
    with inv_dns [OF assms(3)] show ?thesis
      by (intro disjI2 exI [of _ "dns_error pc"] exI [of _ "y\<lparr>dns_at := pc, px := with_svc s (px y)\<rparr>"]) simp
  next
    case (sup_work pc sv s w)
    with inv_sup_work [OF assms(3)] show ?thesis by simp
  next
    case (sup_stop d s w)
    with inv_sup_stop [OF assms(3)] show ?thesis by simp
  next
    case (pin_work pc s w)
    with inv_pin [OF assms(3,2) pin_work(2)] show ?thesis by simp
  next
    case (sniff pc s w)
    with inv_sniff [OF assms(3)] show ?thesis by simp
  next
    case (hook_work hs1 h hs2 hs s w)
    with inv_hook_work [OF assms(3,2) hook_work(2,3)] show ?thesis by simp
  next
    case (conn_ends c)
    then show ?thesis by (simp add: px_conn_ends [OF sys_invD(4) [OF assms(3)]])
  next
    case signal
    then show ?thesis by (simp add: cancel_group_step)
  next
    case loopback_closed
    then show ?thesis by (simp add: proxy_step.loopback_lost)
  next
    case (lan_closed i)
    then show ?thesis by (simp add: px_lan_closed [OF sys_invD(4) [OF assms(3)]])
  qed simp_all
  with ret show ?thesis by (metis r_into_rtranclp rtranclp.rtrancl_refl)
qed

lemma proxy_reach_run: "proxy_step\<^sup>*\<^sup>* p p' \<Longrightarrow> proxy_reach s0 p \<Longrightarrow> proxy_reach s0 p'"
  by (induction rule: rtranclp_induct) (auto intro: proxy_reach.step)

lemma sys_reach_proxy: "sys_reach os ctx ops o1 y \<Longrightarrow> arp_sound ops \<Longrightarrow> proxy_reach (New o1) (px y)"
proof (induction rule: sys_reach.induct)
  case (start w)
  show ?case by (simp add: Start_def proxy_reach.start)
next
  case (step y y')
  then show ?case using sys_step_sim [OF step.hyps(2)] sys_reach_inv [OF step.hyps(1)] proxy_reach_run by blast
qed

section \<open>The LAN in the whole service\<close>

text \<open>
  The observation \<open>notify_due\<close> of the LAN machine is about the supervisor: between its write of a
  new LAN and its check, and at no other time while the proxy serves.
\<close>

definition notify_inv :: "'w sys \<Rightarrow> bool" where
  "notify_inv y \<longleftrightarrow> (notify_due (lan (px y)) \<longrightarrow>
     main (px y) = Serving \<and> sup_at y = SupNotify \<or> (\<exists>r. main (px y) = ProxyReturned r))"

lemma notify_start_return [simp]:
  "notify_inv (start_return r y) = notify_inv y"
  by (simp add: notify_inv_def start_return_def cancel_group_def split: option.split)

lemma notify_sup_put:
  "notify_due (lan (sup_put pc s p)) \<longleftrightarrow>
     (if main p \<noteq> Serving then notify_due (lan p)
      else case pc of SupWrite _ _ _ \<Rightarrow> True | SupNotify \<Rightarrow> False | _ \<Rightarrow> notify_due (lan p))"
  by (simp add: sup_put_def split: sup_pc.split)

lemma notify_sup_work:
  assumes "notify_inv y" and "sup_stage os ctx (sup_at y, supv y, shared y, world y) = Some (pc, sv, s, w)"
  shows "notify_inv (y\<lparr>sup_at := pc, supv := sv, px := sup_put (sup_at y) s (px y), world := w\<rparr>)"
proof -
  obtain pc0 where pc0: "sup_at y = pc0" by blast
  have "pc = SupNotify" if "pc0 = SupWrite q a i" for q a i using assms(2) that pc0 by simp
  then show ?thesis
    using assms(1) unfolding notify_inv_def pc0
    by (cases pc0) (auto simp: notify_sup_put split: if_splits)
qed

lemma proxy_step_main: "proxy_step p p' \<Longrightarrow> main p = Serving \<Longrightarrow> main p' = Serving \<or> (\<exists>r. main p' = ProxyReturned r)"
  by (induction rule: proxy_step.induct)
    (simp_all add: group_return_def proxy_return_def start_serving_def Let_def split: option.split)

lemma notify_proxy:
  assumes "notify_inv y" and "\<forall>r. main (px y) \<noteq> ProxyReturned r" and "proxy_own (px y) p"
  shows "notify_inv (y\<lparr>px := p\<rparr>)"
proof -
  have own: "proxy_step (px y) p" "notify_due (lan p) \<longrightarrow> notify_due (lan (px y))"
    using assms(3) by (simp_all add: proxy_own_def)
  with assms(1,2) proxy_step_main [OF own(1)] show ?thesis by (simp add: notify_inv_def)
qed

lemma notify_step:
  assumes "sys_step os ctx ops y y'" and "notify_inv y"
  shows "notify_inv y'"
  using assms(1)
proof cases
  case (sup_work pc sv s w)
  with notify_sup_work [OF assms(2)] show ?thesis by blast
next
  case (proxy p)
  with notify_proxy [OF assms(2)] show ?thesis by simp
next
  case (dns pc s)
  have "notify_inv (y\<lparr>dns_at := pc, px := with_svc s (px y)\<rparr>)"
    using assms(2) by (simp add: notify_inv_def)
  with dns show ?thesis by simp
qed (use assms(2) in \<open>simp_all add: notify_inv_def cancel_group_def\<close>)

lemma sys_reach_notify: "sys_reach os ctx ops o1 y \<Longrightarrow> notify_inv y"
proof (induction rule: sys_reach.induct)
  case (start w)
  show ?case by (simp add: notify_inv_def Start_def startProxy_def serveLAN_start_def)
next
  case (step y y')
  show ?case by (rule notify_step [OF step.hyps(2) step.IH])
qed

section \<open>A run\<close>

text \<open>A tick that no other goroutine interrupts is a run of the system.\<close>

definition pcs_same :: "'w sys \<Rightarrow> 'w sys \<Rightarrow> bool" where
  "pcs_same y y' \<longleftrightarrow> main (px y') = main (px y) \<and> parent_done (px y') = parent_done (px y)
     \<and> dns_at y' = dns_at y \<and> pin_at y' = pin_at y \<and> sniff_at y' = sniff_at y \<and> in_flight y' = in_flight y"

lemma sup_stages_reach:
  assumes "run_stages n sup_idle (sup_stage os ctx) (sup_at y, supv y, shared y, world y) = Some (pc, sv, s, w)"
    and "sys_reach os ctx ops o1 y"
  shows "\<exists>y'. sys_reach os ctx ops o1 y' \<and> sup_at y' = pc \<and> supv y' = sv \<and> shared y' = s \<and> world y' = w \<and> pcs_same y y'"
  using assms
proof (induction n arbitrary: y)
  case 0
  then show ?case
    by (intro exI [of _ y]) (auto simp: run_stages.simps pcs_same_def split: if_splits)
next
  case (Suc n)
  show ?case
  proof (cases "sup_idle (sup_at y, supv y, shared y, world y)")
    case True
    with Suc.prems show ?thesis
      by (intro exI [of _ y]) (simp add: run_stages_idle pcs_same_def)
  next
    case False
    with Suc.prems(1) obtain pc1 sv1 s1 w1 where
      st: "sup_stage os ctx (sup_at y, supv y, shared y, world y) = Some (pc1, sv1, s1, w1)"
        "run_stages n sup_idle (sup_stage os ctx) (pc1, sv1, s1, w1) = Some (pc, sv, s, w)"
      by (auto simp: run_stages_Suc split: option.splits)
    let ?y1 = "y\<lparr>sup_at := pc1, supv := sv1, px := sup_put (sup_at y) s1 (px y), world := w1\<rparr>"
    have "sys_reach os ctx ops o1 ?y1"
      by (rule sys_reach.step [OF Suc.prems(2) sys_step.sup_work [OF st(1)]])
    from Suc.IH [OF _ this] st(2) show ?thesis by (auto simp: pcs_same_def)
  qed
qed

text \<open>On the sample machine the first tick connects the VPN.\<close>

lemma sample_tick:
  "\<exists>d sv s w. tick mac_os Ctx (new_supervisor, New sample_opts, sample_world) = Some (d, sv, s, w)
     \<and> CiscoConnected (status s) \<and> ciscoReady s"
proof -
  have inv: "sup_inv new_supervisor (New sample_opts)"
    by (rule sup_inv_start) (simp_all add: New_def status_ok_none reg_wf_new)
  obtain d sv s w where t: "tick mac_os Ctx (new_supervisor, New sample_opts, sample_world) = Some (d, sv, s, w)"
    "CiscoConnected (status s) \<longrightarrow> ciscoReady s" by (rule tick_some [OF inv])
  obtain sv1 s1 w1 where det: "detectLAN mac_os Ctx (new_supervisor, New sample_opts, sample_world) = (sv1, s1, w1)"
    by (metis surj_pair)
  have w1: "w1 = logged ''netstat'' [''-rn'', ''-f'', ''inet''] sample_world"
    using det sample_detect [where w = sample_world]
    by (auto simp: detectLAN_cases sample_world_def Let_def split: if_splits)
  have v: "vpn_state w1 = ''Disconnected''" "vpn_accepts w1"
    unfolding w1 by (simp_all add: logged_def sample_world_def)
  let ?w2 = "logged ciscoPath [''-s'', ''state''] w1"
  have st: "Status mac_os Ctx w1 = ((StateDisconnected, None), ?w2)"
    using v(1) by (simp add: sample_status)
  have "\<not> hasAcquiredError []" by code_simp
  then have c: "fst (Connect mac_os Ctx p u pw ?w2) = None" for p u pw
    using v by (simp add: Connect_succeeds_iff mac_simps ciscoPath_def vpn_exec_def sample_status logged_def)
  have "CiscoConnected (status (fst (snd (snd (react mac_os Ctx (StateDisconnected, None) (sv1, s1, ?w2))))))"
    using c by (auto simp: react_def connect_def state_defs split: prod.splits option.splits)
      (metis fst_conv option.distinct(1))+
  moreover obtain d3 sv3 s3 w3 where r: "react mac_os Ctx (StateDisconnected, None) (sv1, s1, ?w2) = (d3, sv3, s3, w3)"
    by (metis surj_pair)
  ultimately have "CiscoConnected (status s3)" by simp
  moreover have "CiscoConnected (status s) = CiscoConnected (status s3)"
    using t(1) disablePF_frame [of mac_os Ctx s3 w3]
    by (auto simp: tick_def det st r after_react_def close_ciscoReady_def GetState_def
        split: if_splits prod.splits)
  ultimately show ?thesis using t by blast
qed

section \<open>Properties\<close>

text \<open>
  C1: Whatever the five goroutines and the connections do, in whatever order, the program is
  safe: \<open>ciscoReady\<close> is never closed twice; the VPN is marked as up only when \<open>ciscoReady\<close> is
  closed or about to be by the supervisor; the proxy, the DNS server and the pinner work only
  after that; the marks of the proxy and of DNS are set exactly while these serve; the LAN of
  the status is valid and no tunnel; and the registry holds canonical MACs and every
  configured client.
\<close>

theorem system_safe:
  assumes "sys_reach os ctx ops o1 y" and "arp_sound ops"
  shows "\<not> panicked y
     \<and> (if CiscoConnected (status (shared y)) then ciscoReady (shared y) \<or> before_ready (sup_at y)
        else \<not> PFDisabled (status (shared y)))
     \<and> (if main (px y) = Serving \<or> dns_running (dns_at y) \<or> pin_running (pin_at y)
        then ciscoReady (shared y) else True)
     \<and> ProxyStarted (status (shared y)) = (main (px y) = Serving)
     \<and> DNSStarted (status (shared y)) = dns_running (dns_at y)
     \<and> lan_ok (status (shared y)) \<and> opts (shared y) = o1
     \<and> reg_wf (clients (shared y))
     \<and> static_ips (clients (shared y)) = lc_ip ` set (LANClients o1)"
  using sys_reach_inv [OF assms]
  by (auto simp: sys_inv_def svc_inv_def sup_safe_def sup_inv_def status_ok_def proxy_inv_def)

lemma sample_connected:
  "\<exists>y. sys_reach mac_os Ctx (route_ops mac_os Ctx) sample_opts y \<and> CiscoConnected (status (shared y))
     \<and> ciscoReady (shared y) \<and> main (px y) = Waiting \<and> (\<exists>d. sup_at y = SupSleep d)"
proof -
  let ?y0 = "Start sample_opts sample_world" and ?ops = "route_ops mac_os Ctx"
  obtain d sv s w where t: "tick mac_os Ctx (new_supervisor, New sample_opts, sample_world) = Some (d, sv, s, w)"
    "CiscoConnected (status s)" "ciscoReady s" using sample_tick by blast
  have r: "sys_reach mac_os Ctx ?ops sample_opts (?y0\<lparr>sup_at := SupTick\<rparr>)"
    by (rule sys_reach.step [OF sys_reach.start], rule sys_step.sup_wake) (simp add: Start_def)
  have st: "run_stages 9 sup_idle (sup_stage mac_os Ctx)
      (sup_at (?y0\<lparr>sup_at := SupTick\<rparr>), supv (?y0\<lparr>sup_at := SupTick\<rparr>),
       shared (?y0\<lparr>sup_at := SupTick\<rparr>), world (?y0\<lparr>sup_at := SupTick\<rparr>)) = Some (SupSleep d, sv, s, w)"
    using sup_stages_run [of mac_os Ctx new_supervisor "New sample_opts" sample_world] t(1)
    by (simp add: Start_def startProxy_def serveLAN_start_def)
  from sup_stages_reach [OF st r] t(2,3) show ?thesis
    by (auto simp: pcs_same_def Start_def startProxy_def)
qed

theorem system_safe_witness:
  "\<exists>y. sys_reach mac_os Ctx (route_ops mac_os Ctx) sample_opts y \<and> CiscoConnected (status (shared y))
     \<and> \<not> panicked y \<and> static_ips (clients (shared y)) = {''192.168.0.42''}"
proof -
  obtain y where y: "sys_reach mac_os Ctx (route_ops mac_os Ctx) sample_opts y"
    "CiscoConnected (status (shared y))" using sample_connected by blast
  have "lc_ip ` set (LANClients sample_opts) = {''192.168.0.42''}" by (simp add: sample_opts_def)
  with system_safe [OF y(1) arp_sound_route] y show ?thesis by (intro exI [of _ y]) simp
qed

text \<open>
  C2: The environment the proxy and the LAN listener assume is the rest of the program: in every
  run of the whole service the proxy is in a state its own machine reaches, and while it
  serves its LAN listener is in one that the machine of \<open>serveLAN\<close> reaches. So what is shown of
  them alone holds beside the supervisor, the pinner, the sniffer, DNS and the connections.
\<close>

theorem system_refines_proxy:
  assumes "sys_reach os ctx ops o1 y" and "arp_sound ops"
  shows "proxy_reach (New o1) (px y)
     \<and> (if main (px y) = Serving then \<exists>s1. conns s1 = [] \<and> lan_reach lan_addr s1 (lan (px y)) else True)"
  using sys_reach_proxy [OF assms] sys_reach_inv [OF assms]
  by (auto simp: sys_inv_def proxy_inv_def lan_runs_def)

lemma sample_serving:
  "\<exists>y. sys_reach mac_os Ctx (route_ops mac_os Ctx) sample_opts y \<and> main (px y) = Serving
     \<and> serve_at (lan (px y)) = Head \<and> cur (lan (px y)) = None \<and> sup_at y \<noteq> SupNotify"
proof -
  obtain y d where y: "sys_reach mac_os Ctx (route_ops mac_os Ctx) sample_opts y"
    "ciscoReady (shared y)" "main (px y) = Waiting" "sup_at y = SupSleep d" using sample_connected by blast
  have "proxy_own (px y) (start_serving (px y))"
    using proxy_step.listening [OF y(3,2)]
    by (simp add: proxy_own_def start_serving_def own_svc_def proxy_started_def Let_def)
      (simp add: serveLAN_start_def)
  then have "sys_step mac_os Ctx (route_ops mac_os Ctx) y
      (start_return (proxy_error (main (start_serving (px y)))) (y\<lparr>px := start_serving (px y)\<rparr>))"
    using y(3) by (intro sys_step.proxy) simp_all
  from sys_reach.step [OF y(1) this] y(4) show ?thesis
    by (intro exI conjI) (assumption, simp_all add: start_return_def start_serving_def serveLAN_start_def Let_def)
qed

theorem system_refines_proxy_witness:
  "\<exists>y s1. sys_reach mac_os Ctx (route_ops mac_os Ctx) sample_opts y \<and> main (px y) = Serving
     \<and> lan_reach lan_addr s1 (lan (px y))"
proof -
  obtain y where y: "sys_reach mac_os Ctx (route_ops mac_os Ctx) sample_opts y" "main (px y) = Serving"
    using sample_serving by blast
  from system_refines_proxy [OF y(1) arp_sound_route] y show ?thesis by (auto split: if_splits)
qed

text \<open>
  C3: No change of the LAN is lost in the whole program. Whenever the proxy serves, \<open>serveLAN\<close> waits
  in its select with no check pending, and the supervisor is not just about to send one, the
  LAN listener is bound to exactly the LAN the status shows; or the last bind failed and its
  retry timer runs; or no LAN has been found yet.
\<close>

theorem system_lan_bound:
  assumes "sys_reach os ctx ops o1 y" and "arp_sound ops" and "main (px y) = Serving"
    and "serve_at (lan (px y)) = Select want" and "\<not> lanCheck (shared y)" and "sup_at y \<noteq> SupNotify"
  shows "want = lan_snapshot (shared y)
     \<and> (case cur (lan (px y)) of
          Some i \<Rightarrow> bound (listeners (lan (px y)) ! i) = lan_snapshot (shared y)
        | None \<Rightarrow> retry_armed want (lan (px y)) \<or> LANInterface (status (shared y)) = [])"
proof -
  have "proxy_inv (px y)" by (rule sys_invD(4) [OF sys_reach_inv [OF assms(1,2)]])
  then have "lan_inv (lan (px y))"
    using assms(3) lan_runs_inv by (simp add: proxy_inv_def)
  moreover have "\<not> notify_due (lan (px y))"
    using sys_reach_notify [OF assms(1)] assms(3,6) by (simp add: notify_inv_def)
  ultimately show ?thesis
    using assms(4,5)
    by (auto simp: lan_inv_def check_ok_def retry_armed_def lan_snapshot_zero_iff split: option.splits)
qed

text \<open>The sample service goes on to its select.\<close>

lemma sys_calm:
  assumes "sys_reach os ctx ops o1 y" and "main (px y) = Serving" and "calm_step lan_addr (lan (px y)) z"
    and "\<forall>r. serve_at z \<noteq> Finished r"
  shows "sys_reach os ctx ops o1 (y\<lparr>px := (px y)\<lparr>lan := z\<rparr>\<rparr>)"
proof -
  have st: "lan_step lan_addr (lan (px y)) z" "ctx_done z = ctx_done (lan (px y))"
    "proxy_frame (shared y) (svc z)"
    using assms(3) by (simp_all add: calm_step_def proxy_frame_def own_svc_def)
  have "group_return (case serve_at z of Finished r \<Rightarrow> r | _ \<Rightarrow> None) ((px y)\<lparr>lan := z\<rparr>) = (px y)\<lparr>lan := z\<rparr>"
    using assms(4) by (simp add: group_return_def split: serve_pc.split)
  then have "proxy_own (px y) ((px y)\<lparr>lan := z\<rparr>)"
    using proxy_step.lan_step [OF assms(2) st] assms(3) by (simp add: proxy_own_def calm_step_def)
  from sys_step.proxy [OF _ this] assms(2) have
    "sys_step os ctx ops y (start_return (proxy_error (main ((px y)\<lparr>lan := z\<rparr>))) (y\<lparr>px := (px y)\<lparr>lan := z\<rparr>\<rparr>))"
    by simp
  with assms(2) have "sys_step os ctx ops y (y\<lparr>px := (px y)\<lparr>lan := z\<rparr>\<rparr>)" by (simp add: start_return_def)
  with assms(1) show ?thesis by (rule sys_reach.step)
qed

lemma to_select:
  assumes "sys_reach os ctx ops o1 y" and "main (px y) = Serving" and "serve_at (lan (px y)) = Head"
    and "\<forall>i. cur (lan (px y)) = Some i \<longrightarrow> bound (listeners (lan (px y)) ! i) = lan_snapshot (shared y)"
  shows "\<exists>z. sys_reach os ctx ops o1 (y\<lparr>px := (px y)\<lparr>lan := z\<rparr>\<rparr>) \<and> svc z = shared y
     \<and> serve_at z = Select (lan_snapshot (shared y))
     \<and> (\<forall>i. cur z = Some i \<longrightarrow> bound (listeners z ! i) = lan_snapshot (shared y))"
proof -
  let ?want = "lan_snapshot (shared y)"
  let ?z1 = "(lan (px y))\<lparr>serve_at := Switch ?want\<rparr>"
  let ?z2 = "serve_switch True ?want ?z1"
  have h: "serve_head (lan (px y)) = ?z1"
    using assms(4) by (auto simp: serve_head_def Let_def split: option.split)
  have "calm_step lan_addr (lan (px y)) ?z1"
    using lan_step.at_head [OF assms(3), of lan_addr] h loops_undisturbed_ops(1) [of "lan (px y)"] by (intro calm_step_same_svc) simp_all
  from sys_calm [OF assms(1,2) this] have r1: "sys_reach os ctx ops o1 (y\<lparr>px := (px y)\<lparr>lan := ?z1\<rparr>\<rparr>)"
    by simp
  have "calm_step lan_addr ?z1 ?z2"
    by (rule calm_step_same_svc [OF lan_step.at_switch _ _ _ _ loops_undisturbed_ops(2)])
      (simp_all add: serve_switch_def openLAN_def)
  then have "sys_reach os ctx ops o1 (y\<lparr>px := (px y)\<lparr>lan := ?z2\<rparr>\<rparr>)"
    using sys_calm [OF r1, of ?z2] assms(2) by (simp add: serve_switch_def openLAN_def)
  moreover have "svc ?z2 = shared y" "serve_at ?z2 = Select ?want"
    "\<forall>i. cur ?z2 = Some i \<longrightarrow> bound (listeners ?z2 ! i) = ?want"
    using assms(4) by (auto simp: serve_switch_def openLAN_def)
  ultimately show ?thesis by blast
qed

theorem system_lan_bound_witness:
  "\<exists>y want. sys_reach mac_os Ctx (route_ops mac_os Ctx) sample_opts y \<and> main (px y) = Serving
     \<and> serve_at (lan (px y)) = Select want \<and> want = lan_snapshot (shared y)"
proof -
  obtain y where y: "sys_reach mac_os Ctx (route_ops mac_os Ctx) sample_opts y" "main (px y) = Serving"
    "serve_at (lan (px y)) = Head" "cur (lan (px y)) = None" "sup_at y \<noteq> SupNotify"
    using sample_serving by blast
  from to_select [OF y(1,2,3)] y(4) obtain z where
    z: "sys_reach mac_os Ctx (route_ops mac_os Ctx) sample_opts (y\<lparr>px := (px y)\<lparr>lan := z\<rparr>\<rparr>)"
      "svc z = shared y" "serve_at z = Select (lan_snapshot (shared y))"
      "\<forall>i. cur z = Some i \<longrightarrow> bound (listeners z ! i) = lan_snapshot (shared y)"
    by auto
  have "\<exists>z want. sys_reach mac_os Ctx (route_ops mac_os Ctx) sample_opts (y\<lparr>px := (px y)\<lparr>lan := z\<rparr>\<rparr>)
      \<and> serve_at z = Select want \<and> \<not> lanCheck (svc z)"
  proof (cases "lanCheck (svc z)")
    case False
    with z show ?thesis by blast
  next
    case True
    let ?z1 = "select_check z"
    let ?y1 = "y\<lparr>px := (px y)\<lparr>lan := ?z1\<rparr>\<rparr>"
    have sn: "lan_snapshot (svc ?z1) = lan_snapshot (shared y)"
      using z(2) by (simp add: select_check_def lan_snapshot_def GetState_def)
    have "calm_step lan_addr z ?z1"
      using lan_step.sel_check [OF z(3) True] loops_undisturbed_ops(5) [of z]
      by (simp add: calm_step_def select_check_def own_svc_def)
    then have r1: "sys_reach mac_os Ctx (route_ops mac_os Ctx) sample_opts ?y1"
      using sys_calm [OF z(1), of ?z1] y(2) by (simp add: select_check_def)
    have "serve_at (lan (px ?y1)) = Head" "main (px ?y1) = Serving"
      "\<forall>i. cur (lan (px ?y1)) = Some i \<longrightarrow> bound (listeners (lan (px ?y1)) ! i) = lan_snapshot (shared ?y1)"
      using y(2) z(4) sn by (simp_all add: select_check_def)
    from to_select [OF r1 this(2,1,3)] obtain x where
      x: "sys_reach mac_os Ctx (route_ops mac_os Ctx) sample_opts (?y1\<lparr>px := (px ?y1)\<lparr>lan := x\<rparr>\<rparr>)"
        "svc x = shared ?y1" "serve_at x = Select (lan_snapshot (shared ?y1))" by blast
    have "\<not> lanCheck (svc x)" using x(2) y(2) by (simp add: select_check_def)
    with x show ?thesis by auto
  qed
  then obtain z want where
    r: "sys_reach mac_os Ctx (route_ops mac_os Ctx) sample_opts (y\<lparr>px := (px y)\<lparr>lan := z\<rparr>\<rparr>)"
    and s: "serve_at z = Select want" "\<not> lanCheck (svc z)" by blast
  from system_lan_bound [OF r arp_sound_route, of want] y(2,5) s
  have "want = lan_snapshot (shared (y\<lparr>px := (px y)\<lparr>lan := z\<rparr>\<rparr>))" by simp
  with r s(1) y(2) show ?thesis by (intro exI conjI) (assumption, simp_all)
qed

end
