(* ===== verification/System_Stop.thy ===== *)
theory System_Stop
  imports System_Safety
begin

text \<open>
  How the whole service ends: from every reachable state under a done context each goroutine
  reaches its return by steps of its own, one lemma per goroutine, and what \<open>Start\<close> then
  returns and leaves in the status.
\<close>

section \<open>Shutting down\<close>

text \<open>
  Steps of the goroutines of the service in which nothing comes from outside: no signal, no
  listener closed by something else, no port that cannot be bound, no error of \<open>Accept\<close> on an open
  listener, no DNS server that ends before it is shut down. A goroutine that waits for one of its
  listeners to be closed has to have it closed by the service itself.
\<close>

definition undisturbed :: "'w sys \<Rightarrow> 'w sys \<Rightarrow> bool" where
  "undisturbed y y' \<longleftrightarrow> accepts_undisturbed (px y) (px y')
     \<and> (main (px y) = Waiting \<longrightarrow> proxy_error (main (px y')) = None)
     \<and> dns_error (dns_at y') = dns_error (dns_at y) \<and> (dns_at y = DnsServing \<longrightarrow> dns_running (dns_at y'))"

definition sys_own :: "'w os \<Rightarrow> go_ctx \<Rightarrow> 'w pinOps \<Rightarrow> 'w sys \<Rightarrow> 'w sys \<Rightarrow> bool" where
  "sys_own os ctx ops y y' \<longleftrightarrow> sys_step os ctx ops y y' \<and> signalled y' = signalled y
     \<and> (loop_ext (px y') \<longrightarrow> loop_ext (px y)) \<and> (ext_closed (lan (px y')) \<longrightarrow> ext_closed (lan (px y)))
     \<and> undisturbed y y'"

text \<open>A step that leaves the proxy where it is, with its loops, and DNS.\<close>

lemma undisturbed_same:
  "main (px y') = main (px y) \<Longrightarrow> loop_pc (px y') = loop_pc (px y) \<Longrightarrow>
   listeners (lan (px y')) = listeners (lan (px y)) \<Longrightarrow> dns_at y' = dns_at y \<Longrightarrow> undisturbed y y'"
  by (simp add: undisturbed_def accepts_undisturbed_same)

lemma sys_own_same:
  "sys_step os ctx ops y y' \<Longrightarrow> signalled y' = signalled y \<Longrightarrow> loop_ext (px y') = loop_ext (px y) \<Longrightarrow>
   ext_closed (lan (px y')) = ext_closed (lan (px y)) \<Longrightarrow> main (px y') = main (px y) \<Longrightarrow>
   loop_pc (px y') = loop_pc (px y) \<Longrightarrow> listeners (lan (px y')) = listeners (lan (px y)) \<Longrightarrow>
   dns_at y' = dns_at y \<Longrightarrow> sys_own os ctx ops y y'"
  by (simp add: sys_own_def undisturbed_same)

lemma sys_own_sup:
  assumes "sup_stage os ctx (sup_at y, supv y, shared y, world y) = Some (pc, sv, s, w)"
  shows "sys_own os ctx ops y (y\<lparr>sup_at := pc, supv := sv, px := sup_put (sup_at y) s (px y), world := w\<rparr>)"
  by (rule sys_own_same [OF sys_step.sup_work [OF assms]]) (simp_all add: sup_put_def split: sup_pc.split)

abbreviation sys_run :: "'w os \<Rightarrow> go_ctx \<Rightarrow> 'w pinOps \<Rightarrow> 'w sys \<Rightarrow> 'w sys \<Rightarrow> bool" where
  "sys_run os ctx ops \<equiv> (sys_own os ctx ops)\<^sup>*\<^sup>*"

lemma sys_run_inv:
  "sys_run os ctx ops y y' \<Longrightarrow> arp_sound ops \<Longrightarrow> sys_inv o1 y \<Longrightarrow> sys_inv o1 y'"
  by (induction rule: rtranclp_induct) (auto simp: sys_own_def intro: sys_step_inv)

text \<open>A run that leaves the places of the other goroutines alone.\<close>

definition sup_only :: "'w sys \<Rightarrow> 'w sys \<Rightarrow> bool" where
  "sup_only y y' \<longleftrightarrow> parent_done (px y') \<and> main (px y') = main (px y) \<and> dns_at y' = dns_at y
     \<and> pin_at y' = pin_at y \<and> sniff_at y' = sniff_at y"

fun sup_rank :: "sup_pc \<Rightarrow> nat" where
  "sup_rank SupTick = 9" | "sup_rank (SupReset _ _ _) = 8" | "sup_rank (SupWrite _ _ _) = 7"
| "sup_rank SupNotify = 6" | "sup_rank (SupAddr _) = 6" | "sup_rank SupStatus = 5"
| "sup_rank (SupReact _) = 4" | "sup_rank SupAwait = 3" | "sup_rank SupConnect = 3"
| "sup_rank (SupAfter _) = 2" | "sup_rank (SupReady _) = 1" | "sup_rank (SupSleep _) = 0"
| "sup_rank SupReturned = 0"

lemma sup_rank_less:
  "sup_stage os ctx (pc, st) = Some (pc', st') \<Longrightarrow> 0 < sup_rank pc \<Longrightarrow> sup_rank pc' < sup_rank pc"
  by (cases "(os, ctx, (pc, st))" rule: sup_stage.cases)
    (auto simp: sup_detect_def sup_switch_def Let_def split: prod.splits sum.splits if_splits)

lemma sup_ends:
  assumes "sys_inv o1 y" and "arp_sound ops" and "parent_done (px y)"
  shows "\<exists>y'. sys_run os ctx ops y y' \<and> sup_at y' = SupReturned \<and> sup_only y y'"
  using assms(1,3)
proof (induction "sup_rank (sup_at y)" arbitrary: y rule: less_induct)
  case less
  show ?case
  proof (cases "sup_rank (sup_at y)")
    case 0
    then consider "sup_at y = SupReturned" | d where "sup_at y = SupSleep d" by (cases "sup_at y") simp_all
    then show ?thesis
    proof cases
      case 1
      with less.prems show ?thesis by (auto simp: sup_only_def)
    next
      case 2
      obtain s w where sh: "shutdown os ctx (supv y, shared y, world y) = (s, w)" by (metis surj_pair)
      let ?y' = "y\<lparr>sup_at := SupReturned, px := with_svc s (px y), world := w\<rparr>"
      have "sys_own os ctx ops y ?y'"
        by (rule sys_own_same [OF sys_step.sup_stop [OF 2 less.prems(2) sh]]) simp_all
      with less.prems show ?thesis
        by (intro exI [of _ ?y']) (auto simp: sup_only_def intro: r_into_rtranclp)
    qed
  next
    case (Suc n)
    obtain pc sv s w where st: "sup_stage os ctx (sup_at y, supv y, shared y, world y) = Some (pc, sv, s, w)"
      by (rule sup_stage_safe [OF sys_invD(5) [OF less.prems(1)]])
    let ?y1 = "y\<lparr>sup_at := pc, supv := sv, px := sup_put (sup_at y) s (px y), world := w\<rparr>"
    have step: "sys_own os ctx ops y ?y1" by (rule sys_own_sup [OF st])
    have "sys_inv o1 ?y1" "parent_done (px ?y1)" "sup_rank (sup_at ?y1) < sup_rank (sup_at y)"
      using inv_sup_work [OF less.prems(1) st] less.prems(2) sup_rank_less [OF st] Suc by simp_all
    from less.hyps [OF this(3,1,2)] obtain y' where
      "sys_run os ctx ops ?y1 y'" "sup_at y' = SupReturned" "sup_only ?y1 y'" by blast
    with step show ?thesis
      by (intro exI [of _ y']) (auto simp: sup_only_def intro: converse_rtranclp_into_rtranclp)
  qed
qed

definition pin_only :: "'w sys \<Rightarrow> 'w sys \<Rightarrow> bool" where
  "pin_only y y' \<longleftrightarrow> parent_done (px y') \<and> main (px y') = main (px y) \<and> dns_at y' = dns_at y
     \<and> sup_at y' = sup_at y \<and> sniff_at y' = sniff_at y"

fun pin_rank :: "pin_pc \<Rightarrow> service \<Rightarrow> nat" where
  "pin_rank (PinTick _) s = 2 * length (clients s) + 6"
| "pin_rank (PinExpire _ _) s = 2 * length (clients s) + 5"
| "pin_rank (PinLook _) s = 2 * length (clients s) + 4"
| "pin_rank (PinSnap _ _) s = 2 * length (clients s) + 3"
| "pin_rank (PinWalk _ _ ims) s = 2 * length ims + 1"
| "pin_rank (PinDo _ _ _ _ ims) s = 2 * length ims + 2"
| "pin_rank _ s = 0"

lemma pin_rank_less:
  "pin_stage clock ops (pc, s, w) = (pc', s', w') \<Longrightarrow> 0 < pin_rank pc s \<Longrightarrow> pin_rank pc' s' < pin_rank pc s"
  using length_expire
  by (cases "(clock, ops, (pc, s, w))" rule: pin_stage.cases)
    (auto simp: Let_def snapshot_def gm_map_def less_Suc_eq_le split: prod.splits if_splits)

lemma pin_ends:
  assumes "sys_inv o1 y" and "arp_sound ops" and "parent_done (px y)"
  shows "\<exists>y'. sys_run os ctx ops y y' \<and> pin_at y' = PinReturned \<and> pin_only y y'"
  using assms(1,3)
proof (induction "pin_rank (pin_at y) (shared y)" arbitrary: y rule: less_induct)
  case less
  show ?case
  proof (cases "pin_rank (pin_at y) (shared y)")
    case 0
    then consider "pin_at y = PinReturned" | "pin_at y = PinWait" | le where "pin_at y = PinSleep le"
      by (cases "pin_at y") simp_all
    then show ?thesis
    proof cases
      case 1
      with less.prems show ?thesis by (auto simp: pin_only_def)
    next
      case 2
      then have "sys_own os ctx ops y (y\<lparr>pin_at := PinReturned\<rparr>)"
        using less.prems(2) by (intro sys_own_same [OF sys_step.pin_cancelled]) simp_all
      with less.prems show ?thesis
        by (intro exI [of _ "y\<lparr>pin_at := PinReturned\<rparr>"]) (auto simp: pin_only_def intro: r_into_rtranclp)
    next
      case 3
      then have "sys_own os ctx ops y (y\<lparr>pin_at := PinReturned\<rparr>)"
        using less.prems(2) by (intro sys_own_same [OF sys_step.pin_stop]) simp_all
      with less.prems show ?thesis
        by (intro exI [of _ "y\<lparr>pin_at := PinReturned\<rparr>"]) (auto simp: pin_only_def intro: r_into_rtranclp)
    qed
  next
    case (Suc n)
    obtain pc s w where st: "pin_stage (os_now os) ops (pin_at y, shared y, world y) = (pc, s, w)"
      by (metis surj_pair)
    let ?y1 = "y\<lparr>pin_at := pc, px := with_svc s (px y), world := w\<rparr>"
    have step: "sys_own os ctx ops y ?y1"
      by (rule sys_own_same [OF sys_step.pin_work [OF st]]) simp_all
    have "sys_inv o1 ?y1" "parent_done (px ?y1)" "pin_rank (pin_at ?y1) (shared ?y1) < pin_rank (pin_at y) (shared y)"
      using inv_pin [OF less.prems(1) assms(2) st] less.prems(2) pin_rank_less [OF st] Suc by simp_all
    from less.hyps [OF this(3,1,2)] obtain y' where
      "sys_run os ctx ops ?y1 y'" "pin_at y' = PinReturned" "pin_only ?y1 y'" by blast
    with step show ?thesis
      by (intro exI [of _ y']) (auto simp: pin_only_def intro: converse_rtranclp_into_rtranclp)
  qed
qed

definition sniff_only :: "'w sys \<Rightarrow> 'w sys \<Rightarrow> bool" where
  "sniff_only y y' \<longleftrightarrow> parent_done (px y') \<and> main (px y') = main (px y) \<and> dns_at y' = dns_at y
     \<and> sup_at y' = sup_at y \<and> pin_at y' = pin_at y"

fun sniff_rank :: "sniff_pc \<Rightarrow> nat" where
  "sniff_rank SniffStart = 3" | "sniff_rank (SniffLook _ _ _ _ _ _) = 3"
| "sniff_rank (SniffRecord _ _ _ _ _) = 2" | "sniff_rank SniffHead = 2"
| "sniff_rank (SniffWatch _ _ _) = 1" | "sniff_rank SniffWait = 1" | "sniff_rank SniffRetry = 1"
| "sniff_rank SniffReturned = 0"

lemma sniff_can_step:
  assumes "pc \<noteq> SniffReturned"
  shows "\<exists>pc' s' w'. sniff_step os ctx ops True (pc, s, w) (pc', s', w') \<and> sniff_rank pc' < sniff_rank pc"
proof (cases pc)
  case SniffStart
  show ?thesis
  proof (cases "discoveryEnabled s")
    case True
    then show ?thesis
      unfolding SniffStart by (intro exI conjI, rule sniff_step.enabled) simp_all
  next
    case False
    then show ?thesis
      unfolding SniffStart by (intro exI conjI, rule sniff_step.disabled) simp_all
  qed
next
  case SniffHead
  show ?thesis
  proof (cases "snap_iface (lan_snapshot s) = []")
    case True
    then show ?thesis
      unfolding SniffHead by (intro exI conjI, rule sniff_step.no_lan) simp_all
  next
    case False
    obtain p w1 where sp: "os_spawn os (WithCancel ctx) ''tcpdump'' (watch_args (snap_iface (lan_snapshot s)) proxyPort) w = (p, w1)"
      by (metis surj_pair)
    show ?thesis
      unfolding SniffHead by (intro exI conjI, rule sniff_step.watch_lan [OF False sp]) simp
  qed
next
  case (SniffLook lan hit ls key mac state)
  show ?thesis
    unfolding SniffLook by (intro exI conjI, rule sniff_step.looked) simp_all
next
  case (SniffRecord lan hit ls key mac)
  obtain t w1 where "os_now os w = (t, w1)" by (metis surj_pair)
  then show ?thesis
    unfolding SniffRecord by (intro exI conjI, rule sniff_step.recorded) simp_all
next
  case SniffWait
  show ?thesis
    unfolding SniffWait by (intro exI conjI, rule sniff_step.wait_done) simp_all
next
  case SniffRetry
  show ?thesis
    unfolding SniffRetry by (intro exI conjI, rule sniff_step.retry_done) simp_all
next
  case (SniffWatch lan hit ls)
  show ?thesis
    unfolding SniffWatch by (intro exI conjI, rule sniff_step.watch_cancelled) simp_all
qed (use assms in simp)

lemma sniff_ends:
  assumes "sys_inv o1 y" and "parent_done (px y)"
  shows "\<exists>y'. sys_run os ctx ops y y' \<and> sniff_at y' = SniffReturned \<and> sniff_only y y'"
  using assms
proof (induction "sniff_rank (sniff_at y)" arbitrary: y rule: less_induct)
  case less
  show ?case
  proof (cases "sniff_at y = SniffReturned")
    case True
    with less.prems show ?thesis by (auto simp: sniff_only_def)
  next
    case False
    obtain pc s w where st: "sniff_step os ctx ops True (sniff_at y, shared y, world y) (pc, s, w)"
      "sniff_rank pc < sniff_rank (sniff_at y)"
      using sniff_can_step [OF False, where os = os and ctx = ctx and ops = ops and s = "shared y" and w = "world y"]
      by blast
    then have st': "sniff_step os ctx ops (parent_done (px y)) (sniff_at y, shared y, world y) (pc, s, w)"
      using less.prems(2) by simp
    let ?y1 = "y\<lparr>sniff_at := pc, px := with_svc s (px y), world := w\<rparr>"
    have step: "sys_own os ctx ops y ?y1" by (rule sys_own_same [OF sys_step.sniff [OF st']]) simp_all
    have "sys_inv o1 ?y1" "parent_done (px ?y1)" "sniff_rank (sniff_at ?y1) < sniff_rank (sniff_at y)"
      using inv_sniff [OF less.prems(1) st'] less.prems(2) st(2) by simp_all
    from less.hyps [OF this(3,1,2)] obtain y' where
      "sys_run os ctx ops ?y1 y'" "sniff_at y' = SniffReturned" "sniff_only ?y1 y'" by blast
    with step show ?thesis
      by (intro exI [of _ y']) (auto simp: sniff_only_def intro: converse_rtranclp_into_rtranclp)
  qed
qed

lemma sys_own_dns:
  assumes "dns_step (parent_done (px y)) (dns_at y, shared y) (pc, s)" and "dns_error pc = None"
    and "if dns_at y = DnsServing then dns_running pc else True"
  shows "sys_own os ctx ops y (y\<lparr>dns_at := pc, px := with_svc s (px y)\<rparr>)"
proof -
  have "dns_error (dns_at y) = None" using assms(1) by (cases "dns_at y") (auto elim: dns_stepE)
  with sys_step.dns [OF assms(1), of os ctx ops] assms(2,3) show ?thesis
    by (simp add: sys_own_def undisturbed_def accepts_undisturbed_same start_return_def split: if_splits)
qed

lemma dns_closed_ends:
  assumes "dns_at y = DnsClosed" and "parent_done (px y)"
  shows "\<exists>y' r. sys_run os ctx ops y y' \<and> dns_at y' = DnsReturned r \<and> parent_done (px y')
     \<and> main (px y') = main (px y) \<and> sup_at y' = sup_at y \<and> pin_at y' = pin_at y \<and> sniff_at y' = sniff_at y"
proof -
  let ?y' = "y\<lparr>dns_at := DnsReturned None, px := with_svc (dns_started False (shared y)) (px y)\<rparr>"
  have "dns_step (parent_done (px y)) (dns_at y, shared y) (DnsReturned None, dns_started False (shared y))"
    using assms(1) by (simp add: dns_step.dns_stopped)
  from sys_own_dns [OF this] assms(1) have "sys_own os ctx ops y ?y'" by simp
  with assms(2) show ?thesis by (intro exI [of _ ?y'] exI [of _ None]) (auto intro: r_into_rtranclp)
qed

lemma dns_ends:
  assumes "parent_done (px y)"
  shows "\<exists>y' r. sys_run os ctx ops y y' \<and> dns_at y' = DnsReturned r \<and> parent_done (px y')
     \<and> main (px y') = main (px y) \<and> sup_at y' = sup_at y \<and> pin_at y' = pin_at y \<and> sniff_at y' = sniff_at y"
proof (cases "dns_at y")
  case (DnsReturned r)
  with assms show ?thesis by auto
next
  case DnsWait
  let ?y' = "y\<lparr>dns_at := DnsReturned None, px := with_svc (dns_started False (shared y)) (px y)\<rparr>"
  have "dns_step (parent_done (px y)) (dns_at y, shared y) (DnsReturned None, dns_started False (shared y))"
    using DnsWait assms by (simp add: dns_step.dns_cancelled)
  from sys_own_dns [OF this] DnsWait have "sys_own os ctx ops y ?y'" by simp
  with assms show ?thesis by (intro exI [of _ ?y'] exI [of _ None]) (auto intro: r_into_rtranclp)
next
  case DnsServing
  let ?y1 = "y\<lparr>dns_at := DnsClosed, px := with_svc (shared y) (px y)\<rparr>"
  have "dns_step (parent_done (px y)) (dns_at y, shared y) (DnsClosed, shared y)"
    using DnsServing assms by (simp add: dns_step.dns_shutdown)
  from sys_own_dns [OF this] DnsServing have "sys_own os ctx ops y ?y1" by simp
  moreover obtain y' r where "sys_run os ctx ops ?y1 y'" "dns_at y' = DnsReturned r" "parent_done (px y')"
    "main (px y') = main (px y)" "sup_at y' = sup_at y" "pin_at y' = pin_at y" "sniff_at y' = sniff_at y"
    using dns_closed_ends [of ?y1 os ctx ops] assms by auto
  ultimately show ?thesis
    by (intro exI [of _ y'] exI [of _ r] conjI) (auto intro: converse_rtranclp_into_rtranclp)
next
  case DnsClosed
  from dns_closed_ends [OF this assms] show ?thesis .
qed

text \<open>The proxy's own steps to its return, as steps of the system.\<close>

lemma loops_undisturbed_cancel [simp]: "loops_undisturbed x (lan (cancel_group p)) = loops_undisturbed x (lan p)"
  by (simp add: loops_undisturbed_def cancel_group_def)

lemma cancel_group_fields [simp]:
  "loop_pc (cancel_group p) = loop_pc p" "loop_ext (cancel_group p) = loop_ext p"
  "ext_closed (lan (cancel_group p)) = ext_closed (lan p)"
  by (simp_all add: cancel_group_def)

definition proxy_binds :: "proxy_sys \<Rightarrow> proxy_sys \<Rightarrow> bool" where
  "proxy_binds p p' \<longleftrightarrow> proxy_alone p p' \<and> (main p = Waiting \<longrightarrow> proxy_error (main p') = None)"

lemma proxy_run_sys:
  assumes "proxy_binds\<^sup>*\<^sup>* (px y) p"
  shows "\<exists>y'. sys_run os ctx ops y y' \<and> (px y' = p \<or> (\<exists>r. main (px y') = ProxyReturned r))
     \<and> sup_at y' = sup_at y \<and> dns_at y' = dns_at y \<and> pin_at y' = pin_at y \<and> sniff_at y' = sniff_at y"
  using assms
proof (induction rule: rtranclp_induct)
  case base
  then show ?case by blast
next
  case (step p p')
  then obtain y1 where y1: "sys_run os ctx ops y y1" "px y1 = p \<or> (\<exists>r. main (px y1) = ProxyReturned r)"
    "sup_at y1 = sup_at y" "dns_at y1 = dns_at y" "pin_at y1 = pin_at y" "sniff_at y1 = sniff_at y" by blast
  show ?case
  proof (cases "\<exists>r. main (px y1) = ProxyReturned r")
    case True
    with y1 show ?thesis by blast
  next
    case False
    with y1(2) have px: "px y1 = p" by blast
    let ?y2 = "start_return (proxy_error (main p')) (y1\<lparr>px := p'\<rparr>)"
    have "sys_step os ctx ops y1 ?y2"
      using False px step.hyps(2) by (intro sys_step.proxy) (auto simp: proxy_binds_def proxy_alone_def)
    then have "sys_own os ctx ops y1 ?y2"
      using step.hyps(2) px
      by (simp add: sys_own_def undisturbed_def proxy_binds_def proxy_alone_def proxy_own_def start_return_def
          accepts_undisturbed_def split: option.split)
    with y1(1) have "sys_run os ctx ops y ?y2" by (rule rtranclp.rtrancl_into_rtrancl)
    moreover have "px ?y2 = p' \<or> (\<exists>r. main (px ?y2) = ProxyReturned r)"
      by (cases "main p'") (simp_all add: start_return_def split: option.split)
    moreover have "sup_at ?y2 = sup_at y" "dns_at ?y2 = dns_at y" "pin_at ?y2 = pin_at y" "sniff_at ?y2 = sniff_at y"
      using y1(3-6) by (simp_all add: start_return_def split: option.split)
    ultimately show ?thesis by blast
  qed
qed

lemma proxy_run_binds: "proxy_run p p' \<Longrightarrow> main p = Serving \<Longrightarrow> proxy_binds\<^sup>*\<^sup>* p p'"
proof -
  assume run: "proxy_run p p'" and m: "main p = Serving"
  have "proxy_binds\<^sup>*\<^sup>* p p' \<and> main p' \<noteq> Waiting"
    using run
  proof (induction rule: rtranclp_induct)
    case base
    with m show ?case by simp
  next
    case (step q q')
    have "proxy_step q q'" using step.hyps(2) by (simp add: proxy_alone_def proxy_own_def)
    then have "main q' \<noteq> Waiting" using step.IH proxy_step_main by (cases "main q") (fastforce elim: proxy_stepE)+
    with step show ?case by (auto simp: proxy_binds_def intro: rtranclp.rtrancl_into_rtrancl)
  qed
  then show ?thesis ..
qed

lemma proxy_can_return:
  assumes "proxy_inv p" and "parent_done p"
  shows "\<exists>p' r. proxy_binds\<^sup>*\<^sup>* p p' \<and> main p' = ProxyReturned r"
proof (cases "main p")
  case Waiting
  let ?p' = "(with_svc (proxy_started False (psvc p)) p)\<lparr>main := ProxyReturned None\<rparr>"
  have "proxy_own p ?p'"
    using proxy_step.wait_cancelled [OF Waiting assms(2)]
    by (simp add: proxy_own_def own_svc_def proxy_started_def)
  then have "proxy_binds p ?p'" by (simp add: proxy_binds_def proxy_alone_same)
  then show ?thesis by (intro exI [of _ ?p'] exI [of _ None]) (auto intro: r_into_rtranclp)
next
  case Serving
  then have "ctx_done (lan p)" using assms by (simp add: proxy_inv_def)
  from proxy_shutdown [OF assms(1) Serving this] proxy_run_binds [OF _ Serving] show ?thesis by blast
next
  case (ProxyReturned r)
  then show ?thesis by blast
qed

lemma proxy_ends:
  assumes "sys_inv o1 y" and "parent_done (px y)"
  shows "\<exists>y' r. sys_run os ctx ops y y' \<and> main (px y') = ProxyReturned r
     \<and> sup_at y' = sup_at y \<and> dns_at y' = dns_at y \<and> pin_at y' = pin_at y \<and> sniff_at y' = sniff_at y"
proof -
  obtain p r where p: "proxy_binds\<^sup>*\<^sup>* (px y) p" "main p = ProxyReturned r"
    using proxy_can_return [OF sys_invD(4) [OF assms(1)] assms(2)] by blast
  from proxy_run_sys [OF p(1)] p(2) show ?thesis by metis
qed

lemma all_end:
  assumes "sys_inv o1 y" and "arp_sound ops" and "parent_done (px y)"
  shows "\<exists>y'. sys_run os ctx ops y y' \<and> all_returned y'"
proof -
  obtain y1 where y1: "sys_run os ctx ops y y1" "sup_at y1 = SupReturned" "sup_only y y1"
    using sup_ends [OF assms] by blast
  have i1: "sys_inv o1 y1" "parent_done (px y1)"
    using sys_run_inv [OF y1(1) assms(2,1)] y1(3) by (simp_all add: sup_only_def)
  obtain y2 where y2: "sys_run os ctx ops y1 y2" "pin_at y2 = PinReturned" "pin_only y1 y2"
    using pin_ends [OF i1(1) assms(2) i1(2)] by blast
  have i2: "sys_inv o1 y2" "parent_done (px y2)" "sup_at y2 = SupReturned"
    using sys_run_inv [OF y2(1) assms(2) i1(1)] y2(3) y1(2) by (simp_all add: pin_only_def)
  obtain y3 where y3: "sys_run os ctx ops y2 y3" "sniff_at y3 = SniffReturned" "sniff_only y2 y3"
    using sniff_ends [OF i2(1,2)] by blast
  have i3: "sys_inv o1 y3" "parent_done (px y3)" "sup_at y3 = SupReturned" "pin_at y3 = PinReturned"
    using sys_run_inv [OF y3(1) assms(2) i2(1)] y3(3) y2(2) i2(3) by (simp_all add: sniff_only_def)
  obtain y4 r where y4: "sys_run os ctx ops y3 y4" "dns_at y4 = DnsReturned r" "parent_done (px y4)"
    "sup_at y4 = SupReturned" "pin_at y4 = PinReturned" "sniff_at y4 = SniffReturned"
    using dns_ends [OF i3(2)] i3(3,4) y3(2) by metis
  have i4: "sys_inv o1 y4" by (rule sys_run_inv [OF y4(1) assms(2) i3(1)])
  obtain y5 q where y5: "sys_run os ctx ops y4 y5" "main (px y5) = ProxyReturned q"
    "sup_at y5 = sup_at y4" "dns_at y5 = dns_at y4" "pin_at y5 = pin_at y4" "sniff_at y5 = sniff_at y4"
    using proxy_ends [OF i4 y4(3)] by blast
  have "all_returned y5" using y4(2,4-6) y5 by (simp add: all_returned_def)
  moreover have "sys_run os ctx ops y y5"
    using y1(1) y2(1) y3(1) y4(1) y5(1) by (meson rtranclp_trans)
  ultimately show ?thesis by blast
qed

text \<open>What holds once all five have returned, and stays so whatever connections still do.\<close>

lemma returned_state:
  assumes "sys_inv o1 y" and "all_returned y"
  shows "(case start_err y of
       None \<Rightarrow> signalled y \<and> main (px y) = ProxyReturned None \<and> dns_at y = DnsReturned None
     | Some e \<Rightarrow> main (px y) = ProxyReturned (Some e) \<or> dns_at y = DnsReturned (Some e))
     \<and> \<not> CiscoConnected (status (shared y)) \<and> \<not> PFDisabled (status (shared y))
     \<and> \<not> ProxyStarted (status (shared y)) \<and> \<not> DNSStarted (status (shared y)) \<and> conns (shared y) = []"
proof -
  obtain r q where ret: "sup_at y = SupReturned" "main (px y) = ProxyReturned r" "dns_at y = DnsReturned q"
    using assms(2) by (auto simp: all_returned_def)
  have g: "group_inv y" "proxy_inv (px y)" "svc_inv o1 y" using assms(1) by (simp_all add: sys_inv_def)
  have "\<not> CiscoConnected (status (shared y))" "status_ok (status (shared y))"
    using g(3) ret(1) by (simp_all add: svc_inv_def sup_safe_def sup_inv_def)
  with g ret show ?thesis
    by (auto simp: group_inv_def ended_quietly_def proxy_inv_def svc_inv_def status_ok_def split: option.split)
qed

lemma returned_stays:
  assumes "sys_step os ctx ops y y'" and "all_returned y"
  shows "all_returned y' \<and> start_err y' = start_err y"
  using assms(1)
proof cases
  case (dns pc s)
  with assms(2) show ?thesis by (auto simp: all_returned_def elim: dns_stepE)
next
  case (sniff pc s w)
  with assms(2) show ?thesis by (auto simp: all_returned_def elim: sniff_stepE)
qed (use assms(2) in \<open>auto simp: all_returned_def\<close>)

section \<open>The errors in their order\<close>

text \<open>
  A run of the service with the errors its goroutines have returned so far, in the order in which
  they did. Nothing here speaks of the error the group keeps.
\<close>

definition newly :: "go_error option \<Rightarrow> go_error option \<Rightarrow> go_error list" where
  "newly before after = (case after of Some e \<Rightarrow> if before = None then [e] else [] | None \<Rightarrow> [])"

definition new_errors :: "'w sys \<Rightarrow> 'w sys \<Rightarrow> go_error list" where
  "new_errors y y' = newly (proxy_error (main (px y))) (proxy_error (main (px y')))
     @ newly (dns_error (dns_at y)) (dns_error (dns_at y'))"

inductive sys_errors ::
  "'w os \<Rightarrow> go_ctx \<Rightarrow> 'w pinOps \<Rightarrow> Options \<Rightarrow> go_error list \<Rightarrow> 'w sys \<Rightarrow> bool" for os ctx ops o1 where
  start: "sys_errors os ctx ops o1 [] (Start o1 w)"
| step: "sys_errors os ctx ops o1 es y \<Longrightarrow> sys_step os ctx ops y y' \<Longrightarrow>
    sys_errors os ctx ops o1 (es @ new_errors y y') y'"

lemma sys_errors_reach: "sys_errors os ctx ops o1 es y \<Longrightarrow> sys_reach os ctx ops o1 y"
  by (induction rule: sys_errors.induct) (auto intro: sys_reach.intros)

lemma sys_reach_errors: "sys_reach os ctx ops o1 y \<Longrightarrow> \<exists>es. sys_errors os ctx ops o1 es y"
  by (induction rule: sys_reach.induct) (auto intro: sys_errors.intros)

lemma newly_same [simp]: "newly r r = []"
  by (simp add: newly_def split: option.split)

definition first_of :: "go_error list \<Rightarrow> go_error option" where
  "first_of es = (case es of [] \<Rightarrow> None | e # _ \<Rightarrow> Some e)"

lemma first_of_return:
  "first_of (es @ newly None r) = (if first_of es = None then r else first_of es)"
  by (cases es; cases r) (simp_all add: first_of_def newly_def)

lemma start_return_keeps [simp]:
  "main (px (start_return r y)) = main (px y)" "dns_at (start_return r y) = dns_at y"
  "start_err (start_return r y) = (if start_err y = None then r else start_err y)"
  by (cases r; simp add: start_return_def)+

lemma new_errors_first:
  assumes "sys_step os ctx ops y y'" and "start_err y = first_of es"
  shows "start_err y' = first_of (es @ new_errors y y')"
  using assms(1)
proof cases
  case (proxy p)
  then have "proxy_error (main (px y)) = None" by (cases "main (px y)") simp_all
  with proxy assms(2) show ?thesis by (simp add: new_errors_def first_of_return)
next
  case (dns pc s)
  have "dns_error (dns_at y) = None" using dns(2) by (cases "dns_at y") (auto elim: dns_stepE)
  with dns assms(2) show ?thesis by (simp add: new_errors_def first_of_return)
qed (use assms(2) in \<open>simp_all add: new_errors_def\<close>)

lemma first_error_kept: "sys_errors os ctx ops o1 es y \<Longrightarrow> start_err y = first_of es"
proof (induction rule: sys_errors.induct)
  case (start w)
  show ?case by (simp add: Start_def first_of_def)
next
  case (step es y y')
  show ?case by (rule new_errors_first [OF step.hyps(2) step.IH])
qed

section \<open>Properties\<close>

text \<open>
  C6: What \<open>Start\<close> returns and leaves behind. Once all five goroutines have returned, it is the
  error that came first in the run, however many came after it, be it the error of the proxy or of
  the DNS server; and without one a signal ended the program. The VPN, the packet filter, the
  proxy and DNS are then all marked as down, and no connection is tracked.
\<close>

theorem start_returns:
  assumes "sys_errors os ctx ops o1 es y" and "arp_sound ops" and "all_returned y"
  shows "start_err y = (case es of [] \<Rightarrow> None | e # _ \<Rightarrow> Some e)
     \<and> (case start_err y of
       None \<Rightarrow> signalled y \<and> main (px y) = ProxyReturned None \<and> dns_at y = DnsReturned None
     | Some e \<Rightarrow> main (px y) = ProxyReturned (Some e) \<or> dns_at y = DnsReturned (Some e))
     \<and> \<not> CiscoConnected (status (shared y)) \<and> \<not> PFDisabled (status (shared y))
     \<and> \<not> ProxyStarted (status (shared y)) \<and> \<not> DNSStarted (status (shared y)) \<and> conns (shared y) = []"
  using returned_state [OF sys_reach_inv [OF sys_errors_reach [OF assms(1)] assms(2)] assms(3)]
    first_error_kept [OF assms(1)]
  by (simp only: first_of_def simp_thms)

lemma sys_run_reach:
  "sys_run os ctx ops y y' \<Longrightarrow> sys_reach os ctx ops o1 y \<Longrightarrow> sys_reach os ctx ops o1 y'"
  by (induction rule: rtranclp_induct) (auto simp: sys_own_def intro: sys_reach.step)

text \<open>The sample service is stopped by a signal while its proxy serves.\<close>

lemma sample_signalled:
  "\<exists>y. sys_reach mac_os Ctx (route_ops mac_os Ctx) sample_opts y \<and> main (px y) = Serving \<and> parent_done (px y)"
proof -
  obtain y where y: "sys_reach mac_os Ctx (route_ops mac_os Ctx) sample_opts y" "main (px y) = Serving"
    using sample_serving by blast
  from sys_reach.step [OF y(1) sys_step.signal] y(2) show ?thesis by (intro exI conjI) (assumption, simp_all)
qed

theorem start_returns_witness:
  "\<exists>es y. sys_errors mac_os Ctx (route_ops mac_os Ctx) sample_opts es y \<and> all_returned y
     \<and> start_err y = first_of es \<and> \<not> CiscoConnected (status (shared y)) \<and> conns (shared y) = []"
proof -
  obtain y where y: "sys_reach mac_os Ctx (route_ops mac_os Ctx) sample_opts y" "parent_done (px y)"
    using sample_signalled by blast
  from all_end [OF sys_reach_inv [OF y(1) arp_sound_route] arp_sound_route y(2)] obtain y' where
    y': "sys_run mac_os Ctx (route_ops mac_os Ctx) y y'" "all_returned y'" by blast
  have r: "sys_reach mac_os Ctx (route_ops mac_os Ctx) sample_opts y'" by (rule sys_run_reach [OF y'(1) y(1)])
  then obtain es where es: "sys_errors mac_os Ctx (route_ops mac_os Ctx) sample_opts es y'"
    using sys_reach_errors by blast
  from start_returns [OF es arp_sound_route y'(2)]
  have "start_err y' = first_of es" "\<not> CiscoConnected (status (shared y'))" "conns (shared y') = []"
    by (simp_all only: first_of_def simp_thms)
  with es y'(2) show ?thesis by blast
qed

text \<open>
  C7: The program can always be shut down. Once its context is done, by a signal or by the error
  of a goroutine, the goroutines' own steps can take it from any reachable state to the
  return of \<open>Start\<close>: none of them can be left waiting for another. Nothing from outside helps: the
  accept loops and the DNS server end because the service closes their listeners itself.
\<close>

theorem system_stops:
  assumes "sys_reach os ctx ops o1 y" and "arp_sound ops" and "parent_done (px y)"
  shows "\<exists>y'. sys_run os ctx ops y y' \<and> all_returned y'"
  by (rule all_end [OF sys_reach_inv [OF assms(1,2)] assms(2,3)])

theorem system_stops_witness:
  "\<exists>y y'. sys_reach mac_os Ctx (route_ops mac_os Ctx) sample_opts y \<and> main (px y) = Serving
     \<and> sys_run mac_os Ctx (route_ops mac_os Ctx) y y' \<and> all_returned y'"
proof -
  obtain y where y: "sys_reach mac_os Ctx (route_ops mac_os Ctx) sample_opts y" "main (px y) = Serving"
    "parent_done (px y)" using sample_signalled by blast
  from system_stops [OF y(1) arp_sound_route y(3)] y(1,2) show ?thesis by blast
qed

end
