(* ===== verification/System_Up.thy ===== *)
theory System_Up
  imports System_Stop
begin

text \<open>
  How the service comes up: with an agent that is connected, the goroutines' own steps lead from
  every reachable state under a live context to the proxy, the DNS server and the pinner at work.
\<close>

section \<open>The supervisor\<close>

text \<open>One stage of the supervisor, which leaves the places of the others alone.\<close>

lemma sup_own_stage:
  assumes "sys_inv o1 y" and "sup_stage os ctx (sup_at y, supv y, shared y, world y) = Some (pc, sv, s, w)"
  obtains y1 where "sys_own os ctx ops y y1" and "sys_inv o1 y1" and "sup_at y1 = pc" and "supv y1 = sv"
    and "shared y1 = s" and "world y1 = w" and "pcs_same y y1"
proof -
  let ?y1 = "y\<lparr>sup_at := pc, supv := sv, px := sup_put (sup_at y) s (px y), world := w\<rparr>"
  have "sys_own os ctx ops y ?y1" by (rule sys_own_sup [OF assms(2)])
  moreover have "sys_inv o1 ?y1" using inv_sup_work [OF assms] by blast
  ultimately show ?thesis by (rule that) (simp_all add: pcs_same_def)
qed

lemma pcs_same_refl [simp]: "pcs_same y y"
  by (simp add: pcs_same_def)

lemma pcs_same_trans: "pcs_same x y \<Longrightarrow> pcs_same y z \<Longrightarrow> pcs_same x z"
  by (simp add: pcs_same_def)

text \<open>Any number of stages, to a place of a lower rank.\<close>

lemma sup_goes_down:
  assumes "sys_inv o1 y" and "k \<le> sup_rank (sup_at y)"
    and lower: "\<And>pc st pc' st'. sup_stage os ctx (pc, st) = Some (pc', st') \<Longrightarrow> k < sup_rank pc \<Longrightarrow> k \<le> sup_rank pc'"
  shows "\<exists>y'. sys_run os ctx ops y y' \<and> sys_inv o1 y' \<and> sup_rank (sup_at y') = k
     \<and> (sup_at y' = SupReturned \<longrightarrow> sup_at y = SupReturned) \<and> pcs_same y y'"
  using assms(1,2)
proof (induction "sup_rank (sup_at y)" arbitrary: y rule: less_induct)
  case less
  show ?case
  proof (cases "sup_rank (sup_at y) = k")
    case True
    with less.prems show ?thesis by (intro exI [of _ y]) simp
  next
    case False
    with less.prems have k: "k < sup_rank (sup_at y)" by simp
    obtain pc sv s w where st: "sup_stage os ctx (sup_at y, supv y, shared y, world y) = Some (pc, sv, s, w)"
      by (rule sup_stage_safe [OF sys_invD(5) [OF less.prems(1)]])
    obtain y1 where y1: "sys_own os ctx ops y y1" "sys_inv o1 y1" "sup_at y1 = pc" "pcs_same y y1"
      by (rule sup_own_stage [OF less.prems(1) st])
    have "sup_rank (sup_at y1) < sup_rank (sup_at y)" "k \<le> sup_rank (sup_at y1)"
      using sup_rank_less [OF st] lower [OF st k] k y1(3) by simp_all
    from less.hyps [OF this(1) y1(2) this(2)] obtain y' where
      y': "sys_run os ctx ops y1 y'" "sys_inv o1 y'" "sup_rank (sup_at y') = k"
        "sup_at y' = SupReturned \<longrightarrow> sup_at y1 = SupReturned" "pcs_same y1 y'" by blast
    have "sup_at y1 = SupReturned \<longrightarrow> sup_at y = SupReturned"
      using sup_stage_returned [of os ctx "sup_at y"] st y1(3) by auto
    with y'(4) have "sup_at y' = SupReturned \<longrightarrow> sup_at y = SupReturned" by blast
    then show ?thesis
      using converse_rtranclp_into_rtranclp [OF y1(1) y'(1)] pcs_same_trans [OF y1(4) y'(5)] y'(2,3) by blast
  qed
qed

lemma sup_sleeps:
  assumes "sys_inv o1 y" and "sup_at y \<noteq> SupReturned"
  shows "\<exists>y' d. sys_run os ctx ops y y' \<and> sys_inv o1 y' \<and> sup_at y' = SupSleep d \<and> pcs_same y y'"
proof -
  obtain y' where y': "sys_run os ctx ops y y'" "sys_inv o1 y'" "sup_rank (sup_at y') = 0"
    "sup_at y' \<noteq> SupReturned" "pcs_same y y'"
    using sup_goes_down [OF assms(1), of 0 os ctx ops] assms(2) by auto
  from y'(3,4) obtain d where "sup_at y' = SupSleep d" by (cases "sup_at y'") simp_all
  with y' show ?thesis by blast
qed

lemma sup_rank_before: "sup_stage os ctx (pc, st) = Some (pc', st') \<Longrightarrow> 5 < sup_rank pc \<Longrightarrow> 5 \<le> sup_rank pc'"
  by (cases "(os, ctx, (pc, st))" rule: sup_stage.cases)
    (auto simp: sup_detect_def Let_def split: prod.splits sum.splits if_splits)

lemma sup_asks:
  assumes "sys_inv o1 y" and "sup_at y = SupSleep d"
  shows "\<exists>y'. sys_run os ctx ops y y' \<and> sys_inv o1 y' \<and> sup_at y' = SupStatus \<and> pcs_same y y'"
proof -
  let ?y1 = "y\<lparr>sup_at := SupTick\<rparr>"
  have s: "sys_own os ctx ops y ?y1" by (rule sys_own_same [OF sys_step.sup_wake [OF assms(2)]]) simp_all
  have "sys_inv o1 ?y1" by (rule inv_sup_wake [OF assms])
  have k: "5 \<le> sup_rank (sup_at ?y1)" by simp
  have "\<exists>y'. sys_run os ctx ops ?y1 y' \<and> sys_inv o1 y' \<and> sup_rank (sup_at y') = 5
     \<and> (sup_at y' = SupReturned \<longrightarrow> sup_at ?y1 = SupReturned) \<and> pcs_same ?y1 y'"
    by (rule sup_goes_down [OF \<open>sys_inv o1 ?y1\<close> k]) (rule sup_rank_before)
  then obtain y' where y': "sys_run os ctx ops ?y1 y'" "sys_inv o1 y'" "sup_rank (sup_at y') = 5" "pcs_same ?y1 y'"
    by blast
  have "sup_at y' = SupStatus" using y'(3) by (cases "sup_at y'") simp_all
  moreover have "pcs_same y ?y1" by (simp add: pcs_same_def)
  ultimately show ?thesis
    using converse_rtranclp_into_rtranclp [OF s y'(1)] pcs_same_trans [OF _ y'(4)] y'(2) by blast
qed

text \<open>With an agent that is connected, the switch and what follows it end the tick with the VPN up.\<close>

definition agent_up :: "'w os \<Rightarrow> go_ctx \<Rightarrow> bool" where
  "agent_up os ctx \<longleftrightarrow> (\<forall>w. fst (Status os ctx w) = (StateConnected, None))"

lemma sup_connects:
  assumes "sys_inv o1 y" and "sup_at y = SupStatus" and "agent_up os ctx"
  shows "\<exists>y' d. sys_run os ctx ops y y' \<and> sys_inv o1 y' \<and> sup_at y' = SupSleep d
     \<and> CiscoConnected (status (shared y')) \<and> pcs_same y y'"
proof -
  obtain w1 where "Status os ctx (world y) = ((StateConnected, None), w1)"
    using assms(3) by (metis agent_up_def fst_conv surj_pair)
  then have "sup_stage os ctx (sup_at y, supv y, shared y, world y)
      = Some (SupReact (StateConnected, None), supv y, shared y, w1)" by (simp add: assms(2))
  then obtain y1 where y1: "sys_own os ctx ops y y1" "sys_inv o1 y1" "sup_at y1 = SupReact (StateConnected, None)"
    "pcs_same y y1" by (rule sup_own_stage [OF assms(1)])
  have "sup_stage os ctx (sup_at y1, supv y1, shared y1, world y1)
      = Some (SupAfter ciscoPollInterval, (supv y1)\<lparr>connectDelay := ciscoPollInterval, reconnectingSince := 0\<rparr>,
          setConnected True (shared y1), world y1)" by (simp add: y1(3) sup_switch_def)
  then obtain y2 where y2: "sys_own os ctx ops y1 y2" "sys_inv o1 y2" "sup_at y2 = SupAfter ciscoPollInterval"
    "shared y2 = setConnected True (shared y1)" "pcs_same y1 y2" by (rule sup_own_stage [OF y1(2)])
  have up2: "CiscoConnected (status (shared y2))" using y2(4) by simp
  obtain s w where pf: "disablePF os ctx (shared y2, world y2) = (s, w)" by (metis surj_pair)
  obtain b where "s = (shared y2)\<lparr>status := (status (shared y2))\<lparr>PFDisabled := b\<rparr>\<rparr>"
    using disablePF_frame [of os ctx "shared y2" "world y2"] pf by auto
  then have up3: "CiscoConnected (status s)" using up2 by simp
  have run2: "sys_run os ctx ops y y2" "pcs_same y y2"
    using y1(1,4) y2(1,5) by (auto intro: pcs_same_trans)
  show ?thesis
  proof (cases "readyNotified (supv y2)")
    case True
    then have "sup_stage os ctx (sup_at y2, supv y2, shared y2, world y2)
        = Some (SupSleep ciscoPollInterval, supv y2, s, w)" using up2 pf by (simp add: y2(3) GetState_def)
    then obtain y3 where "sys_own os ctx ops y2 y3" "sys_inv o1 y3" "sup_at y3 = SupSleep ciscoPollInterval"
      "shared y3 = s" "pcs_same y2 y3" by (rule sup_own_stage [OF y2(2)])
    with run2 up3 show ?thesis by (metis pcs_same_trans rtranclp.rtrancl_into_rtrancl)
  next
    case False
    then have "sup_stage os ctx (sup_at y2, supv y2, shared y2, world y2)
        = Some (SupReady ciscoPollInterval, supv y2, s, w)" using up2 pf by (simp add: y2(3) GetState_def)
    then obtain y3 where y3: "sys_own os ctx ops y2 y3" "sys_inv o1 y3" "sup_at y3 = SupReady ciscoPollInterval"
      "shared y3 = s" "pcs_same y2 y3" by (rule sup_own_stage [OF y2(2)])
    obtain pc sv s4 w4 where st: "sup_stage os ctx (sup_at y3, supv y3, shared y3, world y3) = Some (pc, sv, s4, w4)"
      by (rule sup_stage_safe [OF sys_invD(5) [OF y3(2)]])
    then have r: "pc = SupSleep ciscoPollInterval" "CiscoConnected (status s4)"
      using up3 y3(3,4) by (auto simp: close_ciscoReady_def split: if_splits)
    obtain y4 where "sys_own os ctx ops y3 y4" "sys_inv o1 y4" "sup_at y4 = pc" "shared y4 = s4" "pcs_same y3 y4"
      by (rule sup_own_stage [OF y3(2) st])
    with run2 y3(1,5) r show ?thesis by (metis pcs_same_trans rtranclp.rtrancl_into_rtrancl)
  qed
qed

section \<open>The others\<close>

text \<open>Once \<open>ciscoReady\<close> is closed, each of the three that wait for it can go on.\<close>

definition stays_up :: "'w sys \<Rightarrow> 'w sys \<Rightarrow> bool" where
  "stays_up y y' \<longleftrightarrow> ciscoReady (shared y') \<and> CiscoConnected (status (shared y')) = CiscoConnected (status (shared y))
     \<and> parent_done (px y') = parent_done (px y)"

lemma proxy_comes_up:
  assumes "ciscoReady (shared y)" and "main (px y) = Waiting \<or> main (px y) = Serving"
  shows "\<exists>y'. sys_run os ctx ops y y' \<and> main (px y') = Serving \<and> dns_at y' = dns_at y \<and> pin_at y' = pin_at y \<and> stays_up y y'"
proof (cases "main (px y) = Serving")
  case True
  with assms(1) show ?thesis by (intro exI [of _ y]) (simp add: stays_up_def)
next
  case False
  with assms(2) have w: "main (px y) = Waiting" by simp
  have own: "proxy_own (px y) (start_serving (px y))"
    using proxy_step.listening [OF w assms(1)]
    by (simp add: proxy_own_def start_serving_def own_svc_def proxy_started_def Let_def)
      (simp add: serveLAN_start_def)
  have m: "main (start_serving (px y)) = Serving" by (simp add: start_serving_def Let_def)
  let ?y' = "y\<lparr>px := start_serving (px y)\<rparr>"
  from sys_step.proxy [OF _ own, of os ctx ops] w m have "sys_step os ctx ops y ?y'" by (simp add: start_return_def)
  then have "sys_own os ctx ops y ?y'"
    using own w m by (simp add: sys_own_def undisturbed_def accepts_undisturbed_def proxy_own_def)
  then show ?thesis
    using assms(1) m own
    by (intro exI [of _ ?y']) (auto simp: stays_up_def start_serving_def proxy_started_def serveLAN_start_def Let_def intro: r_into_rtranclp)
qed

lemma dns_comes_up:
  assumes "ciscoReady (shared y)" and "dns_at y = DnsWait \<or> dns_at y = DnsServing"
  shows "\<exists>y'. sys_run os ctx ops y y' \<and> dns_at y' = DnsServing \<and> main (px y') = main (px y) \<and> pin_at y' = pin_at y \<and> stays_up y y'"
proof (cases "dns_at y = DnsServing")
  case True
  with assms(1) show ?thesis by (intro exI [of _ y]) (simp add: stays_up_def)
next
  case False
  with assms(2) have w: "dns_at y = DnsWait" by simp
  let ?y' = "y\<lparr>dns_at := DnsServing, px := with_svc (dns_started True (shared y)) (px y)\<rparr>"
  have "dns_step (parent_done (px y)) (dns_at y, shared y) (DnsServing, dns_started True (shared y))"
    unfolding w by (rule dns_step.dns_listening [OF assms(1)])
  from sys_own_dns [OF this] w have "sys_own os ctx ops y ?y'" by simp
  with assms(1) show ?thesis
    by (intro exI [of _ ?y']) (auto simp: stays_up_def dns_started_def intro: r_into_rtranclp)
qed

lemma pin_comes_up:
  assumes "ciscoReady (shared y)" and "pin_at y \<noteq> PinReturned"
  shows "\<exists>y'. sys_run os ctx ops y y' \<and> pin_running (pin_at y') \<and> main (px y') = main (px y) \<and> dns_at y' = dns_at y \<and> stays_up y y'"
proof (cases "pin_running (pin_at y)")
  case True
  with assms(1) show ?thesis by (intro exI [of _ y]) (simp add: stays_up_def)
next
  case False
  with assms(2) have "pin_at y = PinWait" by (cases "pin_at y") simp_all
  then have "sys_own os ctx ops y (y\<lparr>pin_at := PinSleep 0\<rparr>)"
    using assms(1) by (intro sys_own_same [OF sys_step.pin_ready]) simp_all
  with assms(1) show ?thesis
    by (intro exI [of _ "y\<lparr>pin_at := PinSleep 0\<rparr>"]) (auto simp: stays_up_def intro: r_into_rtranclp)
qed

section \<open>The whole service\<close>

text \<open>Every goroutine that serves is at work, and the flags say so.\<close>

definition service_up :: "'w sys \<Rightarrow> bool" where
  "service_up y \<longleftrightarrow> CiscoConnected (status (shared y)) \<and> ciscoReady (shared y)
     \<and> main (px y) = Serving \<and> dns_at y = DnsServing \<and> pin_running (pin_at y)"

lemma sys_run_trans: "sys_run os ctx ops x y \<Longrightarrow> sys_run os ctx ops y z \<Longrightarrow> sys_run os ctx ops x z"
  by (rule rtranclp_trans)

lemma connects_when_up:
  assumes "sys_inv o1 y" and "sup_at y \<noteq> SupReturned" and "agent_up os ctx"
  shows "\<exists>y'. sys_run os ctx ops y y' \<and> CiscoConnected (status (shared y')) \<and> ciscoReady (shared y') \<and> pcs_same y y'"
proof -
  obtain y1 d where y1: "sys_run os ctx ops y y1" "sys_inv o1 y1" "sup_at y1 = SupSleep d" "pcs_same y y1"
    using sup_sleeps [OF assms(1,2)] by blast
  obtain y2 where y2: "sys_run os ctx ops y1 y2" "sys_inv o1 y2" "sup_at y2 = SupStatus" "pcs_same y1 y2"
    using sup_asks [OF y1(2,3)] by blast
  obtain y3 d' where y3: "sys_run os ctx ops y2 y3" "sys_inv o1 y3" "sup_at y3 = SupSleep d'"
    "CiscoConnected (status (shared y3))" "pcs_same y2 y3"
    using sup_connects [OF y2(2,3) assms(3)] by blast
  have "ciscoReady (shared y3)"
    using sys_invD(5) [OF y3(2)] y3(3,4) by (simp add: sup_safe_def)
  with y3(4) sys_run_trans [OF y1(1) sys_run_trans [OF y2(1) y3(1)]]
    pcs_same_trans [OF y1(4) pcs_same_trans [OF y2(4) y3(5)]]
  show ?thesis by blast
qed

text \<open>A reached state whose context lives has none of its goroutines returned.\<close>

lemma live_state:
  assumes "sys_inv o1 y" and "\<not> parent_done (px y)"
  shows "sup_at y \<noteq> SupReturned" and "pin_at y \<noteq> PinReturned" and "main (px y) = Waiting \<or> main (px y) = Serving"
    and "dns_at y = DnsWait \<or> dns_at y = DnsServing"
proof -
  have g: "start_err y = None" "\<not> ended_quietly (sup_at y) (pin_at y) (dns_at y)"
    "proxy_error (main (px y)) = None" "dns_error (dns_at y) = None"
    using sys_invD(3) [OF assms(1)] assms(2) by (auto simp: group_inv_def)
  from g(2) show "sup_at y \<noteq> SupReturned" "pin_at y \<noteq> PinReturned" by (simp_all add: ended_quietly_def)
  from g(2,4) show "dns_at y = DnsWait \<or> dns_at y = DnsServing"
    by (cases "dns_at y") (auto simp: ended_quietly_def)
  show "main (px y) = Waiting \<or> main (px y) = Serving"
    using sys_invD(4) [OF assms(1)] g(3) assms(2) by (cases "main (px y)") (auto simp: proxy_inv_def result_ok_def)
qed

text \<open>
  C8: The service comes up. With an agent that reports the tunnel connected, the goroutines' own
  steps lead from every reachable state whose context lives to one where the VPN is marked
  connected and \<open>ciscoReady\<close> is closed, the proxy and the DNS server serve and the pinner runs:
  no goroutine waits for another that waits for it.
\<close>

theorem system_comes_up:
  assumes "sys_reach os ctx ops o1 y" and "arp_sound ops" and "agent_up os ctx"
    and "\<not> parent_done (px y)"
  shows "\<exists>y'. sys_run os ctx ops y y' \<and> service_up y' \<and> \<not> parent_done (px y')"
proof -
  have inv: "sys_inv o1 y" by (rule sys_reach_inv [OF assms(1,2)])
  note live = live_state [OF inv assms(4)]
  obtain y1 where y1: "sys_run os ctx ops y y1" "CiscoConnected (status (shared y1))" "ciscoReady (shared y1)"
    "pcs_same y y1" using connects_when_up [OF inv live(1) assms(3)] by blast
  have at1: "main (px y1) = Waiting \<or> main (px y1) = Serving" "dns_at y1 = DnsWait \<or> dns_at y1 = DnsServing"
    "pin_at y1 \<noteq> PinReturned" "\<not> parent_done (px y1)"
    using y1(4) live assms(4) by (simp_all add: pcs_same_def)
  obtain y2 where y2: "sys_run os ctx ops y1 y2" "main (px y2) = Serving" "dns_at y2 = dns_at y1"
    "pin_at y2 = pin_at y1" "stays_up y1 y2" using proxy_comes_up [OF y1(3) at1(1)] by blast
  have r2: "ciscoReady (shared y2)" and d2: "dns_at y2 = DnsWait \<or> dns_at y2 = DnsServing"
    using y2(3,5) at1(2) by (simp_all add: stays_up_def)
  obtain y3 where y3: "sys_run os ctx ops y2 y3" "dns_at y3 = DnsServing" "main (px y3) = main (px y2)"
    "pin_at y3 = pin_at y2" "stays_up y2 y3" using dns_comes_up [OF r2 d2] by blast
  have r3: "ciscoReady (shared y3)" and p3: "pin_at y3 \<noteq> PinReturned"
    using y2(4) y3(4,5) at1(3) by (simp_all add: stays_up_def)
  obtain y4 where y4: "sys_run os ctx ops y3 y4" "pin_running (pin_at y4)" "main (px y4) = main (px y3)"
    "dns_at y4 = dns_at y3" "stays_up y3 y4" using pin_comes_up [OF r3 p3] by blast
  have "service_up y4" "\<not> parent_done (px y4)"
    using y1(2) y2(2,5) y3(2,3,5) y4(2-5) at1(4) by (simp_all add: service_up_def stays_up_def)
  with sys_run_trans [OF y1(1) sys_run_trans [OF y2(1) sys_run_trans [OF y3(1) y4(1)]]]
  show ?thesis by blast
qed

text \<open>The sample machine with an agent that is connected whatever is asked of it.\<close>

definition up_os :: "mac_world os" where
  "up_os = mac_os\<lparr>os_exec := (\<lambda>ctx name args stdin w.
     if args = [''-s'', ''state''] then ((''  >> state: Connected'' @ [CHR 0x0A], None), w)
     else mac_exec ctx name args stdin w)\<rparr>"

lemma agent_up_sample: "agent_up up_os Ctx"
proof -
  have "parseState (''  >> state: Connected'' @ [CHR 0x0A]) = StateConnected" by code_simp
  then show ?thesis by (simp add: agent_up_def Status_def Run_def up_os_def)
qed

theorem system_comes_up_witness:
  "\<exists>y'. sys_run up_os Ctx (route_ops up_os Ctx) (Start sample_opts sample_world) y' \<and> service_up y'"
proof -
  have "\<not> parent_done (px (Start sample_opts sample_world))"
    by (simp add: Start_def startProxy_def)
  from system_comes_up [OF sys_reach.start arp_sound_route agent_up_sample this] show ?thesis by blast
qed

end
