(* ===== verification/System_Commands.thy ===== *)
theory System_Commands
  imports System_Safety
begin

text \<open>
  What the program executes. It runs as root, so every command of every interleaving of the
  whole service is held against a list of what it may run, with which arguments: the log of
  the commands, those that are started and those that are run to their end, is kept at the
  boundary to the operating system, beside the world.
\<close>

section \<open>The log of the commands\<close>

type_synonym cmd_log = "(string \<times> string list) list"

definition log_os :: "'w os \<Rightarrow> ('w \<times> cmd_log) os" where
  "log_os os =
     \<lparr>os_exec = (\<lambda>ctx name args stdin (w, l).
        case os_exec os ctx name args stdin w of (r, w') \<Rightarrow> (r, (w', l @ [(name, args)]))),
      os_spawn = (\<lambda>ctx name args (w, l). 
        case os_spawn os ctx name args w of (p, w') \<Rightarrow> (p, (w', l @ [(name, args)]))),
      os_now = (\<lambda>(w, l). case os_now os w of (t, w') \<Rightarrow> (t, (w', l))),
      os_sleep = (\<lambda>ctx d (w, l). case os_sleep os ctx d w of (b, w') \<Rightarrow> (b, (w', l))),
      os_ctx_err = (\<lambda>ctx (w, l). os_ctx_err os ctx w),
      os_interfaces = (\<lambda>(w, l). os_interfaces os w),
      os_interface_by_name = (\<lambda>name (w, l). os_interface_by_name os name w),
      os_addrs = (\<lambda>ifi (w, l). os_addrs os ifi w)\<rparr>"

text \<open>
  What may run. An address is IPv4, a MAC that is written is canonical, and a route is never
  moved to a tunnel. The credentials go to the standard input, not into the arguments.
\<close>

definition v4_text :: "string \<Rightarrow> bool" where
  "v4_text ip = (case ParseAddr ip of Some (V4 w) \<Rightarrow> True | _ \<Rightarrow> False)"

definition physical :: "string \<Rightarrow> bool" where
  "physical iface \<longleftrightarrow> iface \<noteq> [] \<and> \<not> has_prefix ''utun'' iface"

definition permitted :: "string \<Rightarrow> string \<times> string list \<Rightarrow> bool" where
  "permitted profile cmd =
     (case cmd of (name, args) \<Rightarrow>
      if name = ciscoPath then
        args \<in> {[''-s'', ''state''], [''-s'', ''disconnect''], [''-s'', ''connect'', profile]}
      else if name = ''netstat'' then args = [''-rn'', ''-f'', ''inet'']
      else if name = ''pfctl'' then args = [''-d'']
      else if name = ''arp'' then
        (case args of
           [flag, ip] \<Rightarrow> flag = ''-n'' \<and> v4_text ip
         | [flag, ip, mac, kind] \<Rightarrow> flag = ''-S'' \<and> v4_text ip \<and> canonical mac \<and> kind = ''temp''
         | _ \<Rightarrow> False)
      else if name = ''route'' then
        (case args of
           [sub, ip, flag, iface] \<Rightarrow>
             sub = ''change'' \<and> v4_text ip \<and> flag = ''-interface'' \<and> physical iface
         | _ \<Rightarrow> False)
      else if name = ''tcpdump'' then
        (\<exists>iface. physical iface \<and> args = [''-i'', iface, ''-p'', ''-l'', ''-n'', ''-t'', ''-e'', ''-s'', ''128'',
           ''tcp dst port 8080 and tcp[tcpflags] & (tcp-syn|tcp-ack) == tcp-syn''])
      else False)"

lemma permitted_simps [simp]:
  "permitted profile (ciscoPath, [''-s'', ''state''])"
  "permitted profile (ciscoPath, [''-s'', ''disconnect''])"
  "permitted profile (ciscoPath, [''-s'', ''connect'', profile])"
  "permitted profile (''netstat'', [''-rn'', ''-f'', ''inet''])"
  "permitted profile (''pfctl'', [''-d''])"
  "permitted profile (''arp'', [''-n'', ip]) = v4_text ip"
  "permitted profile (''arp'', [''-S'', ip, mac, ''temp'']) = (v4_text ip \<and> canonical mac)"
  "permitted profile (''route'', [''change'', ip, ''-interface'', iface]) = (v4_text ip \<and> physical iface)"
  by (simp_all add: permitted_def ciscoPath_def)

lemma permitted_watch [simp]:
  "permitted profile (''tcpdump'', watch_args iface proxyPort) = physical iface"
  by (auto simp: permitted_def ciscoPath_def watch_args_def proxyPort_def)

section \<open>A guarded world\<close>

text \<open>
  The contract between the operations and the world: what they run is permitted, so a property of
  the world that permitted commands keep holds after every operation.
\<close>

locale guarded_os =
  fixes os :: "'w os" and profile :: string and K :: "'w \<Rightarrow> bool"
  assumes exec_keeps: "K w \<Longrightarrow> permitted profile (name, args) \<Longrightarrow> K (snd (os_exec os ctx name args stdin w))"
    and spawn_keeps: "K w \<Longrightarrow> permitted profile (name, args) \<Longrightarrow> K (snd (os_spawn os ctx name args w))"
    and now_keeps: "K w \<Longrightarrow> K (snd (os_now os w))"
begin

lemma spawn_to: "os_spawn os ctx name args w = (p, w') \<Longrightarrow> K w \<Longrightarrow> permitted profile (name, args) \<Longrightarrow> K w'"
  using spawn_keeps [of w name args ctx] by simp

lemma run_keeps: "K w \<Longrightarrow> permitted profile (name, args) \<Longrightarrow> K (snd (Run os ctx name args w))"
  by (simp add: Run_world exec_keeps)

lemma run_to: "Run os ctx name args w = (r, w') \<Longrightarrow> K w \<Longrightarrow> permitted profile (name, args) \<Longrightarrow> K w'"
  using run_keeps [of w name args ctx] by simp

lemma now_to: "os_now os w = (t, w') \<Longrightarrow> K w \<Longrightarrow> K w'"
  using now_keeps [of w] by simp

lemma status_to: "Status os ctx w = (r, w') \<Longrightarrow> K w \<Longrightarrow> K w'"
  by (auto simp: Status_def split: prod.splits option.splits intro: run_to)

lemma connect_vpn_to:
  assumes "Connect os ctx p user pw w = (r, w')" and "p = profile" and "K w"
  shows "K w'"
proof -
  let ?in = "user @ [CHR 0x0A] @ pw @ [CHR 0x0A] @ ''y'' @ [CHR 0x0A]"
  obtain out e w1 where ex: "os_exec os ctx ciscoPath [''-s'', ''connect'', profile] ?in w = ((out, e), w1)"
    by (metis surj_pair)
  have "K w1" using exec_keeps [OF assms(3), of ciscoPath "[''-s'', ''connect'', profile]" ctx ?in] ex by simp
  with assms(1) show ?thesis
    unfolding Connect_def assms(2) ex by (auto split: prod.splits option.splits if_splits dest: status_to)
qed

lemma disconnect_to: "Disconnect os ctx w = (r, w') \<Longrightarrow> K w \<Longrightarrow> K w'"
  by (auto simp: Disconnect_def split: prod.splits option.splits intro: run_to)

lemma disablePF_vpn_to: "DisablePF os ctx w = (r, w') \<Longrightarrow> K w \<Longrightarrow> K w'"
  by (auto simp: DisablePF_def split: prod.splits option.splits if_splits intro: run_to)

lemma detect_to: "DetectLAN os ctx prefer w = (r, w') \<Longrightarrow> K w \<Longrightarrow> K w'"
  by (auto simp: DetectLAN_def Let_def split: prod.splits option.splits sum.splits if_splits intro: run_to)

lemma lookup_to: "LookupARP os ctx ip w = (r, w') \<Longrightarrow> K w \<Longrightarrow> v4_text ip \<Longrightarrow> K w'"
  by (auto simp: LookupARP_def split: prod.splits option.splits intro: run_to)

lemma pin_to:
  "Pin os ctx ip mac iface w = (r, w') \<Longrightarrow> K w \<Longrightarrow> v4_text ip \<Longrightarrow> canonical mac \<Longrightarrow> physical iface \<Longrightarrow> K w'"
  using run_keeps [of w "''route''" "[''change'', ip, ''-interface'', iface]" ctx]
  by (auto simp: Pin_def Let_def split: prod.splits option.splits intro: run_to)

lemma await_to: "awaitReconnect os ctx (sv, w) = (sv', w') \<Longrightarrow> K w \<Longrightarrow> K w'"
  by (auto simp: awaitReconnect_def Let_def split: prod.splits option.splits if_splits
      dest: now_to disconnect_to)

lemma connect_to:
  assumes "connect os ctx (sv, s, w) = (d, sv', s', w')" and "CiscoProfile (opts s) = profile" and "K w"
  shows "K w'"
proof -
  obtain r w1 where c: "Connect os ctx (CiscoProfile (opts s)) (CiscoUser (opts s)) (CiscoPassword (opts s)) w = (r, w1)"
    by (metis surj_pair)
  have "w' = w1" using assms(1) by (auto simp: connect_def c split: option.splits if_splits)
  with connect_vpn_to [OF c assms(2,3)] show ?thesis by simp
qed

lemma disable_to: "disablePF os ctx (s, w) = (s', w') \<Longrightarrow> K w \<Longrightarrow> K w'"
  by (auto simp: disablePF_def split: prod.splits option.splits if_splits dest: disablePF_vpn_to)

lemma shutdown_to:
  assumes "shutdown os ctx (sv, s, w) = (s', w')" and "K w"
  shows "K w'"
proof -
  obtain r w1 where "Disconnect os (WithTimeout (WithoutCancel ctx) ciscoDisconnectTimeout) w = (r, w1)"
    by (metis surj_pair)
  with assms disconnect_to [OF this assms(2)] show ?thesis by (auto simp: shutdown_def Let_def split: if_splits)
qed

lemma stage_to:
  assumes "sup_stage os ctx (pc, sv, s, w) = Some (pc', sv', s', w')" and "CiscoProfile (opts s) = profile" and "K w"
  shows "K w'"
  using assms
  by (cases "(os, ctx, (pc, sv, s, w))" rule: sup_stage.cases)
    (auto simp: sup_detect_def sup_switch_def Let_def split: prod.splits sum.splits if_splits
      dest: detect_to status_to await_to connect_to disable_to)

end

section \<open>The arguments of the pinner and the hooks\<close>

text \<open>The status a walk of the pinner was started with, and the MACs it walks over.\<close>

definition pinnable :: "State \<Rightarrow> bool" where
  "pinnable st \<longleftrightarrow> lan_ok st \<and> LANInterface st \<noteq> []"

fun pin_args :: "pin_pc \<Rightarrow> bool" where
  "pin_args (PinSnap le st) = pinnable st"
| "pin_args (PinWalk le st ims) = (pinnable st \<and> list_all (\<lambda>(ip, mac). known_mac mac) ims)"
| "pin_args (PinDo le st ip todo ims) = (pinnable st \<and> list_all (\<lambda>(ip, mac). known_mac mac) ims \<and>
     (case todo of PinRepinMAC mac \<Rightarrow> v4_text ip \<and> canonical mac | _ \<Rightarrow> True))"
| "pin_args _ = True"

fun hook_args :: "hook_pc \<Rightarrow> bool" where
  "hook_args (HookLook ip st) = v4_text ip"
| "hook_args (HookRecord x) = True"

fun sniff_args :: "sniff_pc \<Rightarrow> bool" where
  "sniff_args (SniffLook sn hit ls ip mac st) = (pinnable st \<and> v4_text ip \<and> canonical mac)"
| "sniff_args pc = True"

definition args_ok :: "'w sys \<Rightarrow> bool" where
  "args_ok y \<longleftrightarrow> pin_args (pin_at y) \<and> list_all hook_args (in_flight y) \<and> sniff_args (sniff_at y)"

lemma pinnable_physical: "pinnable st \<Longrightarrow> physical (LANInterface st)"
  by (simp add: pinnable_def lan_ok_def physical_def)

lemma pinnable_is4: "pinnable st \<Longrightarrow> Contains (LANSubnet st) a \<Longrightarrow> \<exists>w. a = V4 w"
  using Contains_V4_is4 [of "LANSubnet st" _ a]
  by (auto simp: pinnable_def lan_ok_def v4_prefix_def is4_iff)

lemma v4_text_string: "pinnable st \<Longrightarrow> Contains (LANSubnet st) a \<Longrightarrow> v4_text (addr_string a)"
  by (drule (1) pinnable_is4) (auto simp: v4_text_def addr_string_def)

lemma in_scope_v4: "pinnable st \<Longrightarrow> in_scope st ip \<Longrightarrow> v4_text ip"
  by (auto simp: in_scope_def v4_text_def dest!: pinnable_is4 split: option.splits)

lemma snapshot_known: "reg_wf r \<Longrightarrow> list_all (\<lambda>(ip, mac). known_mac mac) (snapshot r)"
  by (auto simp: list_all_iff snapshot_def gm_map_def reg_wf_def gm_wf_def)

lemma hook_state_args: "lan_ok (status s) \<Longrightarrow> list_all hook_args (hook_state c s)"
  by (auto simp: hook_state_def Let_def GetState_def pinnable_def split: option.splits intro: v4_text_string)

lemma syn_state_args:
  "syn_state ip s = Some (key, st) \<Longrightarrow> lan_ok (status s) \<Longrightarrow> pinnable st \<and> v4_text key"
  by (auto simp: syn_state_def Let_def GetState_def pinnable_def split: if_splits intro: v4_text_string)

context guarded_os
begin

lemma pin_look_to:
  assumes "pin_look (route_ops os ctx) st (ip, mac) w = (todo, w')"
    and "pinnable st" and "known_mac mac" and "K w"
  shows "K w' \<and> (case todo of PinRepinMAC m \<Rightarrow> v4_text ip \<and> canonical m | _ \<Rightarrow> True)"
proof (cases "in_scope st ip")
  case False
  then have "pin_look (route_ops os ctx) st (ip, mac) w = (PinNothing, w)"
    by (cases "ParseAddr ip"; cases "ip = addr_string (LANAddr st)"; simp add: pin_look_def in_scope_def)
  with assms show ?thesis by auto
next
  case True
  obtain e found w1 where lk: "LookupARP os ctx ip w = ((e, found), w1)" by (metis surj_pair)
  have ip: "v4_text ip" by (rule in_scope_v4 [OF assms(2) True])
  have "K w1" by (rule lookup_to [OF lk assms(4) ip])
  moreover have "(todo, w') = (case DecidePin e found mac (LANInterface st) of
      PinAdopt \<Rightarrow> (PinAdoptMAC (arp_mac e), w1) | PinRepin \<Rightarrow> (PinRepinMAC mac, w1) | PinNone \<Rightarrow> (PinNothing, w1))"
    using assms(1) True by (auto simp: pin_look_def in_scope_def route_ops_def lk split: option.splits)
  ultimately show ?thesis
    using ip assms(3) by (auto simp: known_mac_def DecidePin_repin split: PinAction.splits)
qed

lemma pin_do_to:
  assumes "pin_do (route_ops os ctx) st ip todo (s, w) = (s', w')" and "pinnable st"
    and "case todo of PinRepinMAC m \<Rightarrow> v4_text ip \<and> canonical m | _ \<Rightarrow> True" and "K w"
  shows "K w'"
proof (cases todo)
  case (PinRepinMAC m)
  obtain r w1 where pin: "Pin os ctx ip m (LANInterface st) w = (r, w1)" by (metis surj_pair)
  have "K w1" using pin_to [OF pin assms(4) _ _ pinnable_physical [OF assms(2)]] assms(3) PinRepinMAC by simp
  with assms(1) PinRepinMAC show ?thesis by (simp add: route_ops_def pin)
qed (use assms in auto)

lemma pin_stage_to:
  assumes "pin_stage (os_now os) (route_ops os ctx) (pc, s, w) = (pc', s', w')"
    and "pin_args pc" and "lan_ok (status s)" and "reg_wf (clients s)" and "K w"
  shows "pin_args pc' \<and> K w'"
  using assms
  by (cases "(os_now os, route_ops os ctx, (pc, s, w))" rule: pin_stage.cases)
    (auto simp: Let_def pinnable_def GetState_def snapshot_known split: prod.splits if_splits
      dest: now_to pin_look_to pin_do_to)

lemma hook_to:
  assumes "hook_stage (os_now os) (route_ops os ctx) h (s, w) = (next, s', w')" and "hook_args h" and "K w"
  shows "list_all hook_args next \<and> K w'"
proof (cases h)
  case (HookLook ip st)
  obtain t w1 where t: "os_now os w = (t, w1)" by (metis surj_pair)
  obtain e found w2 where lk: "LookupARP os ctx ip w1 = ((e, found), w2)" by (metis surj_pair)
  have "K w1" by (rule now_to [OF t assms(3)])
  moreover have "K w2" by (rule lookup_to [OF lk \<open>K w1\<close>]) (use assms(2) HookLook in simp)
  ultimately show ?thesis
    using assms(1) HookLook by (auto simp: hook_look_def t lk route_ops_def split: prod.splits if_splits)
next
  case (HookRecord x)
  with assms show ?thesis by auto
qed

lemma repin_to:
  assumes "pinnable st" and "v4_text ip" and "canonical mac" and "K w"
  shows "K (repinStale (route_ops os ctx) st ip mac w)"
proof -
  obtain e found w1 where lk: "LookupARP os ctx ip w = ((e, found), w1)" by (metis surj_pair)
  have k1: "K w1" by (rule lookup_to [OF lk assms(4,2)])
  obtain r w2 where pin: "Pin os ctx ip mac (LANInterface st) w1 = (r, w2)" by (metis surj_pair)
  have "K w2" by (rule pin_to [OF pin k1 assms(2,3) pinnable_physical [OF assms(1)]])
  with k1 assms(4) show ?thesis by (simp add: repinStale_def route_ops_def lk pin)
qed

lemma syn_to:
  "pinnable st \<Longrightarrow> v4_text ip \<Longrightarrow> canonical mac \<Longrightarrow> K w \<Longrightarrow> K (syn_look (route_ops os ctx) ip mac st (s, w))"
  by (simp add: syn_look_def repin_to split: prod.split)

lemma watch_to:
  "os_spawn os (WithCancel ctx) ''tcpdump'' (watch_args (snap_iface (lan_snapshot s)) proxyPort) w = (p, w') \<Longrightarrow>
   snap_iface (lan_snapshot s) \<noteq> [] \<Longrightarrow> lan_ok (status s) \<Longrightarrow> K w \<Longrightarrow> K w'"
  by (erule spawn_to) (auto simp: physical_def lan_ok_def lan_snapshot_def GetState_def)

lemma sniff_to:
  assumes "sniff_step os ctx (route_ops os ctx') d (pc, s, w) (pc', s', w')" and "lan_ok (status s)"
    and "sniff_args pc" and "K w"
  shows "sniff_args pc' \<and> K w'"
  using assms
  by (auto elim!: sniff_stepE dest: now_to parseSYNLine_sound syn_state_args intro: syn_to watch_to)

text \<open>Every step of the service keeps the property, with the arguments that are carried along.\<close>

lemma step_guarded:
  assumes "sys_step os ctx (route_ops os ctx') y y'" and "sys_inv o1 y" and "CiscoProfile o1 = profile"
    and "args_ok y" and "K (world y)"
  shows "args_ok y' \<and> K (world y')"
proof -
  have st: "lan_ok (status (shared y))" "reg_wf (clients (shared y))" "CiscoProfile (opts (shared y)) = profile"
    using assms(2,3) by (auto simp: sys_inv_def svc_inv_def sup_safe_def sup_inv_def status_ok_def)
  have ret: "args_ok (start_return r z) = args_ok z" "world (start_return r z) = world z" for r and z :: "'w sys"
    by (simp_all add: start_return_def args_ok_def split: option.split)
  show ?thesis
    using assms(1)
  proof cases
    case (sup_work pc sv s w)
    with stage_to [OF sup_work(2) st(3)] assms(4,5) show ?thesis by (simp add: args_ok_def)
  next
    case (sup_stop d s w)
    with shutdown_to [OF sup_stop(4)] assms(4,5) show ?thesis by (simp add: args_ok_def)
  next
    case (pin_work pc s w)
    with pin_stage_to [OF pin_work(2) _ st(1,2)] assms(4,5) show ?thesis by (simp add: args_ok_def)
  next
    case (sniff pc s w)
    with sniff_to [OF sniff(2) st(1)] assms(4,5) show ?thesis by (simp add: args_ok_def)
  next
    case (hook c)
    with hook_state_args [OF st(1)] assms(4,5) show ?thesis by (simp add: args_ok_def)
  next
    case (hook_work hs1 h hs2 hs s w)
    with hook_to [OF hook_work(3)] assms(4,5) show ?thesis by (simp add: args_ok_def)
  qed (use assms(4,5) ret in \<open>simp_all add: args_ok_def\<close>)
qed

lemma run_guarded:
  assumes "(sys_step os ctx (route_ops os ctx'))\<^sup>*\<^sup>* (Start o1 w) y" and "CiscoProfile o1 = profile" and "K w"
  shows "K (world y)"
proof -
  have "sys_reach os ctx (route_ops os ctx') o1 y \<and> args_ok y \<and> K (world y)"
    using assms(1)
  proof (induction rule: rtranclp_induct)
    case base
    show ?case using assms(3) sys_reach.start [of os ctx _ o1 w] by (simp add: Start_def args_ok_def)
  next
    case (step y z)
    then have "sys_reach os ctx (route_ops os ctx') o1 z" by (blast intro: sys_reach.step)
    moreover have "args_ok z \<and> K (world z)"
      using step_guarded [OF step.hyps(2) sys_reach_inv assms(2)] step.IH arp_sound_route by blast
    ultimately show ?case by blast
  qed
  then show ?thesis by blast
qed

end

interpretation logged: guarded_os "log_os os" profile "\<lambda>(w, l). list_all (permitted profile) l" for os profile
  by unfold_locales (auto simp: log_os_def split: prod.splits)

section \<open>Properties\<close>

text \<open>
  C4: Whatever the agent, the network and the clients do and however the goroutines interleave, the
  service as root runs only this: the VPN client with its three fixed subcommands, \<open>netstat\<close>,
  \<open>pfctl -d\<close>, \<open>arp -n\<close> for an IPv4 address, \<open>arp -S\<close> for an IPv4 address with a MAC in canonical
  form, \<open>route change\<close> of an IPv4 address to an interface that has a name and is no tunnel, and
  \<open>tcpdump\<close> on such an interface, with its fixed flags and its one filter for the proxy's port.
  What a client or a tool prints reaches an argument only as one of these, and the VPN client gets
  no argument but the profile: the credentials are never on a command line.
\<close>

theorem system_commands:
  assumes "(sys_step (log_os os) ctx (route_ops (log_os os) ctx'))\<^sup>*\<^sup>* (Start o1 (w, [])) y"
  shows "list_all (permitted (CiscoProfile o1)) (snd (world y))"
  using logged.run_guarded [OF assms refl] by (simp split: prod.splits)

lemma detect_world: "sup_detect os ctx (sv, s, w) = (pc, sv', s', w') \<Longrightarrow>
    w' = snd (Run os ctx ''netstat'' [''-rn'', ''-f'', ''inet''] w)"
  by (auto simp: sup_detect_def DetectLAN_def Let_def split: prod.splits option.splits sum.splits if_splits)

theorem system_commands_witness:
  "\<exists>y. (sys_step (log_os mac_os) Ctx (route_ops (log_os mac_os) Ctx))\<^sup>*\<^sup>* (Start sample_opts (sample_world, [])) y
     \<and> snd (world y) = [(''netstat'', [''-rn'', ''-f'', ''inet''])]
     \<and> list_all (permitted (CiscoProfile sample_opts)) (snd (world y))"
proof -
  let ?step = "sys_step (log_os mac_os) Ctx (route_ops (log_os mac_os) Ctx)"
  let ?y0 = "Start sample_opts (sample_world, [] :: cmd_log)"
  let ?y1 = "?y0\<lparr>sup_at := SupTick\<rparr>"
  have s1: "?step ?y0 ?y1" by (rule sys_step.sup_wake) (simp add: Start_def)
  obtain pc sv s w where d: "sup_detect (log_os mac_os) Ctx (supv ?y1, shared ?y1, world ?y1) = (pc, sv, s, w)"
    by (metis surj_pair)
  let ?y2 = "?y1\<lparr>sup_at := pc, supv := sv, px := sup_put (sup_at ?y1) s (px ?y1), world := w\<rparr>"
  have "?step ?y1 ?y2" by (rule sys_step.sup_work) (use d in simp)
  with s1 have run: "?step\<^sup>*\<^sup>* ?y0 ?y2" by (meson r_into_rtranclp rtranclp.rtrancl_into_rtrancl)
  have "snd (world ?y2) = [(''netstat'', [''-rn'', ''-f'', ''inet''])]"
    using detect_world [OF d] by (simp add: Run_world log_os_def Start_def split: prod.split)
  with run system_commands [OF run] show ?thesis by blast
qed

end
