(* ===== verification/Network_Change.thy ===== *)
theory Network_Change
  imports System_Safety
begin

text \<open>
  A change of the network while a connection's discovery is in flight: the one interleaving in
  which a MAC of the old network outlives the reset of the registry.
\<close>

section \<open>A machine that moves to another network\<close>

text \<open>
  The world counts the calls of \<open>netstat\<close>: the first finds the LAN on \<open>en0\<close>, the later ones on
  \<open>en7\<close>, another network with the same private subnet. The VPN agent does not answer, and the
  kernel knows one client.
\<close>

definition roam_nics :: "(net_iface \<times> if_addr list) list" where
  "roam_nics =
     [(\<lparr>if_name = ''en0'', if_flags = 1\<rparr>,
         [IPNetAddr \<lparr>ip_bytes = [192, 168, 0, 105], mask_bytes = [255, 255, 255, 0]\<rparr>]),
      (\<lparr>if_name = ''en7'', if_flags = 1\<rparr>,
         [IPNetAddr \<lparr>ip_bytes = [192, 168, 0, 50], mask_bytes = [255, 255, 255, 0]\<rparr>])]"

definition roam_netstat :: "string \<Rightarrow> string" where
  "roam_netstat iface = ''default 192.168.0.1 UGScg '' @ iface @ [CHR 0x0A]"

definition roam_mac :: string where "roam_mac = ''aa:bb:cc:dd:ee:ff''"

definition roam_exec ::
  "go_ctx \<Rightarrow> string \<Rightarrow> string list \<Rightarrow> string \<Rightarrow> nat \<Rightarrow> (string \<times> go_error option) \<times> nat" where
  "roam_exec ctx name args stdin n =
     (if name = ''netstat'' then ((roam_netstat (if n = 0 then ''en0'' else ''en7''), None), Suc n)
      else if name = ''arp'' then ((arp_line ''192.168.0.7'' roam_mac ''en0'' [''[ethernet]''], None), n)
      else (([], Some exit_status_1), n))"

definition roam_os :: "nat os" where
  "roam_os =
     \<lparr>os_exec = roam_exec,
      os_spawn = (\<lambda>ctx name args n. (Process [] [] None, n)),
      os_now = (\<lambda>n. (1000000000000, n)),
      os_sleep = (\<lambda>ctx d n. (True, n)),
      os_ctx_err = (\<lambda>ctx n. False),
      os_interfaces = (\<lambda>n. Inr (map fst roam_nics)),
      os_interface_by_name =
        (\<lambda>name n. case find (\<lambda>(i, _). if_name i = name) roam_nics of
             Some (i, _) \<Rightarrow> Inr i | None \<Rightarrow> Inl (Msg ''no such network interface'')),
      os_addrs =
        (\<lambda>ifi n. case find (\<lambda>(i, _). i = ifi) roam_nics of
             Some (_, as) \<Rightarrow> Inr as | None \<Rightarrow> Inl (Msg ''no such network interface''))\<rparr>"

lemma roam_ipv4:
  "ipv4Prefix \<lparr>ip_bytes = [192, 168, 0, 105], mask_bytes = [255, 255, 255, 0]\<rparr> = (Prefix (V4 0xC0A80069) (Some 24), True)"
  "ipv4Prefix \<lparr>ip_bytes = [192, 168, 0, 50], mask_bytes = [255, 255, 255, 0]\<rparr> = (Prefix (V4 0xC0A80032) (Some 24), True)"
  by (simp_all add: ipv4Prefix_def To4_def mask_size_def mask_bits_def upt_rec bytes_to_v4_def
      v4_of_octets_def PrefixFrom_def without_zone_def bit_len_def)

lemma roam_default:
  "parseDefaultNonTunnel (roam_netstat ''en0'') = ''en0''" "parseDefaultNonTunnel (roam_netstat ''en7'') = ''en7''"
  by code_simp+

lemma roam_connected:
  "connectedPrefix roam_os ''en0'' n = Inr (Prefix (V4 0xC0A80069) (Some 24))"
  "connectedPrefix roam_os ''en7'' n = Inr (Prefix (V4 0xC0A80032) (Some 24))"
  by (simp_all add: connectedPrefix_def roam_os_def roam_nics_def roam_ipv4 is_loopback_def
      is_link_local_unicast_def unmap_def)

lemma roam_detect:
  "DetectLAN roam_os ctx want n =
     (if n = 0 then (Inr (Prefix (V4 0xC0A80069) (Some 24), ''en0''), Suc 0)
      else (Inr (Prefix (V4 0xC0A80032) (Some 24), ''en7''), Suc n))"
  by (simp add: DetectLAN_def Run_def roam_os_def roam_exec_def roam_default)
    (simp add: roam_os_def [symmetric] roam_connected)

lemma roam_status: "\<exists>e. Status roam_os ctx n = ((StateUnknown, Some e), n)"
  by (simp add: Status_def Run_def roam_os_def roam_exec_def ciscoPath_def)

lemma roam_masked:
  "Masked (Prefix (V4 0xC0A80069) (Some 24)) = Prefix (V4 0xC0A80000) (Some 24)"
  "Masked (Prefix (V4 0xC0A80032) (Some 24)) = Prefix (V4 0xC0A80000) (Some 24)"
  by (simp_all add: Masked_V4 drop_bit_eq_div push_bit_eq_mult)

lemma roam_lookup:
  "LookupARP roam_os ctx ip n = ((\<lparr>arp_mac = roam_mac, arp_iface = ''en0''\<rparr>, True), n)"
proof -
  have "parseArpEntry (arp_line ''192.168.0.7'' roam_mac ''en0'' [''[ethernet]'']) =
      (\<lparr>arp_mac = roam_mac, arp_iface = ''en0''\<rparr>, True)" by code_simp
  then show ?thesis by (simp add: LookupARP_def Run_def roam_os_def roam_exec_def)
qed

section \<open>The run\<close>

text \<open>One stage of the supervisor, and the rest of a tick with an agent that fails.\<close>

lemma sup_to:
  assumes "sys_reach os ctx ops o1 y" and "sup_at y = pc0" and "supv y = sv0" and "shared y = s0" and "world y = w0"
    and "sup_stage os ctx (pc0, sv0, s0, w0) = Some (pc, sv, s, w)"
  obtains y' where "sys_reach os ctx ops o1 y'" and "sup_at y' = pc" and "supv y' = sv" and "shared y' = s"
    and "world y' = w" and "in_flight y' = in_flight y"
proof -
  let ?y' = "y\<lparr>sup_at := pc, supv := sv, px := sup_put (sup_at y) s (px y), world := w\<rparr>"
  have "sys_reach os ctx ops o1 ?y'"
    by (rule sys_reach.step [OF assms(1) sys_step.sup_work]) (use assms(2-6) in simp)
  then show ?thesis by (rule that) simp_all
qed

lemma roam_rest:
  assumes "sys_reach roam_os ctx ops o1 y" and "sup_at y = SupStatus" and "\<not> CiscoConnected (status (shared y))"
  obtains y' d where "sys_reach roam_os ctx ops o1 y'" and "sup_at y' = SupSleep d" and "supv y' = supv y"
    and "shared y' = shared y" and "world y' = world y" and "in_flight y' = in_flight y"
proof -
  obtain e where e: "Status roam_os ctx (world y) = ((StateUnknown, Some e), world y)"
    using roam_status by blast
  have "run_stages (Suc (Suc (Suc 0))) sup_idle (sup_stage roam_os ctx) (sup_at y, supv y, shared y, world y)
      = Some (SupSleep ciscoPollInterval, supv y, shared y, world y)"
    using assms(2,3) e by (simp add: run_stages_Suc run_stages_idle sup_switch_def GetState_def)
  from sup_stages_reach [OF this assms(1)] show ?thesis using that by (auto simp: pcs_same_def)
qed

lemma roam_wake:
  assumes "sys_reach os ctx ops o1 y" and "sup_at y = SupSleep d"
  shows "sys_reach os ctx ops o1 (y\<lparr>sup_at := SupTick\<rparr>)"
  by (rule sys_reach.step [OF assms(1) sys_step.sup_wake [OF assms(2)]])

text \<open>The LAN of the first network is in use, and a client has connected over it.\<close>

definition roam_lan :: "addr \<Rightarrow> string \<Rightarrow> State" where
  "roam_lan a iface = zero_State\<lparr>LANSubnet := Prefix (V4 0xC0A80000) (Some 24), LANAddr := a, LANInterface := iface\<rparr>"

definition roam_service :: service where
  "roam_service = (New sample_opts)\<lparr>status := roam_lan (V4 0xC0A80069) ''en0'', lanCheck := True\<rparr>"

lemma roam_first:
  obtains y d where "sys_reach roam_os Ctx ops sample_opts y" and "sup_at y = SupSleep d"
    and "supv y = new_supervisor" and "shared y = roam_service" and "world y = 1" and "in_flight y = []"
proof -
  let ?R = "sys_reach roam_os Ctx ops sample_opts"
  let ?net = "Prefix (V4 0xC0A80000) (Some 24)"
  let ?y0 = "(Start sample_opts 0)\<lparr>sup_at := SupTick\<rparr>"
  let ?s1 = "(New sample_opts)\<lparr>status := roam_lan (V4 0xC0A80069) ''en0''\<rparr>"
  have p0: "?R ?y0" "sup_at ?y0 = SupTick" "supv ?y0 = new_supervisor" "shared ?y0 = New sample_opts"
    "world ?y0 = 0" "in_flight ?y0 = []"
    using roam_wake [OF sys_reach.start [of roam_os Ctx ops sample_opts 0], of 0]
    by (simp_all add: Start_def startProxy_def serveLAN_start_def)
  have st: "status (New sample_opts) = zero_State" by (simp add: New_def)
  have "sup_stage roam_os Ctx (SupTick, new_supervisor, New sample_opts, 0) =
      Some (SupWrite ?net (V4 0xC0A80069) ''en0'', new_supervisor, New sample_opts, 1)"
    by (simp add: sup_detect_def roam_detect roam_masked confirmLAN_def lanChanged_def lan_snapshot_def
        GetState_def st zero_State_def new_supervisor_def)
  from sup_to [OF p0(1-5) this] p0(6) obtain y1 where y1: "?R y1" "sup_at y1 = SupWrite ?net (V4 0xC0A80069) ''en0''"
    "supv y1 = new_supervisor" "shared y1 = New sample_opts" "world y1 = 1" "in_flight y1 = []" by metis
  have "sup_stage roam_os Ctx (SupWrite ?net (V4 0xC0A80069) ''en0'', new_supervisor, New sample_opts, 1) =
      Some (SupNotify, new_supervisor, ?s1, 1)" by (simp add: setStatus_def st roam_lan_def)
  from sup_to [OF y1(1-5) this] y1(6) obtain y2 where y2: "?R y2" "sup_at y2 = SupNotify"
    "supv y2 = new_supervisor" "shared y2 = ?s1" "world y2 = 1" "in_flight y2 = []" by metis
  have "sup_stage roam_os Ctx (SupNotify, new_supervisor, ?s1, 1) = Some (SupStatus, new_supervisor, roam_service, 1)"
    by (simp add: notifyLANCheck_def roam_service_def)
  from sup_to [OF y2(1-5) this] y2(6) obtain y3 where y3: "?R y3" "sup_at y3 = SupStatus"
    "supv y3 = new_supervisor" "shared y3 = roam_service" "world y3 = 1" "in_flight y3 = []" by metis
  have "\<not> CiscoConnected (status (shared y3))" by (simp add: y3(4) roam_service_def roam_lan_def zero_State_def)
  from roam_rest [OF y3(1,2) this] y3(3-6) show ?thesis using that by metis
qed

definition roam_conn :: conn where
  "roam_conn = \<lparr>conn_id = 1, RemoteAddr = TCPAddr (V4 0xC0A80007) 50000\<rparr>"

lemma roam_address: "addr_string (V4 0xC0A80007) = ''192.168.0.7''"
proof -
  have "decimal 192 = ''192''" "decimal 168 = ''168''" "decimal 0 = ''0''" "decimal 7 = ''7''" by code_simp+
  then show ?thesis by (simp add: addr_string_def v4_string_def v4_octets_def Let_def)
qed

lemma roam_service_state:
  "LANInterface (status roam_service) = ''en0''" "LANSubnet (status roam_service) = Prefix (V4 0xC0A80000) (Some 24)"
  "os_now roam_os n = (1000000000000, n)"
  by (simp_all add: roam_service_def roam_lan_def roam_os_def)

lemma roam_hook:
  "hook_state roam_conn roam_service = [HookLook ''192.168.0.7'' (status roam_service)]"
  "hook_stage (os_now roam_os) (route_ops roam_os Ctx) (HookLook ''192.168.0.7'' (status roam_service)) (roam_service, n) =
     ([HookRecord (''192.168.0.7'', roam_mac, 1000000000000)], roam_service, n)"
proof -
  have "Contains (Prefix (V4 0xC0A80000) (Some 24)) (V4 0xC0A80007)"
    by (simp add: Contains_V4 drop_bit_eq_div)
  then show "hook_state roam_conn roam_service = [HookLook ''192.168.0.7'' (status roam_service)]"
    by (simp add: hook_state_def roam_conn_def remoteAddrPort_def unmap_def roam_address GetState_def
        Let_def roam_service_state)
  have "lookup ''192.168.0.7'' (clients roam_service) = ([], 0, False)"
    by (simp add: roam_service_def New_def sample_opts_def newClientRegistry_def lookup_def)
  then show "hook_stage (os_now roam_os) (route_ops roam_os Ctx) (HookLook ''192.168.0.7'' (status roam_service)) (roam_service, n) =
     ([HookRecord (''192.168.0.7'', roam_mac, 1000000000000)], roam_service, n)"
    by (simp add: hook_look_def route_ops_def roam_lookup needsRefresh_def Let_def roam_service_state)
qed

text \<open>The client's connection looks it up; two ticks later the supervisor has the other network.\<close>

lemma roam_moves:
  obtains y where "sys_reach roam_os Ctx (route_ops roam_os Ctx) sample_opts y"
    and "sup_at y = SupReset (Prefix (V4 0xC0A80000) (Some 24)) (V4 0xC0A80032) ''en7''"
    and "in_flight y = [HookRecord (''192.168.0.7'', roam_mac, 1000000000000)]"
    and "LANInterface (status (shared y)) = ''en0''"
proof -
  let ?R = "sys_reach roam_os Ctx (route_ops roam_os Ctx) sample_opts"
  let ?net = "Prefix (V4 0xC0A80000) (Some 24)"
  let ?sg = "HookRecord (''192.168.0.7'', roam_mac, 1000000000000)"
  let ?sv = "new_supervisor\<lparr>pendingLAN := \<lparr>snap_subnet = ?net, snap_iface = ''en7''\<rparr>\<rparr>"
  have snap: "lan_snapshot roam_service = \<lparr>snap_subnet = ?net, snap_iface = ''en0''\<rparr>"
    by (simp add: lan_snapshot_def GetState_def roam_service_state)
  obtain y d where y: "?R y" "sup_at y = SupSleep d" "supv y = new_supervisor" "shared y = roam_service"
    "world y = 1" "in_flight y = []" by (rule roam_first)
  have en: "discoveryEnabled (shared y)"
    by (simp add: y(4) roam_service_def New_def discoveryEnabled_def sample_opts_def)
  let ?h = "HookLook ''192.168.0.7'' (status roam_service)"
  let ?y0 = "y\<lparr>in_flight := [?h]\<rparr>"
  from sys_reach.step [OF y(1) sys_step.hook [OF en, of _ _ _ roam_conn]]
  have r0: "?R ?y0" unfolding y(4,6) roam_hook(1) by simp
  have "hook_stage (os_now roam_os) (route_ops roam_os Ctx) ?h (shared ?y0, world ?y0) = ([?sg], roam_service, 1)"
    using roam_hook(2) [of 1] y(4,5) by simp
  from sys_reach.step [OF r0 sys_step.hook_work [where ?hs1.0 = "[]" and ?hs2.0 = "[]", OF _ this]]
  have r1: "?R (?y0\<lparr>in_flight := [?sg], px := with_svc roam_service (px ?y0), world := 1\<rparr>)" by simp
  let ?y1 = "y\<lparr>in_flight := [?sg], px := with_svc roam_service (px y), world := 1, sup_at := SupTick\<rparr>"
  have y1: "?R ?y1" "sup_at ?y1 = SupTick" "supv ?y1 = new_supervisor" "shared ?y1 = roam_service" "world ?y1 = 1"
    and i1: "in_flight ?y1 = [?sg]"
    using roam_wake [OF r1, of d] y by simp_all
  have "sup_stage roam_os Ctx (SupTick, new_supervisor, roam_service, 1) = Some (SupStatus, ?sv, roam_service, 2)"
    by (simp add: sup_detect_def roam_detect roam_masked confirmLAN_def lanChanged_def snap new_supervisor_def
        zero_snapshot_def)
  from sup_to [OF y1 this, unfolded i1] obtain y2 where y2: "?R y2" "sup_at y2 = SupStatus" "supv y2 = ?sv"
    "shared y2 = roam_service" "world y2 = 2" "in_flight y2 = [?sg]" by metis
  have "\<not> CiscoConnected (status (shared y2))" by (simp add: y2(4) roam_service_def roam_lan_def zero_State_def)
  from roam_rest [OF y2(1,2) this] y2(3-6) obtain y3 d' where y3: "?R y3" "sup_at y3 = SupSleep d'"
    "supv y3 = ?sv" "shared y3 = roam_service" "world y3 = 2" "in_flight y3 = [?sg]" by metis
  let ?y3 = "y3\<lparr>sup_at := SupTick\<rparr>"
  have y4: "?R ?y3" "sup_at ?y3 = SupTick" "supv ?y3 = ?sv" "shared ?y3 = roam_service" "world ?y3 = 2"
    and i3: "in_flight ?y3 = [?sg]"
    using roam_wake [OF y3(1,2)] y3 by simp_all
  have "sup_stage roam_os Ctx (SupTick, ?sv, roam_service, 2) =
      Some (SupReset ?net (V4 0xC0A80032) ''en7'', ?sv\<lparr>pendingLAN := zero_snapshot\<rparr>, roam_service, 3)"
    by (simp add: sup_detect_def roam_detect roam_masked confirmLAN_def lanChanged_def snap)
  from sup_to [OF y4 this, unfolded i3] obtain y5 where "?R y5" "sup_at y5 = SupReset ?net (V4 0xC0A80032) ''en7''"
    "shared y5 = roam_service" "in_flight y5 = [?sg]" by metis
  then show ?thesis by (intro that) (assumption, assumption, assumption, simp only: roam_service_state)
qed

section \<open>Properties\<close>

text \<open>
  C5: The reset of the registry does not cover a discovery in flight. \<open>discoverClient\<close> reads the LAN,
  asks the kernel for the client's MAC and only then takes the registry's lock: when the
  supervisor moves to another network in between, the MAC of the old network is recorded after the
  reset and is in the registry of the new network, which the reset is there to prevent.
\<close>

theorem late_sighting:
  assumes "sys_reach os ctx ops o1 y" and "sup_at y = SupReset net a iface"
    and "in_flight y = HookRecord (ip, mac, t) # hs" and "mac \<noteq> []"
  shows "\<exists>z. sys_reach os ctx ops o1 z \<and> sup_at z = SupNotify
     \<and> LANSubnet (status (shared z)) = net \<and> LANInterface (status (shared z)) = iface
     \<and> gm_get (snapshot (clients (shared z))) ip = Some mac"
proof -
  let ?s1 = "(shared y)\<lparr>clients := resetNetwork (clients (shared y))\<rparr>"
  let ?s2 = "setStatus (\<lambda>st. st\<lparr>LANSubnet := net, LANAddr := a, LANInterface := iface\<rparr>) ?s1"
  obtain y1 where y1: "sys_reach os ctx ops o1 y1" "sup_at y1 = SupWrite net a iface" "supv y1 = supv y"
    "shared y1 = ?s1" "world y1 = world y" "in_flight y1 = HookRecord (ip, mac, t) # hs"
    using sup_to [OF assms(1,2) refl refl refl] assms(3) by (auto simp del: sys.simps)
  obtain y2 where y2: "sys_reach os ctx ops o1 y2" "sup_at y2 = SupNotify" "shared y2 = ?s2"
    "in_flight y2 = HookRecord (ip, mac, t) # hs"
    using sup_to [OF y1(1-5)] y1(6) by (auto simp del: sys.simps)
  let ?z = "y2\<lparr>in_flight := [] @ [] @ hs, px := with_svc (record_sighting (ip, mac, t) (shared y2)) (px y2), world := world y2\<rparr>"
  have "sys_reach os ctx ops o1 ?z"
    by (rule sys_reach.step [OF y2(1) sys_step.hook_work]) (simp add: y2(4), rule hook_stage.simps)
  moreover have "shared ?z = ?s2\<lparr>clients := snd (seen ip mac t (clients ?s2))\<rparr>"
    by (simp add: record_sighting_def y2(3))
  moreover have "gm_get (snapshot (snd (seen ip mac t r))) ip = Some mac" for r
    using get_seen_same [of ip mac t r] assms(4) by (auto simp: get_snapshot)
  ultimately show ?thesis using y2(2) by (intro exI [of _ ?z]) simp
qed

theorem late_sighting_witness:
  "\<exists>z. sys_reach roam_os Ctx (route_ops roam_os Ctx) sample_opts z \<and> LANInterface (status (shared z)) = ''en7''
     \<and> gm_get (snapshot (clients (shared z))) ''192.168.0.7'' = Some ''aa:bb:cc:dd:ee:ff''"
proof -
  obtain y where y: "sys_reach roam_os Ctx (route_ops roam_os Ctx) sample_opts y"
    "sup_at y = SupReset (Prefix (V4 0xC0A80000) (Some 24)) (V4 0xC0A80032) ''en7''"
    "in_flight y = [HookRecord (''192.168.0.7'', roam_mac, 1000000000000)]" by (rule roam_moves)
  from late_sighting [OF y(1,2,3)] show ?thesis by (auto simp: roam_mac_def)
qed

end
