(* ===== verification/Supervisor_Runs.thy ===== *)
theory Supervisor_Runs
  imports Supervisor
begin

text \<open>
  The ticks of a supervisor since its start, by what the agent and the clock answered in each. Three
  of its fields are memory of earlier ticks, the delay of the next retry, the begin of a reconnection
  and whether this process connected the VPN; here they are tied to the history, which is computed
  from the world alone. The service and the world may change in any way between two ticks.
\<close>

section \<open>What a tick is told\<close>

text \<open>
  No state at all; the tunnel is up; the agent reconnects, with the clock the tick read first and
  whether a forced disconnect succeeded; otherwise the outcome of the tick's own connect, which
  counts as refused if another client holds the agent or the context is done.
\<close>

datatype tick_answer = NoAnswer | AgentUp | AgentReconnecting go_time bool
  | OwnConnect | ConnectFailed | ConnectRefused

text \<open>Histories are newest first. Failures of the connect since the VPN was last up.\<close>

fun failures :: "tick_answer list \<Rightarrow> nat" where
  "failures [] = 0"
| "failures (ConnectFailed # as) = Suc (failures as)"
| "failures (AgentUp # as) = 0"
| "failures (OwnConnect # as) = 0"
| "failures (_ # as) = failures as"

text \<open>
  When the agent was first seen reconnecting, if it has been since: a tick without an answer does not
  end that, any other answer does, and so does a forced disconnect.
\<close>

fun stuck_since :: "tick_answer list \<Rightarrow> go_time option" where
  "stuck_since [] = None"
| "stuck_since (NoAnswer # as) = stuck_since as"
| "stuck_since (AgentReconnecting t kicked # as) =
     (if kicked then None else case stuck_since as of None \<Rightarrow> Some t | Some t0 \<Rightarrow> Some t0)"
| "stuck_since (_ # as) = None"

definition disconnect_ok :: "'w os \<Rightarrow> go_ctx \<Rightarrow> 'w \<Rightarrow> bool" where
  "disconnect_ok os ctx w = (fst (Disconnect os (WithTimeout ctx (30 * second)) w) = None)"

text \<open>The answer to a tick in a world, for a history that has the agent reconnecting since some time or not.\<close>

definition answer_of ::
  "'w os \<Rightarrow> go_ctx \<Rightarrow> go_time option \<Rightarrow> service \<Rightarrow> 'w \<Rightarrow> tick_answer" where
  "answer_of os ctx stuck s w =
     (case Status os ctx (snd (DetectLAN os ctx (LANInterface (status s)) w)) of
        ((state, Some err), w2) \<Rightarrow> NoAnswer
      | ((state, None), w2) \<Rightarrow>
          if state = StateConnected then AgentUp
          else if state = StateReconnecting then
            (case os_now os w2 of (t, w3) \<Rightarrow>
              (case stuck of
                 None \<Rightarrow> (case os_now os w3 of (now, w4) \<Rightarrow>
                   AgentReconnecting t (now - t > 120 * second \<and> disconnect_ok os ctx w4))
               | Some t0 \<Rightarrow> AgentReconnecting t (t - t0 > 120 * second \<and> disconnect_ok os ctx w3)))
          else (case Connect os ctx (CiscoProfile (opts s)) (CiscoUser (opts s)) (CiscoPassword (opts s)) w2 of
             (None, w3) \<Rightarrow> OwnConnect
           | (Some err, w3) \<Rightarrow>
               if errors_is err ErrAcquired \<or> os_ctx_err os ctx w3 then ConnectRefused else ConnectFailed))"

inductive sup_hist :: "'w os \<Rightarrow> go_ctx \<Rightarrow> tick_answer list \<Rightarrow> ciscoSupervisor \<Rightarrow> bool" for os ctx where
  start: "sup_hist os ctx [] new_supervisor"
| ticked: "sup_hist os ctx as sv \<Longrightarrow> tick os ctx (sv, s, w) = Some (d, sv', s', w') \<Longrightarrow>
    sup_hist os ctx (answer_of os ctx (stuck_since as) s w # as) sv'"

section \<open>A tick, by the answer\<close>

lemma detectLAN_world: "snd (snd (detectLAN os ctx (sv, s, w))) = snd (DetectLAN os ctx (LANInterface (status s)) w)"
  by (auto simp: detectLAN_def lan_snapshot_def GetState_def Let_def split: prod.splits sum.splits)

text \<open>The parts of a tick, with what they keep.\<close>

lemma tick_parts:
  assumes "tick os ctx (sv, s, w) = Some (d, sv', s', w')"
  obtains q s1 result w2 sv3 s3 w3 where
    "Status os ctx (snd (DetectLAN os ctx (LANInterface (status s)) w)) = (result, w2)"
    and "opts s1 = opts s" and "react os ctx result (sv\<lparr>pendingLAN := q\<rparr>, s1, w2) = (d, sv3, s3, w3)"
    and "connectDelay sv' = connectDelay sv3" and "reconnectingSince sv' = reconnectingSince sv3"
    and "connectedByUs sv' = connectedByUs sv3"
    and "CiscoConnected (status s3) \<or> (sv', s', w') = (sv3, s3, w3)"
proof -
  obtain sv1 s1 w1 where det: "detectLAN os ctx (sv, s, w) = (sv1, s1, w1)" by (metis surj_pair)
  obtain result w2 where st: "Status os ctx w1 = (result, w2)" by (metis surj_pair)
  obtain d3 sv3 s3 w3 where r: "react os ctx result (sv1, s1, w2) = (d3, sv3, s3, w3)" by (metis surj_pair)
  from detectLAN_frame [OF det] obtain q where q: "sv1 = sv\<lparr>pendingLAN := q\<rparr>" "opts s1 = opts s" by auto
  have w1: "w1 = snd (DetectLAN os ctx (LANInterface (status s)) w)"
    using detectLAN_world [of os ctx sv s w] det by simp
  have t: "d3 = d" "after_react os ctx (sv3, s3, w3) = Some (sv', s', w')"
    using assms by (auto simp: tick_def det st r)
  then have "connectDelay sv' = connectDelay sv3" "reconnectingSince sv' = reconnectingSince sv3"
    "connectedByUs sv' = connectedByUs sv3" "CiscoConnected (status s3) \<or> (sv', s', w') = (sv3, s3, w3)"
    by (auto simp: after_react_def GetState_def split: if_splits prod.splits option.splits)
  with st r w1 q t(1) that show ?thesis by simp
qed

text \<open>The delay and the mark of an own connect do not depend on the clock.\<close>

definition remembers :: "tick_answer list \<Rightarrow> ciscoSupervisor \<Rightarrow> bool" where
  "remembers as sv \<longleftrightarrow> connectDelay sv = backoff (failures as) \<and> (connectedByUs sv \<longleftrightarrow> OwnConnect \<in> set as)"

lemma tick_remembers:
  assumes "remembers as sv" and "tick os ctx (sv, s, w) = Some (d, sv', s', w')"
    and "a = answer_of os ctx stuck s w"
  shows "remembers (a # as) sv' \<and> d = (if a = ConnectFailed then backoff (failures as) else ciscoPollInterval)"
proof -
  from assms(2) obtain q s1 result w2 sv3 s3 w3 where
    st: "Status os ctx (snd (DetectLAN os ctx (LANInterface (status s)) w)) = (result, w2)"
    and o: "opts s1 = opts s" and r: "react os ctx result (sv\<lparr>pendingLAN := q\<rparr>, s1, w2) = (d, sv3, s3, w3)"
    and same: "connectDelay sv' = connectDelay sv3" "connectedByUs sv' = connectedByUs sv3"
    by (rule tick_parts) blast
  obtain state err where res: "result = (state, err)" by (cases result)
  consider (silent) e where "err = Some e" | (up) "err = None" "state = StateConnected"
    | (waiting) "err = None" "state \<noteq> StateConnected" "state = StateReconnecting"
    | (down) "err = None" "state \<noteq> StateConnected" "state \<noteq> StateReconnecting" by (cases err) auto
  then show ?thesis
  proof cases
    case silent
    with assms(1,3) r same show ?thesis by (auto simp: answer_of_def st res react_def remembers_def)
  next
    case up
    with assms(1,3) r same show ?thesis by (auto simp: answer_of_def st res react_def remembers_def)
  next
    case waiting
    have a: "\<exists>t k. a = AgentReconnecting t k"
      using waiting assms(3) by (simp add: answer_of_def st res split: prod.split option.split)
    from awaitReconnect_sv [of os ctx "sv\<lparr>pendingLAN := q\<rparr>" w2]
    obtain t where "fst (awaitReconnect os ctx (sv\<lparr>pendingLAN := q\<rparr>, w2)) = sv\<lparr>pendingLAN := q, reconnectingSince := t\<rparr>" ..
    with waiting r have "sv3 = sv\<lparr>pendingLAN := q, reconnectingSince := t\<rparr>" "d = ciscoPollInterval"
      by (auto simp: react_def res split: prod.splits)
    with a assms(1) same show ?thesis by (auto simp: remembers_def)
  next
    case down
    obtain ce w4 where c: "Connect os ctx (CiscoProfile (opts s)) (CiscoUser (opts s)) (CiscoPassword (opts s)) w2 = (ce, w4)"
      by (metis surj_pair)
    show ?thesis
    proof (cases ce)
      case None
      with down assms(1,3) r same o c show ?thesis
        by (auto simp: answer_of_def st res react_def connect_def remembers_def)
    next
      case (Some e)
      with down assms(1,3) r same o c show ?thesis
        by (auto simp: answer_of_def st res react_def connect_def remembers_def backoff_Suc split: if_splits)
    qed
  qed
qed

lemma hist_remembers: "sup_hist os ctx as sv \<Longrightarrow> remembers as sv"
proof (induction rule: sup_hist.induct)
  case start
  show ?case by (simp add: remembers_def new_supervisor_def)
next
  case (ticked as sv s w d sv' s' w')
  from tick_remembers [OF ticked.IH ticked.hyps(2) refl] show ?case by blast
qed

text \<open>A run of the loop is such a history: the first delay is none, and each tick has the answer of its world.\<close>

lemma loop_hist:
  "sup_hist os ctx as sv \<Longrightarrow>
   (case supervisor_loop n os ctx d (sv, s, w) of
      Running (sv', s', w') \<Rightarrow> \<exists>as'. sup_hist os ctx as' sv'
    | Panicked \<Rightarrow> True
    | Returned (sv', s', w') \<Rightarrow> \<exists>as'. sup_hist os ctx as' sv')"
proof (induction n arbitrary: as sv d s w)
  case 0
  then show ?case by auto
next
  case (Suc n)
  obtain alive w1 where sl: "sleepCtx os ctx d w = (alive, w1)" by (metis surj_pair)
  show ?case
  proof (cases "tick os ctx (sv, s, w1)")
    case None
    with sl Suc.prems show ?thesis by (auto split: bool.split prod.split)
  next
    case (Some x)
    obtain d' sv' s' w' where x: "x = (d', sv', s', w')" by (metis surj_pair)
    from Suc.IH [OF sup_hist.ticked [OF Suc.prems Some [unfolded x]]] Some x sl Suc.prems show ?thesis
      by (auto split: bool.split prod.split)
  qed
qed

section \<open>The time of a reconnection\<close>

text \<open>What the clock of the machine never shows: the zero time, which the code takes for \<open>not set\<close>.\<close>

definition clock_set :: "'w os \<Rightarrow> bool" where
  "clock_set os \<longleftrightarrow> (\<forall>w. fst (os_now os w) \<noteq> 0)"

definition since_ok :: "tick_answer list \<Rightarrow> ciscoSupervisor \<Rightarrow> bool" where
  "since_ok as sv \<longleftrightarrow>
     (case stuck_since as of None \<Rightarrow> reconnectingSince sv = 0 | Some t \<Rightarrow> t \<noteq> 0 \<and> reconnectingSince sv = t)"

lemma grace_iff: "time_sub now t \<le> ciscoReconnectGrace \<longleftrightarrow> now - t \<le> 120 * second"
proof -
  have "time_sub now t \<le> ciscoReconnectGrace \<longleftrightarrow> now - t \<le> ciscoReconnectGrace"
    by (rule time_sub_le_iff) (simp_all add: ciscoReconnectGrace_def duration_defs)
  then show ?thesis by (simp add: ciscoReconnectGrace_def duration_defs)
qed

lemma await_since:
  assumes "since_ok as sv" and "clock_set os" and "os_now os w = (t, w1)" and "os_now os w1 = (now, w2)"
  shows "awaitReconnect os ctx (sv, w) =
     (let (t0, last, wl) = (case stuck_since as of None \<Rightarrow> (t, now, w2) | Some t0 \<Rightarrow> (t0, t, w1)) in
      if last - t0 \<le> 120 * second then (sv\<lparr>reconnectingSince := t0\<rparr>, wl)
      else (case Disconnect os (WithTimeout ctx (30 * second)) wl of
              (err, w3) \<Rightarrow> (sv\<lparr>reconnectingSince := (if err = None then 0 else t0)\<rparr>, w3)))"
proof (cases "stuck_since as")
  case None
  then have "reconnectingSince sv = 0" using assms(1) by (simp add: since_ok_def)
  with None show ?thesis
    by (auto simp: awaitReconnect_def assms(3,4) grace_iff ciscoDisconnectTimeout_def Let_def
        split: prod.splits option.splits)
next
  case (Some t0)
  then have t0: "reconnectingSince sv = t0" "t0 \<noteq> 0" using assms(1) by (simp_all add: since_ok_def)
  then have "sv\<lparr>reconnectingSince := t0\<rparr> = sv" by simp
  with Some t0 show ?thesis
    by (auto simp: awaitReconnect_def assms(3) grace_iff ciscoDisconnectTimeout_def Let_def
        split: prod.splits option.splits)
qed

lemma since_pending: "since_ok as sv \<Longrightarrow> since_ok as (sv\<lparr>pendingLAN := q\<rparr>)"
  by (simp add: since_ok_def split: option.splits)

lemma tick_since:
  assumes "since_ok as sv" and "clock_set os" and "tick os ctx (sv, s, w) = Some (d, sv', s', w')"
  shows "since_ok (answer_of os ctx (stuck_since as) s w # as) sv'"
proof -
  from assms(3) obtain q s1 result w2 sv3 s3 w3 where
    st: "Status os ctx (snd (DetectLAN os ctx (LANInterface (status s)) w)) = (result, w2)"
    and r: "react os ctx result (sv\<lparr>pendingLAN := q\<rparr>, s1, w2) = (d, sv3, s3, w3)" and o: "opts s1 = opts s"
    and same: "reconnectingSince sv' = reconnectingSince sv3" by (rule tick_parts) blast
  obtain state err where res: "result = (state, err)" by (cases result)
  consider (silent) e where "err = Some e" | (up) "err = None" "state = StateConnected"
    | (waiting) "err = None" "state \<noteq> StateConnected" "state = StateReconnecting"
    | (down) "err = None" "state \<noteq> StateConnected" "state \<noteq> StateReconnecting" by (cases err) auto
  then show ?thesis
  proof cases
    case silent
    with assms(1) r same show ?thesis
      by (auto simp: answer_of_def st res react_def since_ok_def split: option.splits)
  next
    case up
    with r same show ?thesis by (auto simp: answer_of_def st res react_def since_ok_def)
  next
    case waiting
    obtain t w4 where t: "os_now os w2 = (t, w4)" by (metis surj_pair)
    obtain now w5 where now: "os_now os w4 = (now, w5)" by (metis surj_pair)
    have "t \<noteq> 0" using assms(2) t by (metis clock_set_def fst_conv)
    moreover have "sv3 = fst (awaitReconnect os ctx (sv\<lparr>pendingLAN := q\<rparr>, w2))"
      using waiting r by (auto simp: react_def res split: prod.splits)
    ultimately show ?thesis
      using waiting same assms(1) await_since [OF since_pending [OF assms(1), where q = q] assms(2) t now, where ctx = ctx]
      by (auto simp: answer_of_def st res t now since_ok_def disconnect_ok_def Let_def
          split: option.splits prod.splits if_splits)
  next
    case down
    obtain ce w4 where c: "Connect os ctx (CiscoProfile (opts s)) (CiscoUser (opts s)) (CiscoPassword (opts s)) w2 = (ce, w4)"
      by (metis surj_pair)
    have a: "stuck_since (answer_of os ctx (stuck_since as) s w # as) = None"
      using down c by (cases ce) (auto simp: answer_of_def st res)
    have "reconnectingSince sv3 = 0"
      using down r o c by (auto simp: react_def res connect_def split: option.splits if_splits)
    with a same show ?thesis by (simp add: since_ok_def)
  qed
qed

lemma hist_since: "sup_hist os ctx as sv \<Longrightarrow> clock_set os \<Longrightarrow> since_ok as sv"
proof (induction rule: sup_hist.induct)
  case start
  show ?case by (simp add: since_ok_def new_supervisor_def)
next
  case (ticked as sv s w d sv' s' w')
  from tick_since [OF ticked.IH [OF ticked.prems] ticked.prems ticked.hyps(2)] show ?case .
qed

section \<open>Properties\<close>

text \<open>
  C24: Failures back off exactly as documented. Whatever happened since the start, the first failed
  connect after the VPN was last up is retried after five seconds, the next after ten, each later
  one after twice as long, at most a minute; and after any other answer the agent is asked again in
  five seconds. A failed poll, a reconnection, or a refused connect in between does not change
  where the sequence stands.
\<close>

theorem connect_backs_off:
  assumes "sup_hist os ctx as sv" and "tick os ctx (sv, s, w) = Some (d, sv', s', w')"
  shows "d = (if answer_of os ctx (stuck_since as) s w = ConnectFailed
              then min (5 * second * 2 ^ failures as) minute else 5 * second)"
  using tick_remembers [OF hist_remembers [OF assms(1)] assms(2) refl, of "stuck_since as"]
  by (simp add: backoff_def ciscoPollInterval_def ciscoMaxConnectDelay_def)

text \<open>
  A machine without a LAN, whose world is its clock: each reading takes ninety seconds. The agent
  prints the given line for its state and accepts no connect, except that one at the time seven
  succeeds and turns the clock back, when it is connected.
\<close>

definition agent_os :: "string \<Rightarrow> int os" where
  "agent_os line =
     \<lparr>os_exec = (\<lambda>ctx name args stdin w.
        if args = [''-s'', ''state''] then ((if w < 0 then ''  >> state: Connected'' else line, None), w)
        else if args = [''-s'', ''disconnect''] then (([], None), w + 1)
        else if name = ciscoPath \<and> w = 7 then (([], None), -1)
        else (([], Some exit_status_1), w)),
      os_spawn = (\<lambda>ctx name args w. (Process [] [] None, w)),
      os_now = (\<lambda>w. (1 + \<bar>w\<bar>, w + 90 * second)),
      os_sleep = (\<lambda>ctx d w. (True, w)),
      os_ctx_err = (\<lambda>ctx w. False),
      os_interfaces = (\<lambda>w. Inl (Msg ''no interfaces'')),
      os_interface_by_name = (\<lambda>name w. Inl (Msg ''no interfaces'')),
      os_addrs = (\<lambda>ifi w. Inl (Msg ''no interfaces''))\<rparr>"

lemma agent_detect:
  "\<exists>e. DetectLAN (agent_os line) ctx p w = (Inl e, w)"
  by (simp add: DetectLAN_def Run_def agent_os_def rfc1918Candidates_def ciscoPath_def)

lemma agent_status: "Status (agent_os line) ctx w = ((if w < 0 then StateConnected else parseState line, None), w)"
proof -
  have "parseState ''  >> state: Connected'' = StateConnected" by code_simp
  then show ?thesis by (simp add: Status_def Run_def agent_os_def)
qed

lemma agent_exec:
  "os_exec (agent_os line) ctx ciscoPath [''-s'', ''connect'', p] i w =
     (if w = 7 then (([], None), -1) else (([], Some exit_status_1), w))"
  by (simp add: agent_os_def)

lemma agent_connect: "w \<noteq> 7 \<Longrightarrow> \<exists>e. Connect (agent_os line) ctx p u pw w = (Some (Wrap ''vpn connection error: '' exit_status_1 e), w)"
proof -
  assume "w \<noteq> 7"
  moreover have "\<not> hasAcquiredError []" by code_simp
  ultimately show ?thesis by (simp add: Connect_def agent_exec)
qed

lemma agent_tick_down:
  assumes "parseState line = StateDisconnected" and "\<not> CiscoConnected (status s)" and "0 \<le> w" and "w \<noteq> 7"
  shows "\<exists>sv' s'. tick (agent_os line) ctx (sv, s, w) = Some (connectDelay sv, sv', s', w)
     \<and> answer_of (agent_os line) ctx stuck s w = ConnectFailed"
proof -
  obtain e where det: "DetectLAN (agent_os line) ctx (LANInterface (status s)) w = (Inl e, w)" using agent_detect by blast
  obtain x where con: "Connect (agent_os line) ctx (CiscoProfile (opts s)) (CiscoUser (opts s)) (CiscoPassword (opts s)) w
      = (Some (Wrap ''vpn connection error: '' exit_status_1 x), w)" using agent_connect [OF assms(4)] by blast
  have e: "\<not> errors_is (Wrap ''vpn connection error: '' exit_status_1 x) ErrAcquired"
    by (simp add: ErrAcquired_def exit_status_1_def)
  have c: "\<not> os_ctx_err (agent_os line) ctx w" by (simp add: agent_os_def)
  show ?thesis
    using assms e c
    by (simp add: tick_def detectLAN_cases det agent_status react_def connect_def con after_react_def
        GetState_def answer_of_def state_defs)
qed

theorem connect_backs_off_witness:
  "\<exists>sv d sv' s' w'. sup_hist (agent_os ''  >> state: Disconnected'') Ctx [ConnectFailed] sv
     \<and> tick (agent_os ''  >> state: Disconnected'') Ctx (sv, New sample_opts, 0) = Some (d, sv', s', w')
     \<and> d = 10 * second"
proof -
  let ?os = "agent_os ''  >> state: Disconnected''" and ?s = "New sample_opts"
  have p: "parseState ''  >> state: Disconnected'' = StateDisconnected" by code_simp
  have down: "\<not> CiscoConnected (status ?s)" by (simp add: New_def zero_State_def)
  obtain d sv s' w' where t: "tick ?os Ctx (new_supervisor, ?s, 0) = Some (d, sv, s', w')"
    "answer_of ?os Ctx None ?s 0 = ConnectFailed"
    using agent_tick_down [OF p down, of 0 Ctx new_supervisor None] by auto
  have h: "sup_hist ?os Ctx [ConnectFailed] sv"
    using sup_hist.ticked [OF sup_hist.start t(1)] t(2) by simp
  obtain d2 sv2 s2 w2 where t2: "tick ?os Ctx (sv, ?s, 0) = Some (d2, sv2, s2, w2)"
    "answer_of ?os Ctx None ?s 0 = ConnectFailed"
    using agent_tick_down [OF p down, of 0 Ctx sv None] by auto
  from connect_backs_off [OF h t2(1)] t2(2) have "d2 = 10 * second" by (simp add: duration_defs)
  with h t2(1) show ?thesis by blast
qed

text \<open>
  C25: The shutdown disconnects the VPN exactly if a connect of this process succeeded in its life,
  be it followed by losses and reconnections: then it issues one disconnect, under a context that
  the cancellation of the program does not reach and that expires after thirty seconds; a tunnel
  that another client opened is left alone. In both cases the VPN is marked as down.
\<close>

theorem shutdown_scope:
  assumes "sup_hist os ctx as sv"
  shows "shutdown os ctx (sv, s, w) =
     (s\<lparr>status := (status s)\<lparr>CiscoConnected := False, PFDisabled := False\<rparr>\<rparr>,
      if OwnConnect \<in> set as
      then snd (os_exec os (WithTimeout (WithoutCancel ctx) (30 * second)) ciscoPath [''-s'', ''disconnect''] [] w)
      else w)"
proof -
  have "setConnected False s = s\<lparr>status := (status s)\<lparr>CiscoConnected := False, PFDisabled := False\<rparr>\<rparr>"
    by (simp add: setConnected_def setStatus_def Let_def)
  moreover have "connectedByUs sv = (OwnConnect \<in> set as)"
    using hist_remembers [OF assms] by (simp add: remembers_def)
  ultimately show ?thesis
    unfolding shutdown_def Let_def prod.case ciscoDisconnectTimeout_def by (simp add: Disconnect_world)
qed

lemma sample_tick_inv: "sup_inv new_supervisor (New sample_opts)"
  by (rule sup_inv_start) (simp_all add: New_def status_ok_none reg_wf_new)

theorem shutdown_scope_witness:
  "\<exists>sv. sup_hist (agent_os ''  >> state: Disconnected'') Ctx [OwnConnect] sv
     \<and> snd (shutdown (agent_os ''  >> state: Disconnected'') Ctx (sv, New sample_opts, 10)) = 11"
proof -
  let ?os = "agent_os ''  >> state: Disconnected''" and ?s = "New sample_opts"
  obtain d sv s' w' where t: "tick ?os Ctx (new_supervisor, ?s, 7) = Some (d, sv, s', w')"
    by (rule tick_some [OF sample_tick_inv])
  obtain e where det: "DetectLAN ?os Ctx (LANInterface (status ?s)) 7 = (Inl e, 7)" using agent_detect by blast
  have p: "parseState ''  >> state: Disconnected'' = StateDisconnected" by code_simp
  have "\<not> hasAcquiredError []" by code_simp
  then have "Connect ?os Ctx pr u pw 7 = (None, -1)" for pr u pw
    by (simp add: Connect_def agent_exec agent_status)
  then have "answer_of ?os Ctx None ?s 7 = OwnConnect"
    by (simp add: answer_of_def det agent_status p state_defs)
  then have h: "sup_hist ?os Ctx [OwnConnect] sv"
    using sup_hist.ticked [OF sup_hist.start t] by simp
  have "snd (shutdown ?os Ctx (sv, ?s, 10)) = 11"
    by (subst shutdown_scope [OF h]) (simp add: agent_os_def)
  with h show ?thesis by blast
qed

text \<open>
  C26: An agent that is reconnecting on its own is left alone for two minutes after the tick that saw
  it first, however many ticks without an answer came in between: until then nothing but the clock
  is consulted. In a later tick it is told to disconnect, in bounded time, and a success starts the
  grace period anew. The VPN is marked as down all the while and no connect is tried.
\<close>

theorem reconnect_grace:
  assumes "sup_hist os ctx as sv" and "clock_set os" and "tick os ctx (sv, s, w) = Some (d, sv', s', w')"
    and "Status os ctx (snd (DetectLAN os ctx (LANInterface (status s)) w)) = ((StateReconnecting, None), w1)"
    and "os_now os w1 = (t1, w2)" and "os_now os w2 = (t2, w3)"
  shows "\<not> CiscoConnected (status s') \<and> d = 5 * second
     \<and> (case stuck_since as of
          None \<Rightarrow> w' = (if t2 - t1 \<le> 120 * second then w3
            else snd (os_exec os (WithTimeout ctx (30 * second)) ciscoPath [''-s'', ''disconnect''] [] w3))
        | Some t0 \<Rightarrow> w' = (if t1 - t0 \<le> 120 * second then w2
            else snd (os_exec os (WithTimeout ctx (30 * second)) ciscoPath [''-s'', ''disconnect''] [] w2)))"
proof -
  from assms(3,4) obtain q s1 sv3 s3 w4 where
    r: "react os ctx (StateReconnecting, None) (sv\<lparr>pendingLAN := q\<rparr>, s1, w1) = (d, sv3, s3, w4)"
    and same: "CiscoConnected (status s3) \<or> (sv', s', w') = (sv3, s3, w4)"
    by (elim tick_parts) (auto simp del: surj_pair)
  obtain sv5 w5 where a: "awaitReconnect os ctx (sv\<lparr>pendingLAN := q\<rparr>, w1) = (sv5, w5)" by (metis surj_pair)
  have s3: "s3 = setConnected False s1" "d = ciscoPollInterval" "w4 = w5"
    using r a by (simp_all add: react_def state_defs)
  then have w': "w' = w5" "s' = setConnected False s1" using same by simp_all
  have "snd (awaitReconnect os ctx (sv\<lparr>pendingLAN := q\<rparr>, w1)) = w5" by (simp add: a)
  moreover note await_since [OF since_pending [OF hist_since [OF assms(1,2)], where q = q] assms(2,5,6), where ctx = ctx]
  ultimately show ?thesis
    using w' s3(2)
    by (auto simp: Let_def ciscoPollInterval_def Disconnect_world [symmetric] split: option.splits prod.splits if_splits)
qed

theorem reconnect_grace_witness:
  "\<exists>sv s d sv' s' w'. sup_hist (agent_os ''  >> state: Reconnecting'') Ctx [AgentReconnecting 1 False] sv
     \<and> tick (agent_os ''  >> state: Reconnecting'') Ctx (sv, s, 180 * second) = Some (d, sv', s', w')
     \<and> w' = 270 * second + 1"
proof -
  let ?os = "agent_os ''  >> state: Reconnecting''" and ?s = "New sample_opts"
  have p: "parseState ''  >> state: Reconnecting'' = StateReconnecting" by code_simp
  have det: "snd (DetectLAN ?os Ctx i w) = w" for i w
    using agent_detect [of "''  >> state: Reconnecting''" Ctx i w] by auto
  have now: "os_now ?os w = (1 + \<bar>w\<bar>, w + 90 * second)" for w by (simp add: agent_os_def)
  have clock: "clock_set ?os" by (auto simp: clock_set_def now)
  have st: "Status ?os Ctx (snd (DetectLAN ?os Ctx i w)) = ((StateReconnecting, None), w)"
    if "0 \<le> w" for i w using that by (simp add: det agent_status p)
  obtain d sv s' w' where t: "tick ?os Ctx (new_supervisor, ?s, 0) = Some (d, sv, s', w')" "sup_inv sv s'"
    by (rule tick_some [OF sample_tick_inv])
  have "answer_of ?os Ctx None ?s 0 = AgentReconnecting 1 False"
    using st [of 0 "LANInterface (status ?s)"] by (simp add: answer_of_def now state_defs duration_defs)
  then have h: "sup_hist ?os Ctx [AgentReconnecting 1 False] sv"
    using sup_hist.ticked [OF sup_hist.start t(1)] by simp
  obtain d2 sv2 s2 w2 where t2: "tick ?os Ctx (sv, s', 180 * second) = Some (d2, sv2, s2, w2)"
    by (rule tick_some [OF t(2)])
  have "0 \<le> 180 * second" by (simp add: duration_defs)
  from reconnect_grace [OF h clock t2 st [OF this] now now]
  have "w2 = 270 * second + 1"
    by (simp add: duration_defs) (simp add: agent_os_def)
  with h t2 show ?thesis by blast
qed

end
