(* ===== verification/Socks.thy ===== *)
theory Socks
  imports Config
begin

text \<open>
  \<open>internal/service/socks.go\<close>: how the SOCKS servers are configured, and the two gates that keep
  traffic from leaving while the VPN is down. The go-socks5 library is a parameter: sending a
  reply and resolving a name are functions on the world.
\<close>

section \<open>Definitions\<close>

definition errVPNDown :: go_error where "errVPNDown = Sentinel ''VPN is not connected''"

definition RepNetworkUnreachable :: nat where "RepNetworkUnreachable = 3"

text \<open>The options the code passes to the constructor of the library.\<close>

datatype socks_option = WithLogger | WithResolver | WithConnectMiddleware
  | WithCredential "(string \<times> string) list"

definition newSocksServer :: "bool \<Rightarrow> service \<Rightarrow> socks_option list" where
  "newSocksServer lan_side s =
     (let os = [WithLogger, WithResolver, WithConnectMiddleware] in
      if lan_side \<and> SocksUser (opts s) \<noteq> []
      then os @ [WithCredential [(SocksUser (opts s), SocksPassword (opts s))]]
      else os)"

definition vpnGate ::
  "(nat \<Rightarrow> 'w \<Rightarrow> go_error option \<times> 'w) \<Rightarrow> service \<Rightarrow> 'w \<Rightarrow> go_error option \<times> 'w" where
  "vpnGate send_reply s w =
     (if \<not> CiscoConnected (GetState s) then
        (case send_reply RepNetworkUnreachable w of
           (Some err, w1) \<Rightarrow> (Some (Wrap ''send reply: '' err []), w1)
         | (None, w1) \<Rightarrow> (Some errVPNDown, w1))
      else (None, w))"

definition Resolve ::
  "(string \<Rightarrow> 'w \<Rightarrow> (go_error + 128 word) \<times> 'w) \<Rightarrow> service \<Rightarrow> string \<Rightarrow> 'w
     \<Rightarrow> (go_error + 128 word) \<times> 'w" where
  "Resolve dns_resolve s name w =
     (if \<not> CiscoConnected (GetState s) then (Inl errVPNDown, w) else dns_resolve name w)"

section \<open>Properties\<close>

text \<open>
  Nothing passes while the VPN is down. A name is then refused without any lookup, and a
  CONNECT is refused with exactly one reply, network unreachable, whether or not the reply
  could be sent. While the VPN is up both gates are transparent.
\<close>

theorem vpn_gates:
  "if CiscoConnected (status s)
   then vpnGate send s w = (None, w) \<and> Resolve look s name w = look name w
   else fst (vpnGate send s w) \<noteq> None \<and> snd (vpnGate send s w) = snd (send RepNetworkUnreachable w)
     \<and> Resolve look s name w = (Inl errVPNDown, w)"
  by (auto simp: vpnGate_def Resolve_def GetState_def split: prod.splits option.splits)

text \<open>
  What the library documents of its authentication, for the options of a server and what a client
  offers: without credentials everyone is admitted, and with one store a client is exactly if it
  offers a name with the password stored for it.
\<close>

definition stores :: "socks_option list \<Rightarrow> (string \<times> string) list list" where
  "stores os = concat (map (\<lambda>opt. case opt of WithCredential cr \<Rightarrow> [cr] | _ \<Rightarrow> []) os)"

definition auth_ok :: "(socks_option list \<Rightarrow> (string \<times> string) option \<Rightarrow> bool) \<Rightarrow> bool" where
  "auth_ok admits \<longleftrightarrow> (\<forall>os offer. stores os = [] \<longrightarrow> admits os offer)
     \<and> (\<forall>os cr offer. stores os = [cr] \<longrightarrow>
          admits os offer = (case offer of None \<Rightarrow> False | Some (u, p) \<Rightarrow> map_of cr u = Some p))"

text \<open>
  C36: Who is admitted. With a valid configuration that has a SOCKS user, the LAN server admits
  exactly the clients that offer this user with the SOCKS password of the configuration, which is
  not empty: no other name, not the credentials of the VPN, and nobody without; without one it
  admits everyone, as the loopback server always does. Both servers carry the resolver and the
  gate, and nothing else but the logger.
\<close>

theorem socks_auth:
  assumes "validate c = None" and "auth_ok admits"
  shows "admits (newSocksServer lan_side (New (serviceOptions c))) offer =
       (if lan_side \<and> cfg_socks_user c \<noteq> []
        then offer = Some (cfg_socks_user c, cfg_socks_password c) \<and> cfg_socks_password c \<noteq> [] else True)
     \<and> filter (\<lambda>opt. \<forall>cr. opt \<noteq> WithCredential cr) (newSocksServer lan_side (New (serviceOptions c)))
       = [WithLogger, WithResolver, WithConnectMiddleware]"
proof -
  let ?os = "newSocksServer lan_side (New (serviceOptions c))"
  let ?need = "lan_side \<and> cfg_socks_user c \<noteq> []"
  have st: "stores ?os = (if ?need then [[(cfg_socks_user c, cfg_socks_password c)]] else [])"
    by (simp add: stores_def newSocksServer_def New_def serviceOptions_def Let_def)
  have "admits ?os offer = (if ?need then offer = Some (cfg_socks_user c, cfg_socks_password c)
      \<and> cfg_socks_password c \<noteq> [] else True)"
  proof (cases ?need)
    case True
    then have "cfg_socks_password c \<noteq> []" using assms(1) validate_credentials [of c] by simp
    moreover have "admits ?os offer = (case offer of None \<Rightarrow> False
        | Some (u, p) \<Rightarrow> map_of [(cfg_socks_user c, cfg_socks_password c)] u = Some p)"
      using assms(2) st True by (simp add: auth_ok_def)
    ultimately show ?thesis using True by (auto split: option.splits if_splits)
  next
    case False
    then have "stores ?os = []" using st by (simp only: if_False)
    with assms(2) have "admits ?os offer" by (simp add: auth_ok_def)
    then show ?thesis using False by (simp only: if_False simp_thms)
  qed
  then show ?thesis
    by (simp add: newSocksServer_def New_def serviceOptions_def Let_def)
qed

text \<open>A server that does what is documented, with a configuration that has a user.\<close>

definition plain_admits :: "socks_option list \<Rightarrow> (string \<times> string) option \<Rightarrow> bool" where
  "plain_admits os offer =
     (case stores os of
        [] \<Rightarrow> True
      | cr # _ \<Rightarrow> (case offer of None \<Rightarrow> False | Some (u, p) \<Rightarrow> map_of cr u = Some p))"

theorem socks_auth_witness:
  "plain_admits (newSocksServer True (New (serviceOptions
       (sample_config\<lparr>cfg_socks_user := ''lan'', cfg_socks_password := ''key''\<rparr>)))) (Some (''lan'', ''key''))
   \<and> \<not> plain_admits (newSocksServer True (New (serviceOptions
       (sample_config\<lparr>cfg_socks_user := ''lan'', cfg_socks_password := ''key''\<rparr>)))) None"
proof -
  let ?c = "sample_config\<lparr>cfg_socks_user := ''lan'', cfg_socks_password := ''key''\<rparr>"
  have v: "validate ?c = None" using sample_config_valid by (auto simp: validate_def split: if_splits option.splits)
  have "auth_ok plain_admits" by (simp add: auth_ok_def plain_admits_def)
  from socks_auth [OF v this, of True "Some (''lan'', ''key'')"] socks_auth [OF v this, of True None]
  show ?thesis by simp
qed

end
