(* ===== verification/Bind.thy ===== *)
theory Bind
  imports Dns Discovery
begin

text \<open>
  The LAN listener's socket, \<open>bind_darwin.go\<close> and \<open>bind_other.go\<close>: on macOS the socket is tied to
  the interface before it is bound, elsewhere the LAN listener is not available. What the
  \<open>net\<close> and \<open>unix\<close> packages do is a record of functions.
\<close>

text \<open>
  \<open>RawControl\<close> runs its function on the socket or fails; \<open>SetBoundIf\<close> is the socket option on the
  index of an interface; \<open>ListenWith\<close> creates the socket, runs the control function on it and
  fails with its error, or binds and listens.
\<close>

record 'w sock_lib =
  RawControl :: "('w \<Rightarrow> go_error option \<times> 'w) \<Rightarrow> 'w \<Rightarrow> (go_error option \<times> go_error option) \<times> 'w"
  SetBoundIf :: "net_iface \<Rightarrow> 'w \<Rightarrow> go_error option \<times> 'w"
  ListenWith :: "string \<Rightarrow> string \<Rightarrow> ('w \<Rightarrow> go_error option \<times> 'w) \<Rightarrow> 'w \<Rightarrow> go_error option \<times> 'w"

text \<open>The control function: the failure of \<open>Control\<close> itself comes first, then the option's.\<close>

definition bind_control :: "'w sock_lib \<Rightarrow> net_iface \<Rightarrow> 'w \<Rightarrow> go_error option \<times> 'w" where
  "bind_control lib ifi w =
     (case RawControl lib (SetBoundIf lib ifi) w of
        ((Some err, serr), w1) \<Rightarrow> (Some err, w1)
      | ((None, serr), w1) \<Rightarrow> (serr, w1))"

definition listenBoundToInterface ::
  "'w os \<Rightarrow> 'w sock_lib \<Rightarrow> string \<Rightarrow> 'w \<Rightarrow> go_error option \<times> 'w" where
  "listenBoundToInterface os lib iface w =
     (case os_interface_by_name os iface w of
        Inl err \<Rightarrow> (Some err, w)
      | Inr ifi \<Rightarrow> ListenWith lib ''tcp4'' (JoinHostPort ''0.0.0.0'' proxyPort) (bind_control lib ifi) w)"

definition listenBoundToInterface_other :: "string \<Rightarrow> 'w \<Rightarrow> go_error option \<times> 'w" where
  "listenBoundToInterface_other iface w =
     (Some (Msg ''binding to an interface is only supported on macOS''), w)"

text \<open>
  The socket is never left unbound to the interface: with an unknown interface no socket is
  made, and with a library whose \<open>Listen\<close> succeeds only after its control function and whose
  \<open>Control\<close> reports the result of its function, a listener exists only if the option was set on
  that interface, on the address the accept loop names in its errors.
\<close>

theorem listener_bound:
  assumes "\<And>net a c w. fst (ListenWith lib net a c w) = None \<Longrightarrow> fst (c w) = None"
    and "\<And>f w. fst (fst (RawControl lib f w)) = None \<Longrightarrow> snd (fst (RawControl lib f w)) = fst (f w)"
    and "fst (listenBoundToInterface os lib iface w) = None"
  shows "\<exists>ifi. os_interface_by_name os iface w = Inr ifi \<and> fst (SetBoundIf lib ifi w) = None"
proof -
  obtain ifi where i: "os_interface_by_name os iface w = Inr ifi"
    using assms(3) by (auto simp: listenBoundToInterface_def split: sum.splits)
  with assms(1,3) have "fst (bind_control lib ifi w) = None"
    by (simp add: listenBoundToInterface_def)
  with assms(2) [of "SetBoundIf lib ifi" w] have "fst (SetBoundIf lib ifi w) = None"
    by (auto simp: bind_control_def split: prod.splits option.splits)
  with i show ?thesis by blast
qed

end
