(* ===== verification/Logger.thy ===== *)
theory Logger
  imports Go_Strings
begin

text \<open>
  The log handler of \<open>internal/utils/log\<close>: one line per record, the level and the attributes in
  color, the error last. Attribute values are given as the text \<open>Value.String\<close> prints, times
  as the text the time format prints.
\<close>

section \<open>Definitions\<close>

datatype attr_value = NilValue | TextValue string

fun value_string :: "attr_value \<Rightarrow> string" where
  "value_string NilValue = ''<nil>''"
| "value_string (TextValue s) = s"

type_synonym attr = "string \<times> attr_value"

text \<open>The zero attribute has an empty key and the nil value.\<close>

definition zero_attr :: attr where "zero_attr = ([], NilValue)"

record log_record =
  rec_time :: string
  rec_level :: int
  rec_message :: string
  rec_attrs :: "attr list"

record colorHandler =
  level :: int
  attrs :: "attr list"

text \<open>The handler the program installs as the default.\<close>

definition Setup :: "int \<Rightarrow> colorHandler" where
  "Setup lvl = \<lparr>level = lvl, attrs = []\<rparr>"

definition LevelDebug :: int where "LevelDebug = -4"
definition LevelInfo :: int where "LevelInfo = 0"
definition LevelWarn :: int where "LevelWarn = 4"
definition LevelError :: int where "LevelError = 8"

lemmas level_defs = LevelDebug_def LevelInfo_def LevelWarn_def LevelError_def

definition Colorize :: "string \<Rightarrow> int \<Rightarrow> string" where
  "Colorize s c = [CHR 0x1B] @ ''[38;5;'' @ decimal_int c @ ''m'' @ s @ [CHR 0x1B] @ ''[0m''"

definition formatLevel :: "int \<Rightarrow> string" where
  "formatLevel l =
     (if l \<ge> LevelError then Colorize ''ERR'' 9
      else if l \<ge> LevelWarn then Colorize ''WRN'' 11
      else if l \<ge> LevelInfo then Colorize ''INF'' 10
      else Colorize ''DBG'' 8)"

definition Enabled :: "int \<Rightarrow> colorHandler \<Rightarrow> bool" where
  "Enabled l h = (l \<ge> level h)"

text \<open>The closure that takes one attribute: the text so far and the error text.\<close>

definition appendAttr :: "attr \<Rightarrow> string \<times> string \<Rightarrow> string \<times> string" where
  "appendAttr a be =
     (case a of (key, val) \<Rightarrow> case be of (b, err_str) \<Rightarrow>
      if a = zero_attr then (b, err_str)
      else if key = ''error'' then (b, value_string val)
      else (b @ '' '' @ Colorize (key @ ''='' @ value_string val) 8, err_str))"

text \<open>The line a record becomes: what \<open>Handle\<close> writes in one call.\<close>

definition Handle :: "log_record \<Rightarrow> colorHandler \<Rightarrow> string" where
  "Handle r h =
     (let b0 = Colorize (rec_time r) 7 @ '' '' @ formatLevel (rec_level r) @ '' '' @ rec_message r;
          (b1, err_str) = fold appendAttr (rec_attrs r) (fold appendAttr (attrs h) (b0, []));
          b2 = (if err_str \<noteq> [] then b1 @ '' '' @ Colorize err_str 1 else b1)
      in b2 @ [CHR 0x0A])"

definition WithAttrs :: "attr list \<Rightarrow> colorHandler \<Rightarrow> colorHandler" where
  "WithAttrs as h = h\<lparr>attrs := attrs h @ as\<rparr>"

definition WithGroup :: "string \<Rightarrow> colorHandler \<Rightarrow> colorHandler" where
  "WithGroup name h = h"

text \<open>
  \<open>Handle\<close> hands the line to the handler's writer in one call and returns its error; a logger asks
  \<open>Enabled\<close> first and ignores that error. The SOCKS server logs through \<open>proxyLogger\<close>, whose format
  and arguments are the library's: \<open>sprintf\<close> is \<open>fmt.Sprintf\<close> on them.
\<close>

type_synonym 'o writer = "string \<Rightarrow> 'o \<Rightarrow> (nat \<times> go_error option) \<times> 'o"

definition Handle_to :: "'o writer \<Rightarrow> log_record \<Rightarrow> colorHandler \<Rightarrow> 'o \<Rightarrow> go_error option \<times> 'o" where
  "Handle_to write r h out = (case write (Handle r h) out of ((n, err), out1) \<Rightarrow> (err, out1))"

definition slog_log :: "'o writer \<Rightarrow> log_record \<Rightarrow> colorHandler \<Rightarrow> 'o \<Rightarrow> 'o" where
  "slog_log write r h out = (if Enabled (rec_level r) h then snd (Handle_to write r h out) else out)"

definition proxyLogger_Errorf ::
  "(string \<Rightarrow> 'a list \<Rightarrow> string) \<Rightarrow> string \<Rightarrow> 'o writer \<Rightarrow> colorHandler \<Rightarrow> string \<Rightarrow> 'a list \<Rightarrow> 'o \<Rightarrow> 'o" where
  "proxyLogger_Errorf sprintf now write h format args out =
     slog_log write
       \<lparr>rec_time = now, rec_level = LevelError, rec_message = sprintf format args, rec_attrs = []\<rparr> h out"

section \<open>Lemmas\<close>

text \<open>What the attributes contribute, and the error that ends up last.\<close>

definition attr_text :: "attr list \<Rightarrow> string" where
  "attr_text as = concat (map (\<lambda>(k, v). '' '' @ Colorize (k @ ''='' @ value_string v) 8)
     (filter (\<lambda>a. a \<noteq> zero_attr \<and> fst a \<noteq> ''error'') as))"

definition error_text :: "attr list \<Rightarrow> string" where
  "error_text as =
     (let es = filter (\<lambda>a. fst a = ''error'') as in
      if es = [] then [] else value_string (snd (last es)))"

lemma attr_text_append: "attr_text (as @ bs) = attr_text as @ attr_text bs"
  by (simp add: attr_text_def)

lemma appendAttr_step:
  "appendAttr a (b, e) =
     (b @ attr_text [a], if fst a = ''error'' then value_string (snd a) else e)"
  by (cases a) (auto simp: appendAttr_def attr_text_def zero_attr_def)

lemma fold_appendAttr:
  "fold appendAttr as (b, e) =
     (b @ attr_text as, if filter (\<lambda>a. fst a = ''error'') as = [] then e else error_text as)"
proof (induction as arbitrary: b e)
  case Nil
  then show ?case by (simp add: attr_text_def)
next
  case (Cons a as)
  then show ?case
    using attr_text_append [of "[a]" as] by (simp add: appendAttr_step error_text_def Let_def)
qed

lemma Colorize_line: "CHR 0x0A \<notin> set s \<Longrightarrow> CHR 0x0A \<notin> set (decimal_int c) \<Longrightarrow> CHR 0x0A \<notin> set (Colorize s c)"
  by (simp add: Colorize_def)

section \<open>Properties\<close>

text \<open>
  A record becomes one line in the documented form: time, level, message, then every
  attribute of the handler and of the record in order, and at the very end the error that
  was given last, unless its text is empty; the zero attribute is left out.
\<close>

theorem Handle_format:
  "Handle r h =
     (let as = attrs h @ rec_attrs r in
      Colorize (rec_time r) 7 @ '' '' @ formatLevel (rec_level r) @ '' '' @ rec_message r
      @ attr_text as @ (if error_text as = [] then [] else '' '' @ Colorize (error_text as) 1) @ [CHR 0x0A])"
proof -
  have f: "fold appendAttr (rec_attrs r) (fold appendAttr (attrs h) (b, [])) =
      (b @ attr_text (attrs h @ rec_attrs r), error_text (attrs h @ rec_attrs r))" for b
    by (simp add: fold_appendAttr attr_text_append error_text_def Let_def)
  show ?thesis by (simp add: Handle_def f Let_def)
qed

text \<open>
  Attributes given to a handler and attributes given to the record are the same thing, so
  that deriving handlers step by step never reorders or drops one, and groups change nothing.
\<close>

theorem WithAttrs_appends:
  "Handle r (WithAttrs as h) = Handle (r\<lparr>rec_attrs := as @ rec_attrs r\<rparr>) h
   \<and> WithAttrs bs (WithAttrs as h) = WithAttrs (as @ bs) h
   \<and> Handle r (WithGroup name h) = Handle r h
   \<and> Enabled l (WithAttrs as h) = Enabled l h"
  by (simp add: Handle_def WithAttrs_def WithGroup_def Enabled_def)

end
