(* ===== verification/Tui.thy ===== *)
theory Tui
  imports Service Logger "HOL-Library.Sublist"
begin

text \<open>
  The terminal interface of \<open>internal/utils/tui\<close>, as far as it computes: the log channel, the
  texts of the sidebar, the geometry and the setup of the views, the color of the banner, and the
  way \<open>CreateTUI\<close> redirects and restores the output. The gocui library is a parameter.
\<close>

section \<open>The log channel\<close>

definition log_capacity :: nat where "log_capacity = 256"

text \<open>A send that does not block: a full channel drops the new line.\<close>

definition logWriter_Write :: "string \<Rightarrow> string list \<Rightarrow> (nat \<times> go_error option) \<times> string list" where
  "logWriter_Write p logs =
     ((length p, None), if length logs < log_capacity then logs @ [p] else logs)"

section \<open>The sidebar\<close>

definition sidebarWidth :: int where "sidebarWidth = 22"

text \<open>The filled and the empty circle, and the clock, in UTF-8.\<close>

definition dot_on :: string where "dot_on = [CHR 0xE2, CHR 0x97, CHR 0x8F]"
definition dot_off :: string where "dot_off = [CHR 0xE2, CHR 0x97, CHR 0x8B]"
definition clock_sign :: string where "clock_sign = [CHR 0xE2, CHR 0x8F, CHR 0xB1]"

definition indicator :: "bool \<Rightarrow> string" where
  "indicator ok = (if ok then Colorize (dot_on @ '' OK'') 10 else Colorize (dot_off @ '' --'') 9)"

definition bindLabel :: "string \<Rightarrow> string" where
  "bindLabel iface =
     (if iface = [] then Colorize (dot_off @ '' --'') 9 else Colorize (dot_on @ '' '' @ iface) 10)"

definition status_text :: "State \<Rightarrow> string" where
  "status_text st =
     '' VPN    '' @ indicator (CiscoConnected st) @ [CHR 0x0A]
     @ '' PF     '' @ indicator (PFDisabled st) @ [CHR 0x0A]
     @ '' Bind   '' @ bindLabel (LANInterface st) @ [CHR 0x0A]
     @ '' Proxy  '' @ indicator (ProxyStarted st) @ [CHR 0x0A]
     @ '' DNS    '' @ indicator (DNSStarted st) @ [CHR 0x0A]"

text \<open>
  The uptime for a duration that is not negative. The code divides in floating point and
  truncates; the two agree while the rounding of a float64 does not carry, that is for
  uptimes of some thousand hours.
\<close>

definition two_digits :: "int \<Rightarrow> string" where
  "two_digits n = (let s = decimal_int n in if length s < 2 then ''0'' @ s else s)"

definition rune_count :: "string \<Rightarrow> nat" where
  "rune_count s = length (filter (\<lambda>c. (of_char c :: nat) < 128 \<or> (of_char c :: nat) \<ge> 192) s)"

definition pad_left :: "nat \<Rightarrow> string \<Rightarrow> string" where
  "pad_left w s = replicate (w - rune_count s) CHR '' '' @ s"

definition uptime_text :: "duration \<Rightarrow> string" where
  "uptime_text d =
     (let h = d div (60 * minute); m = d div minute mod 60; s = d div second mod 60
      in pad_left (nat (sidebarWidth - 3))
           (clock_sign @ '' '' @ two_digits h @ '':'' @ two_digits m @ '':'' @ two_digits s))"

section \<open>The views\<close>

text \<open>Corners of a view: left, top, right, bottom.\<close>

datatype view = Banner | Logs | StatusView | Uptime

fun view_rect :: "view \<Rightarrow> int \<Rightarrow> int \<Rightarrow> int \<times> int \<times> int \<times> int" where
  "view_rect Banner maxX maxY = (0, 0, maxX - sidebarWidth, 2)"
| "view_rect Logs maxX maxY = (0, 3, maxX - sidebarWidth, maxY - 1)"
| "view_rect StatusView maxX maxY = (maxX - sidebarWidth + 1, 3, maxX - 1, maxY - 1)"
| "view_rect Uptime maxX maxY = (maxX - sidebarWidth + 1, 0, maxX - 1, 2)"

instantiation view :: enum
begin

definition "enum_view = [Banner, Logs, StatusView, Uptime]"

definition "enum_all_view P \<longleftrightarrow> list_all P [Banner, Logs, StatusView, Uptime]"

definition "enum_ex_view P \<longleftrightarrow> list_ex P [Banner, Logs, StatusView, Uptime]"

instance
proof
  have u: "UNIV = {Banner, Logs, StatusView, Uptime}" by (auto intro: view.exhaust)
  show "UNIV = set (enum_class.enum :: view list)" by (simp add: enum_view_def u)
  show "distinct (enum_class.enum :: view list)" by (simp add: enum_view_def)
  show "enum_class.enum_all P \<longleftrightarrow> Ball UNIV P" for P :: "view \<Rightarrow> bool" by (simp add: enum_all_view_def u)
  show "enum_class.enum_ex P \<longleftrightarrow> Bex UNIV P" for P :: "view \<Rightarrow> bool" by (simp add: enum_ex_view_def u)
qed

end

definition ErrUnknownView :: go_error where "ErrUnknownView = Sentinel ''unknown view''"
definition ErrQuit :: go_error where "ErrQuit = Sentinel ''quit''"

definition isNewView :: "go_error \<Rightarrow> bool" where
  "isNewView err = errors_is err ErrUnknownView"

text \<open>The faces of the banner, in UTF-8; \<open>intn\<close> is the random source \<open>rand.Intn\<close>.\<close>

definition arts :: "string list" where
  "arts =
     [[CHR 0xE2, CHR 0x8A, CHR 0x82, CHR ''('', CHR 0xE2, CHR 0x97, CHR 0x89, CHR 0xE2, CHR 0x80,
       CHR 0xBF, CHR 0xE2, CHR 0x97, CHR 0x89, CHR '')'', CHR 0xE3, CHR 0x81, CHR 0xA4],
      [CHR ''('', CHR '' '', CHR 0xE2, CHR 0x9C, CHR 0x9C, CHR 0xEF, CHR 0xB8, CHR 0xB5, CHR '' '',
       CHR 0xE2, CHR 0x9C, CHR 0x9C, CHR '' '', CHR '')''],
      [CHR 0xCA, CHR 0x95, CHR 0xE3, CHR 0x81, CHR 0xA3, CHR '' '', CHR 0xE2, CHR 0x80, CHR 0xA2,
       CHR 0xE1, CHR 0xB4, CHR 0xA5, CHR 0xE2, CHR 0x80, CHR 0xA2, CHR 0xCA, CHR 0x94, CHR 0xE3,
       CHR 0x81, CHR 0xA3],
      [CHR ''('', CHR 0xEF, CHR 0xBD, CHR 0xA1, CHR 0xE2, CHR 0x97, CHR 0x95, CHR 0xE2, CHR 0x80,
       CHR 0xBF, CHR 0xE2, CHR 0x80, CHR 0xBF, CHR 0xE2, CHR 0x97, CHR 0x95, CHR 0xEF, CHR 0xBD,
       CHR 0xA1, CHR '')''],
      [CHR ''('', CHR 0xE3, CHR 0x81, CHR 0xA3, CHR '' '', CHR 0xC2, CHR 0xB4, CHR 0xCF, CHR 0x89,
       CHR ''`'', CHR ''c'', CHR '')'', CHR 0xE2, CHR 0x99, CHR 0xA1],
      [CHR ''('', CHR 0xCA, CHR 0x98, CHR 0xE2, CHR 0x80, CHR 0xBF, CHR 0xCA, CHR 0x98, CHR '')'',
       CHR 0xE2, CHR 0x95, CHR 0xAF]]"

definition randomArt :: "(nat \<Rightarrow> nat) \<Rightarrow> string" where
  "randomArt intn = arts ! intn (length arts)"

text \<open>What a view is given when it is new.\<close>

record gui_view =
  Title :: string
  Frame :: bool
  Wrap :: bool
  Autoscroll :: bool
  view_text :: string

definition plain_view :: gui_view where
  "plain_view = \<lparr>Title = [], Frame = True, Wrap = False, Autoscroll = False, view_text = []\<rparr>"

fun new_view :: "string \<Rightarrow> view \<Rightarrow> gui_view" where
  "new_view art Banner = plain_view\<lparr>Frame := False, view_text := '' '' @ art @ '' cisco-socks-server''\<rparr>"
| "new_view art Logs = plain_view\<lparr>Title := '' Logs '', Wrap := True, Autoscroll := True\<rparr>"
| "new_view art StatusView = plain_view\<lparr>Title := '' Status ''\<rparr>"
| "new_view art Uptime = plain_view\<lparr>Frame := False\<rparr>"

text \<open>The goroutine that goes with a new view: the one that hands on the log, the two that redraw the sidebar.\<close>

datatype drawer = LogDrawer | StatusDrawer | UptimeDrawer

fun drawers :: "view \<Rightarrow> drawer list" where
  "drawers Banner = []"
| "drawers Logs = [LogDrawer]"
| "drawers StatusView = [StatusDrawer]"
| "drawers Uptime = [UptimeDrawer]"

text \<open>
  \<open>SetView\<close> of the library places a view and reports an unknown view for a new one, which is
  then configured and gets its goroutine; \<open>made\<close> collects the views that were, in order, and the
  list beside it the goroutines that were started.
\<close>

type_synonym 'g set_view = "view \<Rightarrow> int \<times> int \<times> int \<times> int \<Rightarrow> 'g \<Rightarrow> go_error option \<times> 'g"
type_synonym made = "(view \<times> gui_view) list \<times> drawer list"

definition setup_view ::
  "'g set_view \<Rightarrow> string \<Rightarrow> int \<Rightarrow> int \<Rightarrow> view \<Rightarrow> 'g \<times> made \<Rightarrow> go_error option \<times> 'g \<times> made" where
  "setup_view set_view art maxX maxY v gm =
     (case gm of (g, made, started) \<Rightarrow>
      case set_view v (view_rect v maxX maxY) g of
        (None, g1) \<Rightarrow> (None, g1, made, started)
      | (Some err, g1) \<Rightarrow>
          if \<not> isNewView err then (Some err, g1, made, started)
          else (None, g1, made @ [(v, new_view art v)], started @ drawers v))"

text \<open>A pass of the manager: the views in order, stopped by the first failure.\<close>

fun layout_pass ::
  "'g set_view \<Rightarrow> string \<Rightarrow> int \<Rightarrow> int \<Rightarrow> view list \<Rightarrow> 'g \<times> made \<Rightarrow> go_error option \<times> 'g \<times> made" where
  "layout_pass set_view art maxX maxY [] gm = (None, gm)"
| "layout_pass set_view art maxX maxY (v # vs) gm =
     (case setup_view set_view art maxX maxY v gm of
        (Some e, gm1) \<Rightarrow> (Some e, gm1)
      | (None, gm1) \<Rightarrow> layout_pass set_view art maxX maxY vs gm1)"

definition manager ::
  "'g set_view \<Rightarrow> string \<Rightarrow> int \<times> int \<Rightarrow> 'g \<times> made \<Rightarrow> go_error option \<times> 'g \<times> made" where
  "manager set_view art dim gm =
     (case dim of (maxX, maxY) \<Rightarrow>
        layout_pass set_view art maxX maxY [Banner, Logs, StatusView, Uptime] gm)"

subsection \<open>Passes of the manager\<close>

text \<open>
  What the library documents of \<open>SetView\<close>: an empty rectangle is an error and changes nothing; a
  view it knows is moved; another one becomes known, with \<open>ErrUnknownView\<close>.
\<close>

definition set_view_ok :: "'g set_view \<Rightarrow> ('g \<Rightarrow> view set) \<Rightarrow> bool" where
  "set_view_ok set_view known \<longleftrightarrow>
     (\<forall>v l t r b g. case set_view v (l, t, r, b) g of (res, g1) \<Rightarrow>
        if r \<le> l \<or> b \<le> t then (\<exists>e. res = Some e \<and> \<not> isNewView e) \<and> known g1 = known g
        else if v \<in> known g then res = None \<and> known g1 = known g
        else res = Some ErrUnknownView \<and> known g1 = insert v (known g))"

text \<open>The library calls the manager whenever it draws, and its main loop ends with the first error.\<close>

fun layouts ::
  "'g set_view \<Rightarrow> string \<Rightarrow> (int \<times> int) list \<Rightarrow> 'g \<times> made \<Rightarrow> go_error option \<times> 'g \<times> made" where
  "layouts set_view art [] gm = (None, gm)"
| "layouts set_view art (dim # dims) gm =
     (case manager set_view art dim gm of
        (Some e, gm1) \<Rightarrow> (Some e, gm1)
      | (None, gm1) \<Rightarrow> layouts set_view art dims gm1)"

definition views_made :: "string \<Rightarrow> ('g \<Rightarrow> view set) \<Rightarrow> 'g \<times> made \<Rightarrow> bool" where
  "views_made art known gm \<longleftrightarrow>
     (case gm of (g, made, started) \<Rightarrow> distinct (map fst made) \<and> set (map fst made) = known g
        \<and> list_all (\<lambda>(v, c). c = new_view art v) made
        \<and> started = concat (map drawers (map fst made)))"

definition fits :: "int \<times> int \<Rightarrow> bool" where
  "fits dim = (case dim of (maxX, maxY) \<Rightarrow> sidebarWidth < maxX \<and> 4 < maxY)"

fun has_area :: "int \<Rightarrow> int \<Rightarrow> view \<Rightarrow> bool" where
  "has_area maxX maxY v = (case view_rect v maxX maxY of (l, t, r, b) \<Rightarrow> l < r \<and> t < b)"

lemma isNew_unknown [simp]: "isNewView ErrUnknownView"
  by (simp add: isNewView_def errors_is_refl)

lemma set_view_okD:
  "set_view_ok set_view known \<Longrightarrow> case set_view v (l, t, r, b) g of (res, g1) \<Rightarrow>
     if r \<le> l \<or> b \<le> t then (\<exists>e. res = Some e \<and> \<not> isNewView e) \<and> known g1 = known g
     else if v \<in> known g then res = None \<and> known g1 = known g
     else res = Some ErrUnknownView \<and> known g1 = insert v (known g)"
  unfolding set_view_ok_def by (drule spec)+

lemma setup_view_made:
  assumes "set_view_ok set_view known" and "views_made art known (g, made, ds)"
    and "setup_view set_view art maxX maxY v (g, made, ds) = (err, g1, made1, ds1)"
  shows "views_made art known (g1, made1, ds1) \<and> (err = None) = has_area maxX maxY v
     \<and> known g1 = (if has_area maxX maxY v then insert v (known g) else known g)"
proof -
  obtain l t r b where rect: "view_rect v maxX maxY = (l, t, r, b)" by (metis surj_pair)
  obtain res g' where sv: "set_view v (l, t, r, b) g = (res, g')" by (metis surj_pair)
  from assms(1) sv have ok: "if r \<le> l \<or> b \<le> t then (\<exists>e. res = Some e \<and> \<not> isNewView e) \<and> known g' = known g
        else if v \<in> known g then res = None \<and> known g' = known g
        else res = Some ErrUnknownView \<and> known g' = insert v (known g)"
    using set_view_okD [where set_view = set_view and known = known and v = v and l = l and t = t and r = r and b = b and g = g] by simp
  consider (empty) "r \<le> l \<or> b \<le> t" | (old) "\<not> (r \<le> l \<or> b \<le> t)" "v \<in> known g"
    | (new) "\<not> (r \<le> l \<or> b \<le> t)" "v \<notin> known g" by blast
  then show ?thesis
  proof cases
    case empty
    with ok obtain e where "res = Some e" "\<not> isNewView e" "known g' = known g" by auto
    with empty assms(2,3) show ?thesis by (auto simp: setup_view_def rect sv views_made_def simp del: set_map)
  next
    case old
    with ok assms(2,3) show ?thesis
      by (auto simp: setup_view_def rect sv views_made_def simp del: set_map)
  next
    case new
    with ok have "res = Some ErrUnknownView" "known g' = insert v (known g)" by simp_all
    with new assms(2,3) show ?thesis by (simp add: setup_view_def rect sv views_made_def) force
  qed
qed

lemma layout_pass_made:
  assumes "set_view_ok set_view known"
  shows "views_made art known (g, made, ds) \<Longrightarrow>
    layout_pass set_view art maxX maxY vs (g, made, ds) = (err, g1, made1, ds1) \<Longrightarrow>
    views_made art known (g1, made1, ds1) \<and> (err = None) = list_all (has_area maxX maxY) vs
     \<and> (err = None \<longrightarrow> known g1 = known g \<union> set vs)"
proof (induction vs arbitrary: g made ds)
  case Nil
  then show ?case by simp
next
  case (Cons v vs)
  obtain e g' made' ds' where s: "setup_view set_view art maxX maxY v (g, made, ds) = (e, g', made', ds')" by (metis surj_pair)
  note m = setup_view_made [OF assms Cons.prems(1) s]
  show ?case
  proof (cases e)
    case None
    with Cons.prems(2) s m Cons.IH [of g' made' ds'] show ?thesis by auto
  next
    case (Some x)
    with Cons.prems(2) s m show ?thesis by auto
  qed
qed

lemma area_fits: "list_all (has_area maxX maxY) (enum_class.enum :: view list) \<longleftrightarrow> fits (maxX, maxY)"
  by (auto simp: enum_view_def fits_def sidebarWidth_def)

lemma manager_enum: "manager set_view art (maxX, maxY) gm = layout_pass set_view art maxX maxY enum_class.enum gm"
  by (simp add: manager_def enum_view_def)

lemma manager_made:
  assumes "set_view_ok set_view known" and "views_made art known (g, made, ds)"
    and "manager set_view art dim (g, made, ds) = (err, g1, made1, ds1)"
  shows "views_made art known (g1, made1, ds1)" and "(err = None) = fits dim" and "err = None \<longrightarrow> known g1 = UNIV"
  using layout_pass_made [OF assms(1,2)] assms(3)
  by (cases dim; simp add: manager_enum area_fits enum_UNIV; blast)+

lemma layouts_made:
  assumes "set_view_ok set_view known"
  shows "views_made art known (g, made, ds) \<Longrightarrow>
    layouts set_view art dims (g, made, ds) = (err, g1, made1, ds1) \<Longrightarrow>
    views_made art known (g1, made1, ds1) \<and> (err = None) = list_all fits dims
     \<and> (err = None \<and> dims \<noteq> [] \<longrightarrow> known g1 = UNIV)"
proof (induction dims arbitrary: g made ds)
  case Nil
  then show ?case by simp
next
  case (Cons dim dims)
  obtain e g' made' ds' where s: "manager set_view art dim (g, made, ds) = (e, g', made', ds')" by (metis surj_pair)
  note m = manager_made [OF assms Cons.prems(1) s]
  show ?case
  proof (cases e)
    case None
    with Cons.prems(2) s m Cons.IH [of g' made' ds'] show ?thesis by (cases dims) auto
  next
    case (Some x)
    with Cons.prems(2) s m show ?thesis by auto
  qed
qed

lemma distinct_drawers: "distinct vs \<Longrightarrow> distinct (concat (map drawers vs))"
proof (induction vs)
  case (Cons v vs)
  have "v = v'" if "d \<in> set (drawers v)" "d \<in> set (drawers v')" for d v'
    using that by (cases v; cases v'; simp)
  moreover have "distinct (drawers v)" by (cases v) simp_all
  ultimately show ?case using Cons by auto
qed simp

text \<open>One tick of the banner animation.\<close>

definition banner_tick :: "int \<Rightarrow> int" where
  "banner_tick cl = (if cl + 1 > 231 then 52 else cl + 1)"

definition banner_start :: int where "banner_start = 51"

section \<open>The drawing goroutines\<close>

text \<open>
  What the goroutines of the views hand to the library while the interface runs: the messages
  for the log view, the texts of the sidebar, the color of the banner; when and in which order
  the library draws them is its own affair. \<open>written\<close> observes what was logged. The goroutines
  run until the interface is done; logging goes on after that.
\<close>

record ui =
  queue :: "string list"
  handed :: "string list"
  status_view :: string
  uptime_view :: string
  banner_color :: int
  ui_done :: bool
  written :: "string list"

definition ui_start :: ui where
  "ui_start = \<lparr>queue = [], handed = [], status_view = [], uptime_view = [], banner_color = banner_start,
     ui_done = False, written = []\<rparr>"

definition log_turn :: "ui \<Rightarrow> ui" where
  "log_turn u = (case queue u of [] \<Rightarrow> u | msg # rest \<Rightarrow> u\<lparr>queue := rest, handed := handed u @ [msg]\<rparr>)"

definition status_turn :: "State \<Rightarrow> ui \<Rightarrow> ui" where
  "status_turn st u = u\<lparr>status_view := status_text st\<rparr>"

definition uptime_turn :: "duration \<Rightarrow> ui \<Rightarrow> ui" where
  "uptime_turn d u = u\<lparr>uptime_view := uptime_text d\<rparr>"

definition banner_turn :: "ui \<Rightarrow> ui" where
  "banner_turn u = u\<lparr>banner_color := banner_tick (banner_color u)\<rparr>"

definition log_write :: "string \<Rightarrow> ui \<Rightarrow> ui" where
  "log_write p u = u\<lparr>queue := snd (logWriter_Write p (queue u)), written := written u @ [p]\<rparr>"

inductive ui_step :: "ui \<Rightarrow> ui \<Rightarrow> bool" where
  ui_log: "ui_step u (log_write p u)"
| ui_show: "\<not> ui_done u \<Longrightarrow> ui_step u (log_turn u)"
| ui_status: "\<not> ui_done u \<Longrightarrow> ui_step u (status_turn st u)"
| ui_uptime: "\<not> ui_done u \<Longrightarrow> 0 \<le> d \<Longrightarrow> ui_step u (uptime_turn d u)"
| ui_banner: "\<not> ui_done u \<Longrightarrow> ui_step u (banner_turn u)"
| ui_close: "ui_step u (u\<lparr>ui_done := True\<rparr>)"

inductive ui_reach :: "ui \<Rightarrow> bool" where
  ui_begin: "ui_reach ui_start"
| ui_next: "ui_reach u \<Longrightarrow> ui_step u u' \<Longrightarrow> ui_reach u'"

definition ui_inv :: "ui \<Rightarrow> bool" where
  "ui_inv u \<longleftrightarrow> subseq (handed u @ queue u) (written u) \<and> length (queue u) \<le> log_capacity
     \<and> (length (written u) \<le> log_capacity \<longrightarrow> handed u @ queue u = written u)
     \<and> 51 \<le> banner_color u \<and> banner_color u \<le> 231"

lemma subseq_snoc: "subseq xs ys \<Longrightarrow> subseq xs (ys @ [y])" "subseq xs ys \<Longrightarrow> subseq (xs @ [y]) (ys @ [y])"
  by (auto intro: subseq_rev_drop_many list_emb_append_mono)

lemma ui_step_inv: "ui_step u u' \<Longrightarrow> ui_inv u \<Longrightarrow> ui_inv u'"
proof (induction rule: ui_step.induct)
  case (ui_log u p)
  then have "subseq (handed u @ queue u) (written u)" by (simp add: ui_inv_def)
  then have "length (handed u @ queue u) \<le> length (written u)" by (rule list_emb_length)
  then have "length (queue u) < log_capacity" if "length (written u) < log_capacity" using that by simp
  with ui_log subseq_snoc [of "handed u @ queue u" "written u" p] show ?case
    by (auto simp: ui_inv_def log_write_def logWriter_Write_def)
next
  case (ui_show u)
  then show ?case by (cases "queue u") (auto simp: ui_inv_def log_turn_def)
qed (auto simp: ui_inv_def status_turn_def uptime_turn_def banner_turn_def banner_tick_def)

lemma ui_reach_inv: "ui_reach u \<Longrightarrow> ui_inv u"
proof (induction rule: ui_reach.induct)
  case ui_begin
  show ?case by (simp add: ui_start_def ui_inv_def banner_start_def)
next
  case (ui_next u u')
  show ?case by (rule ui_step_inv [OF ui_next.hyps(2) ui_next.IH])
qed

section \<open>The interface as a whole\<close>

text \<open>The standard streams and the writer of the log the process holds, and what the library is asked to do.\<close>

datatype log_sink = LogStdout | LogChannel

record std_streams =
  std_out :: string
  std_err :: string
  log_to :: log_sink

record 'w gui_lib =
  open_null :: "'w \<Rightarrow> go_error option \<times> 'w"
  new_gui :: "'w \<Rightarrow> go_error option \<times> 'w"
  set_keybinding :: "'w \<Rightarrow> go_error option \<times> 'w"
  main_loop :: "'w \<Rightarrow> go_error option \<times> 'w"
  gui_close :: "'w \<Rightarrow> 'w"

definition dev_null :: string where "dev_null = ''/dev/null''"

definition gui_body :: "'w gui_lib \<Rightarrow> 'w \<Rightarrow> go_error option \<times> 'w" where
  "gui_body lib w =
     (case set_keybinding lib w of
        (Some err, w1) \<Rightarrow> (Some err, w1)
      | (None, w1) \<Rightarrow>
          (case main_loop lib w1 of
             (Some err, w2) \<Rightarrow> if \<not> errors_is err ErrQuit then (Some err, w2) else (None, w2)
           | (None, w2) \<Rightarrow> (None, w2)))"

definition CreateTUI ::
  "'w gui_lib \<Rightarrow> std_streams \<times> 'w \<Rightarrow> go_error option \<times> std_streams \<times> 'w" where
  "CreateTUI lib sw =
     (case sw of (st0, w) \<Rightarrow>
      let st = st0\<lparr>log_to := LogChannel\<rparr> in
      case open_null lib w of
        (Some err, w1) \<Rightarrow> (Some err, st, w1)
      | (None, w1) \<Rightarrow>
          (let st1 = st\<lparr>std_out := dev_null, std_err := dev_null\<rparr>;
               restore = (\<lambda>s :: std_streams. s\<lparr>std_out := std_out st, std_err := std_err st\<rparr>)
           in case new_gui lib w1 of
                (Some err, w2) \<Rightarrow> (Some err, restore st1, w2)
              | (None, w2) \<Rightarrow>
                  (case gui_body lib w2 of (res, w3) \<Rightarrow> (res, restore st1, gui_close lib w3))))"

section \<open>Properties\<close>

text \<open>
  Logging never blocks on the interface. Whatever lines are written, each write reports
  success for the whole line; the channel holds at most 256 lines, and what it holds is the
  oldest of what was there and what was written, in order.
\<close>

theorem logWriter_drops:
  assumes "length logs \<le> log_capacity"
  shows "fold (\<lambda>p ls. snd (logWriter_Write p ls)) ps logs = take log_capacity (logs @ ps)
     \<and> fst (logWriter_Write p logs) = (length p, None)"
proof
  show "fst (logWriter_Write p logs) = (length p, None)" by (simp add: logWriter_Write_def)
  show "fold (\<lambda>p ls. snd (logWriter_Write p ls)) ps logs = take log_capacity (logs @ ps)"
    using assms
  proof (induction ps arbitrary: logs)
    case Nil
    then show ?case by simp
  next
    case (Cons p ps)
    show ?case
    proof (cases "length logs < log_capacity")
      case True
      with Cons.IH [of "logs @ [p]"] show ?thesis by (simp add: logWriter_Write_def)
    next
      case False
      with Cons.prems have "length logs = log_capacity" by simp
      with Cons.IH [of logs] show ?thesis by (simp add: logWriter_Write_def)
    qed
  qed
qed

theorem logWriter_drops_witness:
  "fold (\<lambda>p ls. snd (logWriter_Write p ls)) [''a'', ''b''] (replicate 255 []) = replicate 255 [] @ [''a'']"
  using logWriter_drops [of "replicate 255 []" "[''a'', ''b'']" "[]"] by (simp add: log_capacity_def)

text \<open>
  The log view is handed what was logged, in order and without repetition, whatever the other
  goroutines of the interface do; lines are lost only in a flood: as long as no more than 256
  lines have been written in all, every one was handed over or is waiting. The banner never leaves
  its range of colors.
\<close>

theorem ui_logs_in_order:
  assumes "ui_reach u"
  shows "subseq (handed u @ queue u) (written u) \<and> length (queue u) \<le> 256
     \<and> (if length (written u) \<le> 256 then handed u @ queue u = written u else True)
     \<and> 51 \<le> banner_color u \<and> banner_color u \<le> 231"
  using ui_reach_inv [OF assms] by (simp add: ui_inv_def log_capacity_def)

theorem ui_logs_in_order_witness:
  "handed (log_turn (log_write ''b'' (log_write ''a'' ui_start))) = [''a'']
   \<and> queue (log_turn (log_write ''b'' (log_write ''a'' ui_start))) = [''b'']"
proof -
  let ?u = "log_turn (log_write ''b'' (log_write ''a'' ui_start))"
  have u: "handed ?u = [''a'']" "written ?u = [''a'', ''b'']"
    by (simp_all add: log_turn_def log_write_def ui_start_def logWriter_Write_def log_capacity_def)
  have "ui_reach ?u"
    by (intro ui_next [OF _ ui_show] ui_next [OF _ ui_log] ui_begin)
      (simp add: log_write_def ui_start_def)
  from ui_logs_in_order [OF this] u show ?thesis by simp
qed

text \<open>
  The views never cover each other, and stay on the screen, on every terminal that is wide
  and high enough for the sidebar and the banner.
\<close>

theorem views_disjoint:
  assumes "sidebarWidth \<le> maxX" and "4 \<le> maxY" and "v \<noteq> v'"
  shows "case (view_rect v maxX maxY, view_rect v' maxX maxY) of
     ((l, t, r, b), (l', t', r', b')) \<Rightarrow>
       (r < l' \<or> r' < l \<or> b < t' \<or> b' < t) \<and> 0 \<le> l \<and> 0 \<le> t \<and> l \<le> r \<and> t \<le> b \<and> r < maxX \<and> b < maxY"
  using assms by (cases v; cases v') (auto simp: sidebarWidth_def)

theorem views_disjoint_witness:
  "case (view_rect Logs 80 24, view_rect StatusView 80 24) of
     ((l, t, r, b), (l', t', r', b')) \<Rightarrow> (r < l' \<or> r' < l \<or> b < t' \<or> b' < t)"
  using views_disjoint [of 80 24 Logs StatusView] by (simp add: sidebarWidth_def)

text \<open>
  C38: The interface on a library that keeps its word: however often it is drawn, each view is set up
  once, with its title, and each of the three goroutines that feed the views is started at most
  once and only with its view; the first full pass has set up all four and started all three. The
  interface lives exactly as long as the terminal is wider than the sidebar and higher than four
  lines, and the first size below that ends it with an error.
\<close>

theorem views_set_up_once:
  assumes "set_view_ok set_view known" and "known g = {}"
  shows "case layouts set_view art dims (g, [], []) of (err, g1, made, started) \<Rightarrow>
     distinct (map fst made) \<and> set (map fst made) = known g1
     \<and> list_all (\<lambda>(v, c). c = new_view art v) made
     \<and> distinct started \<and> set started = (\<Union>v \<in> known g1. set (drawers v))
     \<and> (err = None) = list_all fits dims
     \<and> (if err = None \<and> dims \<noteq> [] then known g1 = UNIV \<and> set started = {LogDrawer, StatusDrawer, UptimeDrawer}
        else True)"
proof -
  obtain err g1 made started where l: "layouts set_view art dims (g, [], []) = (err, g1, made, started)"
    by (metis surj_pair)
  have "views_made art known (g, [], [])" by (simp add: views_made_def assms(2))
  note m = layouts_made [OF assms(1) this l]
  then have made: "distinct (map fst made)" "set (map fst made) = known g1"
    "list_all (\<lambda>(v, c). c = new_view art v) made" "started = concat (map drawers (map fst made))"
    by (simp_all add: views_made_def)
  have started: "distinct started" "set started = (\<Union>v \<in> known g1. set (drawers v))"
    using distinct_drawers [OF made(1)] by (simp_all add: made(4) made(2) [symmetric])
  have every: "(\<Union>v. set (drawers v)) = {LogDrawer, StatusDrawer, UptimeDrawer}"
  proof -
    have "(UNIV :: view set) = {Banner, Logs, StatusView, Uptime}"
      by (simp add: UNIV_enum enum_view_def)
    then have "(\<Union>v. set (drawers v)) = (\<Union>v \<in> {Banner, Logs, StatusView, Uptime}. set (drawers v))" by (simp only:)
    then show ?thesis by (simp add: insert_commute)
  qed
  have "if err = None \<and> dims \<noteq> [] then known g1 = UNIV \<and> set started = {LogDrawer, StatusDrawer, UptimeDrawer} else True"
  proof (cases "err = None \<and> dims \<noteq> []")
    case True
    with m have "known g1 = UNIV" by blast
    with True every started(2) show ?thesis by simp
  qed auto
  moreover have "(err = None) = list_all fits dims" using m by blast
  ultimately show ?thesis unfolding l prod.case using made(1-3) started by blast
qed

text \<open>A library that does nothing else, on a terminal that shrinks.\<close>

definition plain_gui :: "view set set_view" where
  "plain_gui v rect g =
     (case rect of (l, t, r, b) \<Rightarrow>
      if r \<le> l \<or> b \<le> t then (Some (Msg ''invalid dimensions''), g)
      else if v \<in> g then (None, g) else (Some ErrUnknownView, insert v g))"

lemma plain_gui_ok: "set_view_ok plain_gui (\<lambda>g. g)"
  by (simp add: set_view_ok_def plain_gui_def isNewView_def ErrUnknownView_def)

theorem views_set_up_once_witness:
  "fst (layouts plain_gui [] [(80, 24), (60, 24)] ({}, [], [])) = None
   \<and> distinct (snd (snd (snd (layouts plain_gui [] [(80, 24), (60, 24)] ({}, [], [])))))
   \<and> fst (layouts plain_gui [] [(80, 24), (22, 24)] ({}, [], [])) \<noteq> None"
  using views_set_up_once [OF plain_gui_ok, of "{}" "[]" "[(80, 24), (60, 24)]"]
    views_set_up_once [OF plain_gui_ok, of "{}" "[]" "[(80, 24), (22, 24)]"]
  by (auto simp: fits_def sidebarWidth_def split: prod.splits)

text \<open>
  The banner cycles through the colors 52 to 231 and no others, each once in 180 ticks.
\<close>

theorem banner_cycle:
  "(banner_tick ^^ Suc n) banner_start = 52 + int n mod 180"
proof (induction n)
  case 0
  then show ?case by (simp add: banner_tick_def banner_start_def)
next
  case (Suc n)
  have "(banner_tick ^^ Suc (Suc n)) banner_start = banner_tick (52 + int n mod 180)"
    using Suc.IH by simp
  also have "\<dots> = 52 + int (Suc n) mod 180"
  proof -
    have r: "0 \<le> int n mod 180" "int n mod 180 < 180" by simp_all
    have "int (Suc n) mod 180 = (int n mod 180 + 1) mod 180"
      by (simp add: mod_add_left_eq add.commute [of 1 "int n"])
    then show ?thesis
      using r by (cases "int n mod 180 = 179") (simp_all add: banner_tick_def mod_pos_pos_trivial)
  qed
  finally show ?case .
qed

text \<open>
  Whatever the library reports, the process gets its standard streams back, only the log still
  goes to the channel, and a quit, even a wrapped one, is not an error. The screen is closed if
  it was opened.
\<close>

theorem CreateTUI_restores:
  "case CreateTUI lib (st, w) of (err, st', w') \<Rightarrow>
     st' = st\<lparr>log_to := LogChannel\<rparr>
     \<and> (case open_null lib w of
          (Some e, w1) \<Rightarrow> err = Some e \<and> w' = w1
        | (None, w1) \<Rightarrow>
            (case new_gui lib w1 of
               (Some e, w2) \<Rightarrow> err = Some e \<and> w' = w2
             | (None, w2) \<Rightarrow>
                 (\<exists>w3. w' = gui_close lib w3)
                 \<and> (if fst (set_keybinding lib w2) \<noteq> None then err = fst (set_keybinding lib w2)
                    else err = (case fst (main_loop lib (snd (set_keybinding lib w2))) of
                      Some e \<Rightarrow> if errors_is e ErrQuit then None else Some e | None \<Rightarrow> None))))"
  by (auto simp: CreateTUI_def gui_body_def Let_def split: prod.splits option.splits)

end
