(* ===== verification/Main_Run.thy ===== *)
theory Main_Run
  imports Tui Config
begin

text \<open>
  \<open>cmd/main.go\<close>: how \<open>run\<close> puts configuration, service and interface together and which error it
  reports. The service and the interface are parameters here: the options the service is given
  and what its \<open>Start\<close> returns, and what \<open>CreateTUI\<close> returns.
\<close>

datatype run_error = LoadFailed config_error | ServiceFailed go_error | TUIFailed go_error

definition run_level :: "Config \<Rightarrow> int" where
  "run_level cfg = (if debug cfg then LevelDebug else LevelInfo)"

text \<open>The error of the interface counts only when the service has none.\<close>

definition run_result :: "go_error option \<Rightarrow> go_error option \<Rightarrow> run_error option" where
  "run_result err terr =
     (case (terr, err) of (Some e, None) \<Rightarrow> Some (TUIFailed e) | _ \<Rightarrow> map_option ServiceFailed err)"

definition run_main ::
  "config_error + Config \<Rightarrow> (Options \<Rightarrow> go_error option) \<Rightarrow> (int \<Rightarrow> go_error option) \<Rightarrow> run_error option" where
  "run_main loaded start tui =
     (case loaded of
        Inl err \<Rightarrow> Some (LoadFailed err)
      | Inr cfg \<Rightarrow>
          (let err = start (serviceOptions cfg);
               terr = (if noTUI cfg then None else tui (run_level cfg))
           in run_result err terr))"

text \<open>The exit status of \<open>main\<close>.\<close>

definition exit_code :: "run_error option \<Rightarrow> nat" where
  "exit_code r = (if r = None then 0 else 1)"

text \<open>
  The process fails exactly when something failed: the configuration, the service, or an
  interface that was started. An error of the service is never hidden by one of the interface,
  and a bad configuration starts neither of them.
\<close>

theorem run_main_result:
  "(exit_code (run_main loaded start tui) = 0 \<longleftrightarrow>
     (\<exists>cfg. loaded = Inr cfg \<and> start (serviceOptions cfg) = None
        \<and> (if noTUI cfg then True else tui (run_level cfg) = None)))
   \<and> (case loaded of
        Inl e \<Rightarrow> run_main loaded start tui = Some (LoadFailed e)
      | Inr cfg \<Rightarrow> (case start (serviceOptions cfg) of
          Some e \<Rightarrow> run_main loaded start tui = Some (ServiceFailed e)
        | None \<Rightarrow> (\<forall>e. run_main loaded start tui \<noteq> Some (ServiceFailed e))))"
  by (auto simp: run_main_def run_result_def exit_code_def Let_def split: sum.splits option.splits)

end
