(* ===== verification/Program.thy ===== *)
theory Program
  imports System_Stop Main_Run
begin

text \<open>
  The whole process, \<open>run\<close> of \<open>cmd/main.go\<close>: the service with its five goroutines, the goroutine of
  the interface beside it, and the main goroutine, which waits for the first and then for the
  second. The service is the system of \<open>System\<close>, the interface is \<open>CreateTUI\<close> at its control points
  over the machine of the views.
\<close>

section \<open>State\<close>

text \<open>
  The interface: off, not begun, past \<open>log.Setup\<close>, with the streams redirected, in the main loop
  with its goroutines running, past the loop at the restoring of the streams, returned, after the
  send of its error, after the cancellation it defers. The flag of the loop is whether the
  goroutine that waits for the context has asked it to quit. The main goroutine: in \<open>Start\<close>, at the
  receive, returned.
\<close>

datatype tui_pc = TuiOff | TuiBegin | TuiSetup | TuiOpened | TuiLoop bool
  | TuiRestoring "go_error option" | TuiLeft "go_error option"
  | TuiSent "go_error option" | TuiGone "go_error option"

datatype run_pc = RunStart | RunReceive "go_error option" | RunReturned "run_error option"

record 'w process =
  service_sys :: "'w sys"
  tui_at :: tui_pc
  run_at :: run_pc
  streams :: std_streams
  screen :: ui

definition terminal :: std_streams where
  "terminal = \<lparr>std_out = ''stdout'', std_err = ''stderr'', log_to = LogStdout\<rparr>"

definition run_start :: "Config \<Rightarrow> 'w \<Rightarrow> 'w process" where
  "run_start cfg w =
     \<lparr>service_sys = Start (serviceOptions cfg) w, tui_at = (if noTUI cfg then TuiOff else TuiBegin),
      run_at = RunStart, streams = terminal, screen = ui_start\<rparr>"

definition stop_service :: "'w process \<Rightarrow> 'w process" where
  "stop_service q =
     q\<lparr>service_sys := (service_sys q)\<lparr>px := cancel_group (px (service_sys q)), signalled := True\<rparr>\<rparr>"

text \<open>What the receive on the channel yields: nothing before the send, \<open>nil\<close> without an interface.\<close>

fun tui_sent :: "tui_pc \<Rightarrow> go_error option option" where
  "tui_sent TuiOff = Some None"
| "tui_sent (TuiSent terr) = Some terr"
| "tui_sent (TuiGone terr) = Some terr"
| "tui_sent _ = None"

fun tui_running :: "tui_pc \<Rightarrow> bool" where
  "tui_running (TuiLoop told) = True"
| "tui_running _ = False"

text \<open>From the redirection on, before there is a screen, to its deferred undoing.\<close>

fun tui_redirected :: "tui_pc \<Rightarrow> bool" where
  "tui_redirected TuiOpened = True"
| "tui_redirected (TuiLoop told) = True"
| "tui_redirected (TuiRestoring res) = True"
| "tui_redirected _ = False"

fun tui_over :: "tui_pc \<Rightarrow> bool" where
  "tui_over (TuiRestoring terr) = True"
| "tui_over (TuiLeft terr) = True"
| "tui_over (TuiSent terr) = True"
| "tui_over (TuiGone terr) = True"
| "tui_over _ = False"

section \<open>Transitions\<close>

text \<open>
  The steps of the interface and its goroutines. The loop quits when it is asked to, which
  happens when the context of the program is done. It draws the status of the service at the
  moment.
\<close>

inductive tui_step :: "'w process \<Rightarrow> 'w process \<Rightarrow> bool" where
  tui_logs: "tui_at q = TuiBegin \<Longrightarrow>
    tui_step q (q\<lparr>tui_at := TuiSetup, streams := (streams q)\<lparr>log_to := LogChannel\<rparr>\<rparr>)"
| tui_redirects: "tui_at q = TuiSetup \<Longrightarrow>
    tui_step q (q\<lparr>tui_at := TuiOpened, streams := (streams q)\<lparr>std_out := dev_null, std_err := dev_null\<rparr>\<rparr>)"
| tui_opens: "tui_at q = TuiOpened \<Longrightarrow> tui_step q (q\<lparr>tui_at := TuiLoop False\<rparr>)"
| tui_asks: "tui_at q = TuiLoop False \<Longrightarrow> signalled (service_sys q) \<Longrightarrow>
    tui_step q (q\<lparr>tui_at := TuiLoop True\<rparr>)"
| tui_quits: "tui_at q = TuiLoop True \<Longrightarrow>
    tui_step q (q\<lparr>tui_at := TuiRestoring None, screen := (screen q)\<lparr>ui_done := True\<rparr>\<rparr>)"
| tui_restores: "tui_at q = TuiRestoring res \<Longrightarrow>
    tui_step q (q\<lparr>tui_at := TuiLeft res,
      streams := (streams q)\<lparr>std_out := std_out terminal, std_err := std_err terminal\<rparr>\<rparr>)"
| tui_sends: "tui_at q = TuiLeft res \<Longrightarrow> tui_step q (q\<lparr>tui_at := TuiSent res\<rparr>)"
| tui_cancels: "tui_at q = TuiSent res \<Longrightarrow> tui_step q (stop_service (q\<lparr>tui_at := TuiGone res\<rparr>))"
| tui_status: "tui_at q = TuiLoop told \<Longrightarrow>
    tui_step q (q\<lparr>screen := status_turn (GetState (shared (service_sys q))) (screen q)\<rparr>)"
| tui_draws: "tui_at q = TuiLoop told \<Longrightarrow> ui_step (screen q) u \<Longrightarrow> \<not> ui_done u \<Longrightarrow>
    status_view u = status_view (screen q) \<Longrightarrow> tui_step q (q\<lparr>screen := u\<rparr>)"

text \<open>
  What happens to it from outside: the null device or the screen cannot be opened; a key or an
  error of the library ends the loop.
\<close>

inductive tui_event :: "'w process \<Rightarrow> 'w process \<Rightarrow> bool" where
  tui_no_null: "tui_at q = TuiSetup \<Longrightarrow> tui_event q (q\<lparr>tui_at := TuiLeft (Some e)\<rparr>)"
| tui_no_screen: "tui_at q = TuiOpened \<Longrightarrow> tui_event q (q\<lparr>tui_at := TuiRestoring (Some e)\<rparr>)"
| tui_leaves: "tui_at q = TuiLoop told \<Longrightarrow>
    tui_event q (q\<lparr>tui_at := TuiRestoring res, screen := (screen q)\<lparr>ui_done := True\<rparr>\<rparr>)"

inductive run_step :: "'w os \<Rightarrow> go_ctx \<Rightarrow> 'w pinOps \<Rightarrow> 'w process \<Rightarrow> 'w process \<Rightarrow> bool" for os ctx ops where
  service: "\<forall>r. run_at q \<noteq> RunReturned r \<Longrightarrow> sys_step os ctx ops (service_sys q) y \<Longrightarrow>
    run_step os ctx ops q (q\<lparr>service_sys := y\<rparr>)"
| interface: "\<forall>r. run_at q \<noteq> RunReturned r \<Longrightarrow> tui_step q q' \<Longrightarrow> run_step os ctx ops q q'"
| user: "\<forall>r. run_at q \<noteq> RunReturned r \<Longrightarrow> tui_event q q' \<Longrightarrow> run_step os ctx ops q q'"
| logged: "\<forall>r. run_at q \<noteq> RunReturned r \<Longrightarrow> log_to (streams q) = LogChannel \<Longrightarrow>
    run_step os ctx ops q (q\<lparr>screen := log_write line (screen q)\<rparr>)"
| started: "run_at q = RunStart \<Longrightarrow> all_returned (service_sys q) \<Longrightarrow>
    run_step os ctx ops q (stop_service (q\<lparr>run_at := RunReceive (start_err (service_sys q))\<rparr>))"
| received: "run_at q = RunReceive err \<Longrightarrow> tui_sent (tui_at q) = Some terr \<Longrightarrow>
    run_step os ctx ops q
      (q\<lparr>run_at := RunReturned (run_result err terr), streams := (streams q)\<lparr>log_to := LogStdout\<rparr>\<rparr>)"

inductive_cases run_stepE: "run_step os ctx ops q q'"

inductive run_reach :: "'w os \<Rightarrow> go_ctx \<Rightarrow> 'w pinOps \<Rightarrow> Config \<Rightarrow> 'w process \<Rightarrow> bool" for os ctx ops cfg where
  begins: "run_reach os ctx ops cfg (run_start cfg w)"
| goes_on: "run_reach os ctx ops cfg q \<Longrightarrow> run_step os ctx ops q q' \<Longrightarrow> run_reach os ctx ops cfg q'"

section \<open>The invariant\<close>

definition streams_of :: "tui_pc \<Rightarrow> run_pc \<Rightarrow> std_streams" where
  "streams_of t r =
     (let base = (if tui_redirected t then terminal\<lparr>std_out := dev_null, std_err := dev_null\<rparr> else terminal)
      in if t = TuiOff \<or> t = TuiBegin \<or> (\<exists>res. r = RunReturned res) then base
         else base\<lparr>log_to := LogChannel\<rparr>)"

definition run_ok :: "'w process \<Rightarrow> bool" where
  "run_ok q \<longleftrightarrow>
     (case run_at q of
        RunStart \<Rightarrow> True
      | RunReceive err \<Rightarrow> all_returned (service_sys q) \<and> err = start_err (service_sys q)
          \<and> signalled (service_sys q) \<and> parent_done (px (service_sys q))
      | RunReturned r \<Rightarrow> all_returned (service_sys q)
          \<and> (\<exists>terr. tui_sent (tui_at q) = Some terr \<and> r = run_result (start_err (service_sys q)) terr))"

definition screen_ok :: "'w process \<Rightarrow> bool" where
  "screen_ok q \<longleftrightarrow> ui_inv (screen q) \<and> (ui_done (screen q) \<longrightarrow> tui_over (tui_at q))"

definition process_inv :: "Config \<Rightarrow> 'w process \<Rightarrow> bool" where
  "process_inv cfg q \<longleftrightarrow> sys_inv (serviceOptions cfg) (service_sys q) \<and> run_ok q \<and> screen_ok q
     \<and> streams q = streams_of (tui_at q) (run_at q) \<and> noTUI cfg = (tui_at q = TuiOff)
     \<and> (\<forall>res. tui_at q = TuiGone res \<longrightarrow> parent_done (px (service_sys q)))"

lemma process_inv_start: "process_inv cfg (run_start cfg w)"
proof -
  have "ui_inv ui_start" by (rule ui_reach_inv [OF ui_begin])
  then show ?thesis
    by (simp add: process_inv_def run_start_def sys_inv_start run_ok_def screen_ok_def streams_of_def)
      (simp add: ui_start_def)
qed

lemma stop_service_simps [simp]:
  "tui_at (stop_service q) = tui_at q" "run_at (stop_service q) = run_at q" "streams (stop_service q) = streams q"
  "screen (stop_service q) = screen q" "parent_done (px (service_sys (stop_service q)))"
  "signalled (service_sys (stop_service q))" "start_err (service_sys (stop_service q)) = start_err (service_sys q)"
  "all_returned (service_sys (stop_service q)) = all_returned (service_sys q)"
  "loop_ext (px (service_sys (stop_service q))) = loop_ext (px (service_sys q))"
  "ext_closed (lan (px (service_sys (stop_service q)))) = ext_closed (lan (px (service_sys q)))"
  by (simp_all add: stop_service_def all_returned_def cancel_group_def)

lemma stop_service_inv:
  "sys_inv o1 (service_sys q) \<Longrightarrow> sys_inv o1 (service_sys (stop_service q))"
  by (simp add: stop_service_def inv_signal)

lemma run_ok_service:
  assumes "run_ok q" and "sys_step os ctx ops (service_sys q) y"
    and "parent_done (px (service_sys q)) \<longrightarrow> parent_done (px y)" and "signalled (service_sys q) \<longrightarrow> signalled y"
  shows "run_ok (q\<lparr>service_sys := y\<rparr>)"
  using assms(1,3,4) returned_stays [OF assms(2)] by (auto simp: run_ok_def split: run_pc.splits)

lemma sys_step_mono:
  assumes "sys_step os ctx ops y y'"
  shows "(parent_done (px y) \<longrightarrow> parent_done (px y')) \<and> (signalled y \<longrightarrow> signalled y')"
  using assms
proof cases
  case (proxy p)
  then show ?thesis by (auto simp: start_return_def proxy_own_def cancel_group_def split: option.split)
next
  case (dns pc s)
  then show ?thesis by (auto simp: start_return_def cancel_group_def split: option.split)
qed (simp_all add: cancel_group_def)

lemma inv_service:
  assumes "process_inv cfg q" and "sys_step os ctx ops (service_sys q) y" and "arp_sound ops"
  shows "process_inv cfg (q\<lparr>service_sys := y\<rparr>)"
  using assms(1) sys_step_inv [OF assms(2,3)] sys_step_mono [OF assms(2)]
    run_ok_service [OF _ assms(2)]
  by (simp add: process_inv_def screen_ok_def)

lemma status_turn_ok:
  "ui_inv u \<Longrightarrow> ui_inv (status_turn st u)" "ui_done (status_turn st u) = ui_done u"
  "status_view (status_turn st u) = status_text st"
  by (simp_all add: status_turn_def ui_inv_def)

lemma run_ok_tui:
  assumes "run_ok q" and "\<forall>r. run_at q \<noteq> RunReturned r" and "service_sys q' = service_sys q" and "run_at q' = run_at q"
  shows "run_ok q'"
  using assms by (cases "run_at q") (simp_all add: run_ok_def)

lemma inv_tui:
  assumes "tui_step q q'" and "\<forall>r. run_at q \<noteq> RunReturned r" and "process_inv cfg q"
  shows "process_inv cfg q'"
proof -
  note inv = assms(3) [unfolded process_inv_def]
  have ok: "run_ok q" "screen_ok q" using inv by simp_all
  show ?thesis
    using assms(1)
  proof cases
    case (tui_cancels res)
    have "run_ok (stop_service (q\<lparr>tui_at := TuiGone res\<rparr>))"
      using ok(1) assms(2) by (cases "run_at q") (simp_all add: run_ok_def)
    moreover have "sys_inv (serviceOptions cfg) (service_sys (stop_service (q\<lparr>tui_at := TuiGone res\<rparr>)))"
      by (rule stop_service_inv) (use inv in simp)
    ultimately show ?thesis
      using inv tui_cancels by (simp add: process_inv_def screen_ok_def streams_of_def)
  next
    case tui_status
    with inv status_turn_ok run_ok_tui [OF ok(1) assms(2)]
    show ?thesis by (auto simp: process_inv_def screen_ok_def)
  next
    case (tui_draws u)
    with inv ui_step_inv [OF tui_draws(3)] run_ok_tui [OF ok(1) assms(2)] show ?thesis
      by (simp add: process_inv_def screen_ok_def)
  qed (use inv run_ok_tui [OF ok(1) assms(2)] assms(2) in
      \<open>auto simp: process_inv_def screen_ok_def streams_of_def ui_inv_def terminal_def Let_def\<close>)
qed

lemma inv_event:
  assumes "tui_event q q'" and "\<forall>r. run_at q \<noteq> RunReturned r" and "process_inv cfg q"
  shows "process_inv cfg q'"
proof -
  note inv = assms(3) [unfolded process_inv_def]
  have ok: "run_ok q" using inv by simp
  show ?thesis
    using assms(1)
    by cases (use inv run_ok_tui [OF ok assms(2)] assms(2) in
      \<open>auto simp: process_inv_def screen_ok_def streams_of_def ui_inv_def terminal_def Let_def\<close>)
qed

lemma run_step_inv:
  assumes "run_step os ctx ops q q'" and "arp_sound ops" and "process_inv cfg q"
  shows "process_inv cfg q'"
  using assms(1)
proof cases
  case (service y)
  with inv_service [OF assms(3) _ assms(2)] show ?thesis by blast
next
  case interface
  with inv_tui [OF _ _ assms(3)] show ?thesis by blast
next
  case user
  with inv_event [OF _ _ assms(3)] show ?thesis by blast
next
  case (logged line)
  have "ui_inv (log_write line (screen q))"
    by (rule ui_step_inv [OF ui_log]) (use assms(3) in \<open>simp add: process_inv_def screen_ok_def\<close>)
  moreover have "run_ok (q\<lparr>screen := log_write line (screen q)\<rparr>)"
    by (rule run_ok_tui [OF _ logged(2)]) (use assms(3) in \<open>simp_all add: process_inv_def\<close>)
  ultimately show ?thesis
    using assms(3) logged by (simp add: process_inv_def screen_ok_def log_write_def)
next
  case started
  have "sys_inv (serviceOptions cfg) (service_sys q)" using assms(3) by (simp add: process_inv_def)
  then have "sys_inv (serviceOptions cfg) (service_sys (stop_service (q\<lparr>run_at := RunReceive (start_err (service_sys q))\<rparr>)))"
    by (intro stop_service_inv) simp
  with started assms(3) show ?thesis
    by (auto simp: process_inv_def run_ok_def screen_ok_def streams_of_def)
next
  case (received err terr)
  have "\<not> tui_redirected (tui_at q)" using received(3) by (cases "tui_at q") simp_all
  with received assms(3) show ?thesis
    by (auto simp: process_inv_def run_ok_def screen_ok_def streams_of_def terminal_def Let_def)
qed

lemma run_reach_inv: "run_reach os ctx ops cfg q \<Longrightarrow> arp_sound ops \<Longrightarrow> process_inv cfg q"
  by (induction rule: run_reach.induct) (auto intro: process_inv_start run_step_inv)

section \<open>The way out\<close>

text \<open>
  Steps of the process alone: the undisturbed steps of the service, in which no signal comes
  either, the steps of the interface without an event from outside, and those of the main
  goroutine. The only ways the context is cancelled are the ones the code has: the goroutine of the
  interface when it ends, and \<open>run\<close> itself after \<open>Start\<close>.
\<close>

inductive run_own :: "'w os \<Rightarrow> go_ctx \<Rightarrow> 'w pinOps \<Rightarrow> 'w process \<Rightarrow> 'w process \<Rightarrow> bool" for os ctx ops where
  own_service: "\<forall>r. run_at q \<noteq> RunReturned r \<Longrightarrow> sys_own os ctx ops (service_sys q) y \<Longrightarrow>
    run_own os ctx ops q (q\<lparr>service_sys := y\<rparr>)"
| own_tui: "\<forall>r. run_at q \<noteq> RunReturned r \<Longrightarrow> tui_step q q' \<Longrightarrow> run_own os ctx ops q q'"
| own_run: "run_step os ctx ops q q' \<Longrightarrow> tui_at q' = tui_at q \<Longrightarrow> screen q' = screen q \<Longrightarrow>
    run_at q' \<noteq> run_at q \<Longrightarrow> run_own os ctx ops q q'"

lemma run_own_step: "run_own os ctx ops q q' \<Longrightarrow> run_step os ctx ops q q'"
  by (induction rule: run_own.induct) (auto simp: sys_own_def intro: run_step.service run_step.interface)

abbreviation run_runs :: "'w os \<Rightarrow> go_ctx \<Rightarrow> 'w pinOps \<Rightarrow> 'w process \<Rightarrow> 'w process \<Rightarrow> bool" where
  "run_runs os ctx ops \<equiv> (run_own os ctx ops)\<^sup>*\<^sup>*"

lemma run_runs_inv:
  "run_runs os ctx ops q q' \<Longrightarrow> arp_sound ops \<Longrightarrow> process_inv cfg q \<Longrightarrow> process_inv cfg q'"
  by (induction rule: rtranclp_induct) (auto intro: run_step_inv run_own_step)

lemma service_runs:
  assumes "sys_run os ctx ops (service_sys q) y" and "\<forall>r. run_at q \<noteq> RunReturned r"
  shows "run_runs os ctx ops q (q\<lparr>service_sys := y\<rparr>)"
  using assms(1)
proof (induction rule: rtranclp_induct)
  case base
  then show ?case by simp
next
  case (step y z)
  have "run_own os ctx ops (q\<lparr>service_sys := y\<rparr>) (q\<lparr>service_sys := z\<rparr>)"
    using step.hyps(2) assms(2) own_service [of "q\<lparr>service_sys := y\<rparr>" os ctx ops z] by simp
  with step.IH show ?case by (rule rtranclp.rtrancl_into_rtrancl)
qed

text \<open>The interface, once the context of the program is done, hands its error over.\<close>

fun tui_rank :: "tui_pc \<Rightarrow> nat" where
  "tui_rank TuiBegin = 7"
| "tui_rank TuiSetup = 6"
| "tui_rank TuiOpened = 5"
| "tui_rank (TuiLoop told) = (if told then 3 else 4)"
| "tui_rank (TuiRestoring res) = 2"
| "tui_rank (TuiLeft res) = 1"
| "tui_rank _ = 0"

lemma tui_goes_on:
  assumes "0 < tui_rank (tui_at q)" and "signalled (service_sys q) \<or> tui_over (tui_at q)"
  shows "\<exists>q'. tui_step q q' \<and> tui_rank (tui_at q') < tui_rank (tui_at q)
     \<and> run_at q' = run_at q \<and> service_sys q' = service_sys q \<and> (tui_over (tui_at q) \<longrightarrow> tui_over (tui_at q'))"
proof (cases "tui_at q")
  case (TuiLoop told)
  with assms tui_asks [of q] tui_quits [of q] show ?thesis by (cases told) fastforce+
qed (use assms in \<open>fastforce intro: tui_step.intros\<close>)+

lemma tui_hands_over:
  assumes "\<forall>r. run_at q \<noteq> RunReturned r" and "signalled (service_sys q)"
  shows "\<exists>q' terr. run_runs os ctx ops q q' \<and> tui_sent (tui_at q') = Some terr
     \<and> run_at q' = run_at q \<and> service_sys q' = service_sys q"
  using assms
proof (induction "tui_rank (tui_at q)" arbitrary: q rule: less_induct)
  case less
  show ?case
  proof (cases "tui_rank (tui_at q)")
    case 0
    then obtain terr where "tui_sent (tui_at q) = Some terr"
      by (cases "tui_at q") (simp_all split: if_splits)
    then show ?thesis by blast
  next
    case (Suc n)
    then obtain q1 where q1: "tui_step q q1" "tui_rank (tui_at q1) < tui_rank (tui_at q)"
      "run_at q1 = run_at q" "service_sys q1 = service_sys q" using tui_goes_on [of q] less.prems(2) by auto
    from less.hyps [OF q1(2)] q1(3,4) less.prems obtain q' terr where
      "run_runs os ctx ops q1 q'" "tui_sent (tui_at q') = Some terr"
      "run_at q' = run_at q1" "service_sys q' = service_sys q1" by metis
    with own_tui [OF less.prems(1) q1(1), of os ctx ops] q1(3,4) show ?thesis
      by (metis converse_rtranclp_into_rtranclp)
  qed
qed

text \<open>Once the context is done, \<open>Start\<close> returns, the interface hands over, and so does \<open>run\<close>.\<close>

lemma receive_ends:
  assumes "run_at q = RunReceive err" and "signalled (service_sys q)"
  shows "\<exists>q' r. run_runs os ctx ops q q' \<and> run_at q' = RunReturned r"
proof -
  from assms obtain q1 terr where q1: "run_runs os ctx ops q q1" "tui_sent (tui_at q1) = Some terr"
    "run_at q1 = run_at q" "service_sys q1 = service_sys q" using tui_hands_over [of q os ctx ops] by auto
  let ?q2 = "q1\<lparr>run_at := RunReturned (run_result err terr), streams := (streams q1)\<lparr>log_to := LogStdout\<rparr>\<rparr>"
  have "run_own os ctx ops q1 ?q2"
    using run_step.received [of q1 err terr os ctx ops] q1(2,3) assms by (intro own_run) simp_all
  with q1(1) have "run_runs os ctx ops q ?q2" by (rule rtranclp.rtrancl_into_rtrancl)
  then show ?thesis by (intro exI [of _ ?q2]) auto
qed

lemma start_ends:
  assumes "process_inv cfg q" and "arp_sound ops" and "run_at q = RunStart" and "parent_done (px (service_sys q))"
  shows "\<exists>q' r. run_runs os ctx ops q q' \<and> run_at q' = RunReturned r"
proof -
  have "sys_inv (serviceOptions cfg) (service_sys q)" using assms(1) by (simp add: process_inv_def)
  from all_end [OF this assms(2,4)] obtain y where
    y: "sys_run os ctx ops (service_sys q) y" "all_returned y" by blast
  let ?q1 = "q\<lparr>service_sys := y\<rparr>"
  let ?q2 = "stop_service (?q1\<lparr>run_at := RunReceive (start_err (service_sys ?q1))\<rparr>)"
  have r1: "run_runs os ctx ops q ?q1" by (rule service_runs [OF y(1)]) (simp add: assms(3))
  have "run_own os ctx ops ?q1 ?q2"
    using run_step.started [of ?q1 os ctx ops] assms(3) y(2) by (intro own_run) simp_all
  moreover obtain q' r where "run_runs os ctx ops ?q2 q'" "run_at q' = RunReturned r"
    using receive_ends [of ?q2 "start_err y" os ctx ops] by auto
  ultimately show ?thesis using r1 by (meson converse_rtranclp_into_rtranclp rtranclp_trans)
qed

text \<open>An interface that has ended cancels the context.\<close>

lemma over_cancels:
  assumes "process_inv cfg q" and "tui_over (tui_at q)" and "\<forall>r. run_at q \<noteq> RunReturned r"
  shows "\<exists>q'. run_runs os ctx ops q q' \<and> parent_done (px (service_sys q')) \<and> run_at q' = run_at q"
proof -
  have sent: "\<exists>q'. run_runs os ctx ops p q' \<and> parent_done (px (service_sys q')) \<and> run_at q' = run_at p"
    if "tui_at p = TuiSent res" "\<forall>r. run_at p \<noteq> RunReturned r" for p res
    using own_tui [OF that(2) tui_cancels [OF that(1)], of os ctx ops]
    by (intro exI [of _ "stop_service (p\<lparr>tui_at := TuiGone res\<rparr>)"]) (simp add: r_into_rtranclp)
  have left: "\<exists>q'. run_runs os ctx ops p q' \<and> parent_done (px (service_sys q')) \<and> run_at q' = run_at p"
    if at: "tui_at p = TuiLeft res" and live: "\<forall>r. run_at p \<noteq> RunReturned r" for p res
  proof -
    let ?q1 = "p\<lparr>tui_at := TuiSent res\<rparr>"
    have "run_own os ctx ops p ?q1" by (rule own_tui [OF live tui_sends [OF at]])
    moreover obtain q' where "run_runs os ctx ops ?q1 q'" "parent_done (px (service_sys q'))" "run_at q' = run_at p"
      using sent [of ?q1 res] live by auto
    ultimately show ?thesis by (meson converse_rtranclp_into_rtranclp)
  qed
  consider res where "tui_at q = TuiRestoring res" | res where "tui_at q = TuiLeft res"
    | res where "tui_at q = TuiSent res" | res where "tui_at q = TuiGone res"
    using assms(2) by (cases "tui_at q") simp_all
  then show ?thesis
  proof cases
    case 1
    let ?q1 = "q\<lparr>tui_at := TuiLeft res, streams := (streams q)\<lparr>std_out := std_out terminal, std_err := std_err terminal\<rparr>\<rparr>"
    have "run_own os ctx ops q ?q1" by (rule own_tui [OF assms(3) tui_restores [OF 1]])
    moreover obtain q' where "run_runs os ctx ops ?q1 q'" "parent_done (px (service_sys q'))" "run_at q' = run_at q"
      using left [of ?q1 res] assms(3) by auto
    ultimately show ?thesis by (meson converse_rtranclp_into_rtranclp)
  next
    case 2
    then show ?thesis by (rule left [OF _ assms(3)])
  next
    case 3
    then show ?thesis by (rule sent [OF _ assms(3)])
  next
    case 4
    with assms(1) show ?thesis by (auto simp: process_inv_def)
  qed
qed

lemma process_ends:
  assumes "process_inv cfg q" and "arp_sound ops" and "parent_done (px (service_sys q)) \<or> tui_over (tui_at q)"
  shows "\<exists>q' r. run_runs os ctx ops q q' \<and> run_at q' = RunReturned r"
proof (cases "run_at q")
  case RunStart
  have run: "\<forall>r. run_at q \<noteq> RunReturned r" using RunStart by simp
  obtain q1 where q1: "run_runs os ctx ops q q1" "parent_done (px (service_sys q1))" "run_at q1 = RunStart"
  proof (cases "parent_done (px (service_sys q))")
    case True
    with RunStart show ?thesis by (intro that [of q]) simp_all
  next
    case False
    with over_cancels [OF assms(1) _ run, of os ctx ops] assms(3) RunStart that show ?thesis by auto
  qed
  from start_ends [OF run_runs_inv [OF q1(1) assms(2,1)] assms(2) q1(3,2)] q1(1) show ?thesis
    by (meson rtranclp_trans)
next
  case (RunReceive err)
  then have "signalled (service_sys q)" using assms(1) by (simp add: process_inv_def run_ok_def)
  with RunReceive show ?thesis by (rule receive_ends)
next
  case (RunReturned r)
  then show ?thesis by blast
qed

lemma run_runs_reach:
  "run_runs os ctx ops q q' \<Longrightarrow> run_reach os ctx ops cfg q \<Longrightarrow> run_reach os ctx ops cfg q'"
  by (induction rule: rtranclp_induct) (auto intro: run_reach.goes_on run_own_step)

section \<open>What the screen shows\<close>



lemma log_write_status [simp]: "status_view (log_write p u) = status_view u"
  by (simp add: log_write_def)




section \<open>Properties\<close>

text \<open>
  C9: What the process leaves behind. When \<open>run\<close> returns, the five goroutines of the service have
  returned, the VPN, the packet filter, the proxy and DNS are marked as down, no connection is
  tracked, the interface has given the terminal back, and the log goes to the terminal again, so
  that the error \<open>main\<close> reports is seen. That error is the one of the service, or without one that
  of the interface, and the exit status is zero exactly when there is none.
\<close>

theorem program_returns:
  assumes "run_reach os ctx ops cfg q" and "arp_sound ops" and "run_at q = RunReturned r"
  shows "all_returned (service_sys q) \<and> \<not> CiscoConnected (status (shared (service_sys q)))
     \<and> \<not> PFDisabled (status (shared (service_sys q))) \<and> \<not> ProxyStarted (status (shared (service_sys q)))
     \<and> \<not> DNSStarted (status (shared (service_sys q))) \<and> conns (shared (service_sys q)) = []
     \<and> streams q = terminal \<and> \<not> tui_running (tui_at q)
     \<and> (\<exists>terr. tui_sent (tui_at q) = Some terr \<and> r = run_result (start_err (service_sys q)) terr
          \<and> (exit_code r = 0) = (start_err (service_sys q) = None \<and> terr = None))"
proof -
  have inv: "process_inv cfg q" by (rule run_reach_inv [OF assms(1,2)])
  then obtain terr where ret: "all_returned (service_sys q)" "tui_sent (tui_at q) = Some terr"
    "r = run_result (start_err (service_sys q)) terr"
    using assms(3) by (auto simp: process_inv_def run_ok_def)
  have off: "\<not> tui_running (tui_at q)" "\<not> tui_redirected (tui_at q)"
    using ret(2) by (cases "tui_at q"; simp)+
  with inv assms(3) have str: "streams q = terminal" by (simp add: process_inv_def streams_of_def)
  have code: "(exit_code r = 0) = (start_err (service_sys q) = None \<and> terr = None)"
    by (simp add: ret(3) run_result_def exit_code_def split: option.split)
  have "sys_inv (serviceOptions cfg) (service_sys q)" using inv by (simp add: process_inv_def)
  from returned_state [OF this ret(1)] have down: "\<not> CiscoConnected (status (shared (service_sys q)))"
    "\<not> PFDisabled (status (shared (service_sys q)))" "\<not> ProxyStarted (status (shared (service_sys q)))"
    "\<not> DNSStarted (status (shared (service_sys q)))" "conns (shared (service_sys q)) = []" by blast+
  show ?thesis
    by (intro conjI exI [of _ terr]) (fact ret(1) down str off(1) ret(2,3) code)+
qed

text \<open>A terminal the library cannot open: the interface fails, and the process with it.\<close>

lemma sample_process:
  "\<exists>q. run_reach mac_os Ctx (route_ops mac_os Ctx) sample_config q \<and> tui_at q = TuiRestoring (Some (Msg ''no terminal''))"
proof -
  let ?q0 = "run_start sample_config sample_world"
  let ?q1 = "?q0\<lparr>tui_at := TuiSetup, streams := (streams ?q0)\<lparr>log_to := LogChannel\<rparr>\<rparr>"
  have b: "tui_at ?q0 = TuiBegin" "run_at ?q0 = RunStart"
    by (simp_all add: run_start_def sample_config_def zero_Config_def)
  have r1: "run_reach mac_os Ctx (route_ops mac_os Ctx) sample_config ?q1"
    by (rule run_reach.goes_on [OF run_reach.begins run_step.interface [OF _ tui_logs]]) (simp_all add: b)
  let ?q2 = "?q1\<lparr>tui_at := TuiOpened, streams := (streams ?q1)\<lparr>std_out := dev_null, std_err := dev_null\<rparr>\<rparr>"
  have r2: "run_reach mac_os Ctx (route_ops mac_os Ctx) sample_config ?q2"
    by (rule run_reach.goes_on [OF r1 run_step.interface [OF _ tui_redirects]]) (simp_all add: b)
  have "run_reach mac_os Ctx (route_ops mac_os Ctx) sample_config (?q2\<lparr>tui_at := TuiRestoring (Some (Msg ''no terminal''))\<rparr>)"
    by (rule run_reach.goes_on [OF r2 run_step.user [OF _ tui_no_screen]]) (simp_all add: b)
  then show ?thesis by (intro exI conjI) (assumption, simp)
qed

theorem program_returns_witness:
  "\<exists>q r. run_reach mac_os Ctx (route_ops mac_os Ctx) sample_config q \<and> run_at q = RunReturned r
     \<and> all_returned (service_sys q) \<and> streams q = terminal"
proof -
  obtain q where q: "run_reach mac_os Ctx (route_ops mac_os Ctx) sample_config q"
    "tui_at q = TuiRestoring (Some (Msg ''no terminal''))" using sample_process by blast
  then have "tui_over (tui_at q)" by simp
  with process_ends [OF run_reach_inv [OF q(1) arp_sound_route] arp_sound_route] obtain q' r where
    q': "run_runs mac_os Ctx (route_ops mac_os Ctx) q q'" "run_at q' = RunReturned r" by blast
  have r: "run_reach mac_os Ctx (route_ops mac_os Ctx) sample_config q'" by (rule run_runs_reach [OF q'(1) q(1)])
  from program_returns [OF r arp_sound_route q'(2)] r q'(2) show ?thesis by blast
qed

text \<open>
  C10: The process can always come to its end. After a signal, after the error of a goroutine, and
  after the end of the interface, by a key or by an error of its own, the steps of the process
  alone lead from any reachable state to the return of \<open>run\<close>: the service and the interface
  each stop when the other has. No further key, signal or error takes part: the interface quits
  because its goroutine sees the context done, the service stops because the end of the interface
  cancels it, and the loops end because their listeners are closed by the service.
\<close>

theorem program_ends:
  assumes "run_reach os ctx ops cfg q" and "arp_sound ops"
    and "parent_done (px (service_sys q)) \<or> tui_over (tui_at q)"
  shows "\<exists>q' r. run_runs os ctx ops q q' \<and> run_at q' = RunReturned r"
  by (rule process_ends [OF run_reach_inv [OF assms(1,2)] assms(2,3)])

theorem program_ends_witness:
  "\<exists>q q' r. run_reach mac_os Ctx (route_ops mac_os Ctx) sample_config q \<and> run_at q = RunStart
     \<and> run_runs mac_os Ctx (route_ops mac_os Ctx) q q' \<and> run_at q' = RunReturned r"
proof -
  let ?q0 = "run_start sample_config sample_world"
  let ?q = "?q0\<lparr>service_sys := (service_sys ?q0)\<lparr>px := cancel_group (px (service_sys ?q0)), signalled := True\<rparr>\<rparr>"
  have r: "run_reach mac_os Ctx (route_ops mac_os Ctx) sample_config ?q"
    by (rule run_reach.goes_on [OF run_reach.begins run_step.service [OF _ sys_step.signal]]) (simp add: run_start_def)
  have "parent_done (px (service_sys ?q))" by simp
  with program_ends [OF r arp_sound_route] obtain q' r where
    "run_runs mac_os Ctx (route_ops mac_os Ctx) ?q q'" "run_at q' = RunReturned r" by blast
  moreover have "run_at ?q = RunStart" by (simp add: run_start_def)
  ultimately show ?thesis using \<open>run_reach _ _ _ _ ?q\<close> by blast
qed



end
