(* ===== verification/Spec2Isabelle.thy ===== *)
theory Spec2Isabelle
  imports System_Up System_Commands Network_Change Supervisor_Runs Socks Bind Program
begin

text \<open>
  \<^bold>\<open>A verification library for cisco-socks-server.\<close>

  The program keeps a Cisco VPN connected on a Mac and offers it to the local network as a SOCKS5
  proxy and a DNS forwarder. While the VPN is up, Cisco routes the local subnet into the tunnel;
  the program therefore finds the LAN interface, binds the proxy's listener to it, and pins the
  ARP entries of the LAN clients, which it knows from the configuration or discovers from their
  traffic. \<open>cmd\<close> reads the configuration and starts the service; \<open>internal/service\<close> runs five
  goroutines over one shared state: the supervisor of the VPN, the proxy, the DNS server, the
  pinner and the sniffer; \<open>internal/utils\<close> wraps the commands of the system.

  \<^bold>\<open>Theories and code.\<close>

  \<^item> \<open>Go_Prelude\<close>, \<open>Go_Strings\<close>, \<open>Go_Net\<close>: what the code uses of Go and its standard library: errors
    and wrapping, 64-bit durations, maps as association lists in the order of one iteration,
    strings as bytes, \<open>strings\<close>, \<open>net\<close> and \<open>net/netip\<close> with their parsers and printers. The locales
    \<open>machine\<close> and \<open>machine_frame\<close> state what it means that every operation of a component keeps
    its invariant; the registry, the tracker and the supervisor interpret them.
  \<^item> \<open>Shell\<close> (\<open>shell.go\<close>): the operating system as a record of functions over an abstract world, and
    \<open>Run\<close>, \<open>Stream\<close> and the stderr tail on top of it. \<open>Mac_World\<close> is one concrete machine with a
    VPN agent, an ARP table, a packet filter and network interfaces; the witnesses run on it.
  \<^item> \<open>Cisco\<close> (\<open>cisco.go\<close> of \<open>utils\<close>), \<open>Route\<close> (\<open>route.go\<close>), \<open>Syn\<close> (\<open>syn.go\<close>): the parsers of what
    \<open>vpn\<close>, \<open>netstat\<close>, \<open>arp\<close> and \<open>tcpdump\<close> print, and the commands. The locale \<open>arp_source\<close> states what
    callers may rely on of an ARP lookup, \<open>arp_kernel\<close> adds what a pin does; the first is
    interpreted on \<open>LookupARP\<close>, the second on the sample machine.
  \<^item> \<open>Clients\<close> (\<open>clients.go\<close>), \<open>Conns\<close> (\<open>connTracker\<close> of \<open>proxy.go\<close>), \<open>Service\<close> (\<open>service.go\<close> and the
    snapshots of \<open>lan.go\<close>): the shared state and its operations, one per mutex section.
  \<^item> \<open>Supervisor\<close> (\<open>service/cisco.go\<close>), \<open>Pinner\<close> (\<open>service.go\<close>), \<open>Discovery\<close> (\<open>clients.go\<close>, \<open>sniff.go\<close>),
    \<open>Dns\<close> (\<open>dns.go\<close>), \<open>Socks\<close> (\<open>socks.go\<close>): each operation as a function from the service and the
    world to both; a panic is \<open>None\<close>, an error a value. \<open>Supervisor_Runs\<close> follows the supervisor over
    its ticks: a history records what the agent answered and how the command of a tick ended, and
    the fields of the supervisor are read off it.
  \<^item> \<open>Accept\<close>, \<open>Lan_Listener\<close>, \<open>Proxy\<close> (\<open>proxy.go\<close>, \<open>lan.go\<close>), \<open>Bind\<close> (\<open>bind_darwin.go\<close>, \<open>bind_other.go\<close>):
    the accept loop, \<open>serveLAN\<close> and \<open>startProxy\<close> as step relations, nested: the proxy runs the machine
    of the LAN listener, which runs the accept loops of the listeners it opened.
  \<^item> \<open>Steps\<close> cuts the sequential goroutines at their accesses to the shared state, and \<open>System\<close>
    puts all of them together as \<open>Service.Start\<close> does: a step is one access of one goroutine, so
    the runs are all interleavings; a discovery in a connection's goroutine and a SYN in the
    sniffer are cut the same way, between the read of the status, the lookups and the write, and
    so is the walk of the pinner, between the lookup of a client and what was decided on it. The
    sniffer starts \<open>tcpdump\<close> and works on the lines of that process.
    \<open>System_Safety\<close>, \<open>System_Up\<close> and \<open>System_Stop\<close> hold the theorems on it. The theorems on the
    way out speak of the service's own steps: no signal, no close of a listener by something else,
    no failed bind, no accept error on an open listener, no DNS server that ends by itself. What
    has to end must be ended by the code.
    \<open>System_Commands\<close> logs the commands at the boundary to the system and states in the locale
    \<open>guarded_os\<close> what a world may rely on of the operations; it is interpreted on the log.
    \<open>Network_Change\<close> is one run of the service, over a change of the network.
  \<^item> \<open>Config\<close>, \<open>Main_Run\<close> (\<open>cmd\<close>), \<open>Logger\<close> (\<open>utils/log\<close>, \<open>proxyLogger\<close>), \<open>Tui\<close> (\<open>utils/tui\<close>): the
    configuration and its validation, the result of the program, the log lines and their writer,
    the views of the interface, their goroutines and the channel of the log between them.
  \<^item> \<open>Program\<close> (\<open>run\<close> of \<open>cmd/main.go\<close>): the whole process. The main goroutine, the interface's and the
    system of \<open>System\<close> take turns over the context, the channel of the interface's error, the
    standard streams and the writer of the log. The streams are redirected before the screen is
    opened and restored when \<open>CreateTUI\<close> returns; a goroutine asks the main loop to quit when the
    context ends; a failure of the screen and a key are events of their own.

  Definitions carry the names of the code; a suffix or a prefix is added where the name is taken
  in HOL or used twice (\<open>conns_add\<close>, \<open>lan_snapshot\<close>). Where a loop body or an anonymous function is
  a definition of its own, the text before it says which.

  \<^bold>\<open>What the theorems show.\<close>

  \<^item> The whole service: in every interleaving \<open>ciscoReady\<close> is closed at most once, nothing serves
    before it, the marks of the status are true, the registry is well-formed; the proxy's and
    the LAN listener's assumptions about their environment are met by the other goroutines;
    the LAN listener is bound to the LAN of the status whenever nothing is under way;
    \<open>Start\<close> returns the error that came first, or \<open>nil\<close> after a signal, with everything marked as
    down; after a cancellation its own steps alone bring it to return. With an agent that is
    connected it can always come up: none of the goroutines is left waiting for another. As root
    it runs only the commands of a fixed list, \<open>tcpdump\<close> among them, with addresses, MACs and
    interfaces that were checked. One interleaving is shown to break what the code intends: a
    discovery in flight survives the reset of the registry.
  \<^item> The LAN listener: at most one, bound to the LAN of the status whenever it waits with no check
    pending, no LAN connection outlives its network, and closing it cannot hang.
  \<^item> The supervisor: debouncing of the LAN, backoff, grace period, ownership of the connection,
    scope of the shutdown, the last four over any number of ticks. The pinner: what it writes to
    ARP, and that it comes to rest. The registry: what expires, what is kept, what the MACs look
    like. Discovery: what a frame or a connection may change.
  \<^item> The process: when \<open>run\<close> returns, the goroutines of the service have returned, the terminal has
    its streams and the log again, and the exit status tells whether something failed; a signal,
    an error or the end of the interface can always bring it there; the streams are redirected
    from before the screen is opened until they are restored; the interface shows only states the
    service had, and its views and their goroutines are set up once.
  \<^item> Parsers: round trips with what the commands print, and bounds on what any input yields. DNS,
    SOCKS, configuration, logs: their functional behaviour, errors included.

  Lemmas of \<open>Steps\<close> show that the stage functions, uninterrupted, compose to \<open>tick\<close>, \<open>pinner_tick\<close>,
  \<open>discoverClient\<close> and \<open>sniffLAN\<close> with its watch, so the theorems on these operations and the ones on
  the interleaved system are about the same code.

  \<^bold>\<open>Bounds and fuel.\<close> The loops of the supervisor, the pinner and the sniffer never end by
  themselves; their functions take a number of rounds and say whether the loop is still
  running, and every theorem holds for each number. In the step relations there is no fuel.
  Nine stages are enough for a tick, and two per client and five more for a turn of the pinner,
  which the lemmas on stages show. Every other recursion is structural or proved to
  terminate. Durations wrap at 64 bits where the code multiplies them.

  \<^bold>\<open>Not modelled.\<close> The goroutines a shutdown has already released (a connection's copy loops belong
  to the SOCKS library); preemption inside a mutex section, which nothing can observe; times of
  steps, so that a timer may fire at any moment; what the drawing library does with a text, and
  what \<open>slog\<close> does beside calling the handler; the text of configuration errors; the tests. The
  YAML decoder, go-socks5, miekg/dns, gocui, the user database, sockets and processes are
  parameters, and the theorems name what they assume of them.
\<close>

end
